(* ===== verification/Prelude.thy ===== *)
theory Prelude
  imports Main "HOL-Library.Word"
begin

text \<open>
  Shared vocabulary of the development.

  \<^item> Rust's fixed-width integers are words of the same width; \<open>usize\<close> is \<open>nat\<close> with the 64-bit
    bound written out where the source checks it.
  \<^item> A Rust \<open>Result<T, E>\<close> is the sum \<open>'e + 'a\<close>, \<open>Inl\<close> holding the error.
  \<^item> Each decoding crate of the repository walks its input with a private \<open>Reader { bytes, offset }\<close>;
    the record \<open>reader\<close> and the type \<open>('e, 'a) rdr\<close> are that cursor and the functions that move it.
  \<^item> The locale \<open>wire_codec\<close> is the contract every decoder/encoder pair of the repository is held to:
    decoding an encoding returns the value and stops right after it, and a successful decode has
    consumed exactly the encoding of what it returned.
\<close>

section \<open>Integers and bytes\<close>

type_synonym byte = "8 word"
type_synonym u16 = "16 word"
type_synonym u32 = "32 word"
type_synonym u64 = "64 word"
type_synonym u128 = "128 word"
type_synonym bytes = "byte list"

text \<open>A Rust \<open>String\<close> or \<open>&str\<close> is represented by its UTF-8 bytes.\<close>

type_synonym rust_str = "byte list"

definition str_lit :: "string \<Rightarrow> rust_str" where
  "str_lit s = map of_char s"

definition usize_max :: nat where
  "usize_max = 18446744073709551615"

text \<open>Big-endian byte strings, \<open>to_be_bytes\<close> and \<open>from_be_bytes\<close> of Rust's unsigned integers.\<close>

primrec be_bytes :: "nat \<Rightarrow> nat \<Rightarrow> bytes" where
  "be_bytes 0 v = []"
| "be_bytes (Suc n) v = be_bytes n (v div 256) @ [word_of_nat (v mod 256)]"

definition be_nat :: "bytes \<Rightarrow> nat" where
  "be_nat bs = foldl (\<lambda>a b. 256 * a + unat b) 0 bs"

definition u16_to_be :: "u16 \<Rightarrow> bytes" where
  "u16_to_be v = be_bytes 2 (unat v)"

definition u32_to_be :: "u32 \<Rightarrow> bytes" where
  "u32_to_be v = be_bytes 4 (unat v)"

definition u64_to_be :: "u64 \<Rightarrow> bytes" where
  "u64_to_be v = be_bytes 8 (unat v)"

definition u16_from_be :: "bytes \<Rightarrow> u16" where
  "u16_from_be bs = word_of_nat (be_nat bs)"

definition u32_from_be :: "bytes \<Rightarrow> u32" where
  "u32_from_be bs = word_of_nat (be_nat bs)"

definition u64_from_be :: "bytes \<Rightarrow> u64" where
  "u64_from_be bs = word_of_nat (be_nat bs)"

lemma length_be_bytes [simp]: "length (be_bytes n v) = n"
  by (induction n arbitrary: v) auto

lemma be_nat_Nil [simp]: "be_nat [] = 0"
  by (simp add: be_nat_def)

lemma be_nat_snoc [simp]: "be_nat (bs @ [b]) = 256 * be_nat bs + unat b"
  by (simp add: be_nat_def)

lemma unat_bound: "unat (w :: 'a::len word) < 2 ^ LENGTH('a)"
  by (rule unsigned_less)

lemma unat_byte_less [simp]: "unat (b :: byte) < 256"
  using unat_bound [of b] by simp

lemma be_nat_be_bytes [simp]: "be_nat (be_bytes n v) = v mod 256 ^ n"
proof (induction n arbitrary: v)
  case (Suc n)
  have "256 * (v div 256 mod 256 ^ n) + v mod 256 = v mod (256 * 256 ^ n)"
    by (simp add: mod_mult2_eq)
  with Suc show ?case
    by (simp add: unat_of_nat)
qed simp

lemma be_bytes_be_nat [simp]: "be_bytes (length bs) (be_nat bs) = bs"
  by (induction bs rule: rev_induct) (simp_all add: add.commute)

lemma be_bytes_be_nat_len: "length bs = n \<Longrightarrow> be_bytes n (be_nat bs) = bs"
  by auto

lemma be_nat_less: "be_nat bs < 256 ^ length bs"
proof (induction bs rule: rev_induct)
  case (snoc b bs)
  have "256 * be_nat bs + unat b < 256 * be_nat bs + 256"
    by simp
  also have "\<dots> \<le> 256 * 256 ^ length bs"
    using snoc by simp
  finally show ?case by simp
qed simp

lemma length_u_to_be [simp]:
  "length (u16_to_be a) = 2" "length (u32_to_be b) = 4" "length (u64_to_be c) = 8"
  by (simp_all add: u16_to_be_def u32_to_be_def u64_to_be_def)

lemma u16_from_to_be [simp]: "u16_from_be (u16_to_be v) = v"
  using unat_bound [of v] by (simp add: u16_from_be_def u16_to_be_def)

lemma u32_from_to_be [simp]: "u32_from_be (u32_to_be v) = v"
  using unat_bound [of v] by (simp add: u32_from_be_def u32_to_be_def)

lemma u64_from_to_be [simp]: "u64_from_be (u64_to_be v) = v"
  using unat_bound [of v] by (simp add: u64_from_be_def u64_to_be_def)

lemma u16_to_from_be: "length bs = 2 \<Longrightarrow> u16_to_be (u16_from_be bs) = bs"
  using be_nat_less [of bs]
  by (simp add: u16_from_be_def u16_to_be_def unat_of_nat be_bytes_be_nat_len)

lemma u32_to_from_be: "length bs = 4 \<Longrightarrow> u32_to_be (u32_from_be bs) = bs"
  using be_nat_less [of bs]
  by (simp add: u32_from_be_def u32_to_be_def unat_of_nat be_bytes_be_nat_len)

lemma u64_to_from_be: "length bs = 8 \<Longrightarrow> u64_to_be (u64_from_be bs) = bs"
  using be_nat_less [of bs]
  by (simp add: u64_from_be_def u64_to_be_def unat_of_nat be_bytes_be_nat_len)

section \<open>Results and readers\<close>

text \<open>The private \<open>Reader\<close> of the decoding crates: a borrowed byte slice and the current offset.\<close>

record reader =
  rd_bytes :: bytes
  rd_offset :: nat

type_synonym ('e, 'a) rdr = "reader \<Rightarrow> 'e + 'a \<times> reader"

definition rd_new :: "bytes \<Rightarrow> reader" where
  "rd_new bs = \<lparr>rd_bytes = bs, rd_offset = 0\<rparr>"

definition rd_remaining :: "reader \<Rightarrow> nat" where
  "rd_remaining r = length (rd_bytes r) - rd_offset r"

text \<open>\<open>reader.bytes[start..reader.position()]\<close>\<close>

definition rd_slice_from :: "nat \<Rightarrow> reader \<Rightarrow> bytes" where
  "rd_slice_from start r = drop start (take (rd_offset r) (rd_bytes r))"

definition ret_r :: "'a \<Rightarrow> ('e, 'a) rdr" where
  "ret_r a = (\<lambda>r. Inr (a, r))"

definition err_r :: "'e \<Rightarrow> ('e, 'a) rdr" where
  "err_r e = (\<lambda>r. Inl e)"

text \<open>\<open>bind_r p f\<close> is Rust's \<open>let a = p(reader)?; f(a, reader)\<close>.\<close>

definition bind_r :: "('e, 'a) rdr \<Rightarrow> ('a \<Rightarrow> ('e, 'b) rdr) \<Rightarrow> ('e, 'b) rdr" where
  "bind_r p f = (\<lambda>r. case p r of Inl e \<Rightarrow> Inl e | Inr (a, r') \<Rightarrow> f a r')"

text \<open>A pure fallible step, \<open>parse(x)?\<close>.\<close>

definition lift_r :: "'e + 'a \<Rightarrow> ('e, 'a) rdr" where
  "lift_r x = (\<lambda>r. case x of Inl e \<Rightarrow> Inl e | Inr a \<Rightarrow> Inr (a, r))"

text \<open>An early \<open>return Err(e)\<close> guarded by a condition on the reader.\<close>

definition check_r :: "(reader \<Rightarrow> bool) \<Rightarrow> 'e \<Rightarrow> ('e, unit) rdr" where
  "check_r P e = (\<lambda>r. if P r then Inr ((), r) else Inl e)"

text \<open>\<open>for _ in 0..n { items.push(p(reader)?); }\<close>\<close>

primrec times_r :: "nat \<Rightarrow> ('e, 'a) rdr \<Rightarrow> ('e, 'a list) rdr" where
  "times_r 0 p = ret_r []"
| "times_r (Suc n) p = bind_r p (\<lambda>a. bind_r (times_r n p) (\<lambda>as. ret_r (a # as)))"

text \<open>A parse that also keeps the exact bytes it consumed.\<close>

definition spanned_r :: "('e, 'a) rdr \<Rightarrow> ('e, 'a \<times> bytes) rdr" where
  "spanned_r p = (\<lambda>r. case p r of Inl e \<Rightarrow> Inl e
      | Inr (a, r') \<Rightarrow> Inr ((a, rd_slice_from (rd_offset r) r'), r'))"

text \<open>Results without a reader: \<open>bind_e\<close> is the \<open>?\<close> operator on a plain \<open>Result\<close>.\<close>

definition bind_e :: "'e + 'a \<Rightarrow> ('a \<Rightarrow> 'e + 'b) \<Rightarrow> 'e + 'b" where
  "bind_e x f = (case x of Inl e \<Rightarrow> Inl e | Inr a \<Rightarrow> f a)"

lemma bind_e_simps [simp]: "bind_e (Inl e) f = Inl e" "bind_e (Inr a) f = f a"
  by (simp_all add: bind_e_def)

lemma bind_e_Inr_iff: "bind_e x f = Inr b \<longleftrightarrow> (\<exists>a. x = Inr a \<and> f a = Inr b)"
  by (cases x) auto

section \<open>Reader positions\<close>

text \<open>
  \<open>At pre suf\<close> is the reader that has consumed \<open>pre\<close> and still has \<open>suf\<close> to read. Every reader the
  code makes has this form, and laws stated on it compose by plain rewriting.
\<close>

definition At :: "bytes \<Rightarrow> bytes \<Rightarrow> reader" where
  "At pre suf = \<lparr>rd_bytes = pre @ suf, rd_offset = length pre\<rparr>"

definition fits :: "bytes \<Rightarrow> bytes \<Rightarrow> bool" where
  "fits pre suf \<longleftrightarrow> length pre + length suf \<le> usize_max"

lemma rd_new_At: "rd_new bs = At [] bs"
  by (simp add: rd_new_def At_def)

lemma rd_bytes_At [simp]: "rd_bytes (At pre suf) = pre @ suf"
  by (simp add: At_def)

lemma rd_offset_At [simp]: "rd_offset (At pre suf) = length pre"
  by (simp add: At_def)

lemma rd_remaining_At [simp]: "rd_remaining (At pre suf) = length suf"
  by (simp add: rd_remaining_def)

lemma rd_slice_from_At [simp]: "rd_slice_from (length pre) (At (pre @ x) t) = x"
  by (simp add: rd_slice_from_def)

lemma At_eq_iff: "At p s = At q t \<longleftrightarrow> p = q \<and> s = t"
proof
  assume "At p s = At q t"
  then have "p @ s = q @ t" "length p = length q"
    by (simp_all add: At_def)
  then show "p = q \<and> s = t" by simp
qed simp

lemma fits_Nil: "length bs \<le> usize_max \<Longrightarrow> fits [] bs"
  by (simp add: fits_def)

lemma ret_r_simp [simp]: "ret_r a r = Inr (a, r)"
  by (simp add: ret_r_def)

lemma err_r_simp [simp]: "err_r e r = Inl e"
  by (simp add: err_r_def)

lemma lift_r_simps [simp]: "lift_r (Inl e) r = Inl e" "lift_r (Inr a) r = Inr (a, r)"
  by (simp_all add: lift_r_def)

lemma lift_r_Inr_iff [simp]: "lift_r x r = Inr (a, r') \<longleftrightarrow> x = Inr a \<and> r' = r"
  by (cases x) auto

lemma check_r_Inr_iff [simp]: "check_r P e r = Inr (u, r') \<longleftrightarrow> P r \<and> r' = r"
  by (auto simp: check_r_def)

lemma check_r_ok [simp]: "P r \<Longrightarrow> check_r P e r = Inr ((), r)"
  by (simp add: check_r_def)

lemma check_r_err [simp]: "\<not> P r \<Longrightarrow> check_r P e r = Inl e"
  by (simp add: check_r_def)

lemma bind_r_ok [simp]: "p r = Inr (a, r') \<Longrightarrow> bind_r p f r = f a r'"
  by (simp add: bind_r_def)

lemma bind_r_err [simp]: "p r = Inl e \<Longrightarrow> bind_r p f r = Inl e"
  by (simp add: bind_r_def)

lemma bind_r_Inr_iff:
  "bind_r p f r = Inr (b, r'') \<longleftrightarrow> (\<exists>a r'. p r = Inr (a, r') \<and> f a r' = Inr (b, r''))"
  by (auto simp: bind_r_def split: sum.splits prod.splits)

lemma bind_r_InrE [elim!]:
  assumes "bind_r p f r = Inr (b, r'')"
  obtains a r' where "p r = Inr (a, r')" and "f a r' = Inr (b, r'')"
  using assms by (auto simp: bind_r_Inr_iff)

lemma bind_r_cong [fundef_cong]:
  assumes "r = r'" and "p r' = p' r'" and "\<And>a s. p' r' = Inr (a, s) \<Longrightarrow> f a s = f' a s"
  shows "bind_r p f r = bind_r p' f' r'"
  using assms by (auto simp: bind_r_def split: sum.splits prod.splits)

lemma bind_lift_rE:
  assumes "bind_r (lift_r x) f r = Inr (b, r')"
  obtains a where "x = Inr a" and "f a r = Inr (b, r')"
  using assms by (elim bind_r_InrE) auto

lemma bind_check_rE:
  assumes "bind_r (check_r P e) f r = Inr (b, r')"
  obtains "P r" and "f () r = Inr (b, r')"
  using assms by (elim bind_r_InrE) auto

section \<open>Counted loops\<close>

text \<open>A counted loop over a body that reads one element reads the concatenation, and conversely.\<close>

lemma times_r_forward:
  assumes "\<And>x pre t. x \<in> set xs \<Longrightarrow> length pre + length (e x) + length t \<le> usize_max \<Longrightarrow>
      p (At pre (e x @ t)) = Inr (f x, At (pre @ e x) t)"
    and "length pre + length (concat (map e xs)) + length t \<le> usize_max"
  shows "times_r (length xs) p (At pre (concat (map e xs) @ t))
      = Inr (map f xs, At (pre @ concat (map e xs)) t)"
  using assms
proof (induction xs arbitrary: pre)
  case (Cons x xs)
  have "p (At pre (e x @ concat (map e xs) @ t)) = Inr (f x, At (pre @ e x) (concat (map e xs) @ t))"
    using Cons.prems(2) by (intro Cons.prems(1)) simp_all
  moreover have "times_r (length xs) p (At (pre @ e x) (concat (map e xs) @ t))
      = Inr (map f xs, At ((pre @ e x) @ concat (map e xs)) t)"
    using Cons.prems by (intro Cons.IH) simp_all
  ultimately show ?case by simp
qed simp

lemma times_r_backward:
  assumes "\<And>pre suf a r'. p (At pre suf) = Inr (a, r') \<Longrightarrow>
      \<exists>x t. P a x \<and> suf = e x @ t \<and> r' = At (pre @ e x) t"
    and "times_r n p (At pre suf) = Inr (as, r')"
  shows "\<exists>xs t. list_all2 P as xs \<and> length xs = n \<and> suf = concat (map e xs) @ t \<and>
      r' = At (pre @ concat (map e xs)) t"
  using assms(2)
proof (induction n arbitrary: pre suf as r')
  case (Suc n)
  then obtain a as' r1 where a: "p (At pre suf) = Inr (a, r1)"
    and as': "times_r n p r1 = Inr (as', r')" and as: "as = a # as'"
    by auto
  from assms(1) [OF a] obtain x t where x: "P a x" "suf = e x @ t" "r1 = At (pre @ e x) t"
    by blast
  from Suc.IH [of "pre @ e x" t as' r'] as' x(3) obtain xs t' where
    "list_all2 P as' xs" "length xs = n" "t = concat (map e xs) @ t'"
    "r' = At ((pre @ e x) @ concat (map e xs)) t'"
    by blast
  with x as show ?case
    by (intro exI [of _ "x # xs"] exI [of _ t']) simp
qed auto

corollary times_r_backward_set:
  assumes "\<And>pre suf a r'. p (At pre suf) = Inr (a, r') \<Longrightarrow>
      \<exists>x t. P x \<and> suf = e x @ t \<and> r' = At (pre @ e x) t"
    and "times_r n p (At pre suf) = Inr (as, r')"
  shows "\<exists>xs t. length xs = n \<and> (\<forall>x \<in> set xs. P x) \<and> suf = concat (map e xs) @ t \<and>
      r' = At (pre @ concat (map e xs)) t"
proof -
  have "list_all2 (\<lambda>_. P) as xs \<Longrightarrow> \<forall>x \<in> set xs. P x" for xs
    by (induction rule: list_all2_induct) auto
  moreover have "\<exists>xs t. list_all2 (\<lambda>_. P) as xs \<and> length xs = n \<and>
      suf = concat (map e xs) @ t \<and> r' = At (pre @ concat (map e xs)) t"
    using assms by (intro times_r_backward [of p "\<lambda>_. P" e]) blast+
  ultimately show ?thesis by blast
qed

section \<open>The contract of a decoder and its encoder\<close>

locale wire_codec =
  fixes dec :: "('e, 'a) rdr"
    and enc :: "'a \<Rightarrow> bytes"
    and wf :: "'a \<Rightarrow> bool"
  assumes dec_enc: "wf a \<Longrightarrow> fits pre (enc a @ t) \<Longrightarrow>
      dec (At pre (enc a @ t)) = Inr (a, At (pre @ enc a) t)"
    and enc_dec: "dec (At pre suf) = Inr (a, r') \<Longrightarrow>
      wf a \<and> (\<exists>t. suf = enc a @ t \<and> r' = At (pre @ enc a) t)"
begin

lemma dec_enc_len:
  "wf a \<Longrightarrow> length pre + length (enc a) + length t \<le> usize_max \<Longrightarrow>
    dec (At pre (enc a @ t)) = Inr (a, At (pre @ enc a) t)"
  by (rule dec_enc) (simp_all add: fits_def)

lemma dec_enc_end:
  "wf a \<Longrightarrow> length pre + length (enc a) \<le> usize_max \<Longrightarrow>
    dec (At pre (enc a)) = Inr (a, At (pre @ enc a) [])"
  using dec_enc_len [of a pre "[]"] by simp

lemma enc_decE:
  assumes "dec (At pre suf) = Inr (a, r')"
  obtains t where "suf = enc a @ t" and "r' = At (pre @ enc a) t" and "wf a"
  using enc_dec [OF assms] by blast

text \<open>One step of a decoder that starts with \<open>dec\<close>.\<close>

lemma bind_enc_decE:
  assumes "bind_r dec f (At pre suf) = Inr (b, r')"
  obtains a t where "suf = enc a @ t" and "wf a" and "f a (At (pre @ enc a) t) = Inr (b, r')"
proof -
  from assms obtain a r1 where a: "dec (At pre suf) = Inr (a, r1)" "f a r1 = Inr (b, r')"
    by (rule bind_r_InrE)
  from enc_dec [OF a(1)] a(2) that show thesis by blast
qed

text \<open>Two encodings that start the same bytes are the same value and leave the same rest.\<close>

lemma enc_unique:
  assumes "wf a" "wf b" "enc a @ s = enc b @ t" "length (enc a @ s) \<le> usize_max"
  shows "a = b \<and> s = t"
proof -
  have "dec (At [] (enc a @ s)) = Inr (a, At (enc a) s)"
    using dec_enc [of a "[]" s] assms by (simp add: fits_def)
  moreover have "dec (At [] (enc b @ t)) = Inr (b, At (enc b) t)"
    using dec_enc [of b "[]" t] assms by (simp add: fits_def)
  ultimately have "a = b" "At (enc a) s = At (enc b) t"
    using assms(3) by simp_all
  then show ?thesis by (simp add: At_eq_iff)
qed

lemma enc_inject: "wf a \<Longrightarrow> wf b \<Longrightarrow> length (enc a) \<le> usize_max \<Longrightarrow> enc a = enc b \<longleftrightarrow> a = b"
  using enc_unique [of a b "[]" "[]"] by auto

text \<open>The contract of an element carries over to a counted run of elements.\<close>

lemma times_dec_enc:
  "\<forall>a \<in> set as. wf a \<Longrightarrow> length pre + length (concat (map enc as)) + length t \<le> usize_max \<Longrightarrow>
    times_r (length as) dec (At pre (concat (map enc as) @ t))
      = Inr (as, At (pre @ concat (map enc as)) t)"
  using times_r_forward [of as enc dec id pre t] by (simp add: dec_enc_len)

lemma times_enc_dec:
  assumes "times_r n dec (At pre suf) = Inr (as, r')"
  shows "length as = n \<and> (\<forall>a \<in> set as. wf a) \<and>
    (\<exists>t. suf = concat (map enc as) @ t \<and> r' = At (pre @ concat (map enc as)) t)"
proof -
  have "dec (At pre suf) = Inr (a, r') \<Longrightarrow>
      \<exists>x t. (x = a \<and> wf a) \<and> suf = enc x @ t \<and> r' = At (pre @ enc x) t" for pre suf a r'
    by (blast dest: enc_dec)
  from times_r_backward [of dec "\<lambda>a x. x = a \<and> wf a" enc, OF this assms]
  obtain xs t where xs: "list_all2 (\<lambda>a x. x = a \<and> wf a) as xs" "length xs = n"
    "suf = concat (map enc xs) @ t" "r' = At (pre @ concat (map enc xs)) t"
    by blast
  have "xs = as" "\<forall>a \<in> set as. wf a"
    using xs(1) by (induction rule: list_all2_induct) auto
  with xs show ?thesis by blast
qed

lemma times_enc_decE:
  assumes "times_r n dec (At pre suf) = Inr (as, r')"
  obtains t where "suf = concat (map enc as) @ t" and "r' = At (pre @ concat (map enc as)) t"
    and "length as = n" and "\<forall>a \<in> set as. wf a"
  using times_enc_dec [OF assms] by blast

lemma times_enc_unique:
  assumes "\<forall>a \<in> set as. wf a" "\<forall>b \<in> set bs. wf b" "length as = length bs"
    and "concat (map enc as) @ s = concat (map enc bs) @ t" "length (concat (map enc as) @ s) \<le> usize_max"
  shows "as = bs \<and> s = t"
proof -
  have "length (concat (map enc bs) @ t) \<le> usize_max"
    using assms(5) unfolding assms(4) .
  with times_dec_enc [of bs "[]" t] assms(2)
  have "times_r (length bs) dec (At [] (concat (map enc bs) @ t)) = Inr (bs, At (concat (map enc bs)) t)"
    by simp
  moreover have "times_r (length as) dec (At [] (concat (map enc as) @ s)) = Inr (as, At (concat (map enc as)) s)"
    using times_dec_enc [of as "[]" s] assms(1,5) by simp
  ultimately have "Inr (as, At (concat (map enc as)) s) = (Inr (bs, At (concat (map enc bs)) t) :: 'e + _)"
    unfolding assms(3,4) by metis
  then show ?thesis by (simp add: At_eq_iff)
qed

lemma spanned_dec_enc:
  "wf a \<Longrightarrow> length pre + length (enc a) + length t \<le> usize_max \<Longrightarrow>
    spanned_r dec (At pre (enc a @ t)) = Inr ((a, enc a), At (pre @ enc a) t)"
  by (simp add: spanned_r_def dec_enc_len)

lemma spanned_enc_decE:
  assumes "spanned_r dec (At pre suf) = Inr (x, r')"
  obtains a t where "x = (a, enc a)" and "suf = enc a @ t" and "r' = At (pre @ enc a) t" and "wf a"
proof -
  from assms obtain a where a: "dec (At pre suf) = Inr (a, r')"
    and x: "x = (a, rd_slice_from (length pre) r')"
    by (auto simp: spanned_r_def split: sum.splits)
  from a obtain t where "suf = enc a @ t" "r' = At (pre @ enc a) t" "wf a"
    by (rule enc_decE)
  with x that show ?thesis by simp
qed

lemma bind_times_enc_decE:
  assumes "bind_r (times_r n dec) f (At pre suf) = Inr (b, r')"
  obtains as t where "suf = concat (map enc as) @ t" and "length as = n" and "\<forall>a \<in> set as. wf a"
    and "f as (At (pre @ concat (map enc as)) t) = Inr (b, r')"
proof -
  from assms obtain as r1 where as: "times_r n dec (At pre suf) = Inr (as, r1)" "f as r1 = Inr (b, r')"
    by (rule bind_r_InrE)
  from as(1) obtain t where "suf = concat (map enc as) @ t" "r1 = At (pre @ concat (map enc as)) t"
    "length as = n" "\<forall>a \<in> set as. wf a"
    by (rule times_enc_decE)
  with as(2) that show thesis by blast
qed

lemma bind_spanned_enc_decE:
  assumes "bind_r (spanned_r dec) f (At pre suf) = Inr (b, r')"
  obtains a t where "suf = enc a @ t" and "wf a" and "f (a, enc a) (At (pre @ enc a) t) = Inr (b, r')"
proof -
  from assms obtain x r1 where x: "spanned_r dec (At pre suf) = Inr (x, r1)" "f x r1 = Inr (b, r')"
    by (rule bind_r_InrE)
  from x(1) obtain a t where "x = (a, enc a)" "suf = enc a @ t" "r1 = At (pre @ enc a) t" "wf a"
    by (rule spanned_enc_decE)
  with x(2) that show thesis by blast
qed

end

section \<open>Fixed-width fields\<close>

text \<open>The decoding crates each have their own \<open>Reader\<close> with its own error type. All of them take a slice
  with a checked addition and read integers from fixed slices. \<open>take_r\<close> is that slice, with the errors for
  an overflowing and for a missing slice, and the other readers are built on a slice function.\<close>

definition take_r :: "'e \<Rightarrow> 'e \<Rightarrow> nat \<Rightarrow> ('e, bytes) rdr" where
  "take_r overflow missing n r =
     (let fin = rd_offset r + n
      in if fin > usize_max then Inl overflow
         else if fin \<le> length (rd_bytes r)
         then Inr (take n (drop (rd_offset r) (rd_bytes r)), r\<lparr>rd_offset := fin\<rparr>)
         else Inl missing)"

definition byte_r :: "(nat \<Rightarrow> ('e, bytes) rdr) \<Rightarrow> ('e, byte) rdr" where
  "byte_r slice_of = bind_r (slice_of 1) (\<lambda>bs. ret_r (hd bs))"

definition u16_r :: "(nat \<Rightarrow> ('e, bytes) rdr) \<Rightarrow> ('e, u16) rdr" where
  "u16_r slice_of = bind_r (slice_of 2) (\<lambda>bs. ret_r (u16_from_be bs))"

definition u32_r :: "(nat \<Rightarrow> ('e, bytes) rdr) \<Rightarrow> ('e, u32) rdr" where
  "u32_r slice_of = bind_r (slice_of 4) (\<lambda>bs. ret_r (u32_from_be bs))"

definition u64_r :: "(nat \<Rightarrow> ('e, bytes) rdr) \<Rightarrow> ('e, u64) rdr" where
  "u64_r slice_of = bind_r (slice_of 8) (\<lambda>bs. ret_r (u64_from_be bs))"

locale slice_reader =
  fixes slice_of :: "nat \<Rightarrow> ('e, bytes) rdr"
  assumes slice_append: "length x = n \<Longrightarrow> length pre + n + length t \<le> usize_max \<Longrightarrow>
      slice_of n (At pre (x @ t)) = Inr (x, At (pre @ x) t)"
    and slice_sound: "slice_of n (At pre suf) = Inr (x, r') \<Longrightarrow>
      length x = n \<and> (\<exists>t. suf = x @ t \<and> r' = At (pre @ x) t)"
begin

lemma sliceE:
  assumes "slice_of n (At pre suf) = Inr (x, r')"
  obtains t where "suf = x @ t" and "r' = At (pre @ x) t" and "length x = n"
  using slice_sound [OF assms] by blast

lemma array_codec: "wire_codec (slice_of n) (\<lambda>x. x) (\<lambda>x. length x = n)"
  by unfold_locales (auto simp: fits_def slice_append elim!: sliceE)

lemma byte_codec: "wire_codec (byte_r slice_of) (\<lambda>b. [b]) (\<lambda>_. True)"
proof
  fix a pre t
  assume "fits pre ([a] @ t)"
  then show "byte_r slice_of (At pre ([a] @ t)) = Inr (a, At (pre @ [a]) t)"
    using slice_append [of "[a]" 1 pre t] by (simp add: byte_r_def fits_def)
qed (auto simp: byte_r_def length_Suc_conv elim!: sliceE)

lemma u16_codec: "wire_codec (u16_r slice_of) u16_to_be (\<lambda>_. True)"
  by unfold_locales (auto simp: u16_r_def fits_def slice_append u16_to_from_be elim!: sliceE)

lemma u32_codec: "wire_codec (u32_r slice_of) u32_to_be (\<lambda>_. True)"
  by unfold_locales (auto simp: u32_r_def fits_def slice_append u32_to_from_be elim!: sliceE)

lemma u64_codec: "wire_codec (u64_r slice_of) u64_to_be (\<lambda>_. True)"
  by unfold_locales (auto simp: u64_r_def fits_def slice_append u64_to_from_be elim!: sliceE)

end

lemma take_r_append:
  "length x = n \<Longrightarrow> length pre + n + length t \<le> usize_max \<Longrightarrow>
    take_r overflow missing n (At pre (x @ t)) = Inr (x, At (pre @ x) t)"
  by (simp add: take_r_def At_def Let_def)

lemma take_r_sound:
  "take_r overflow missing n (At pre suf) = Inr (x, r') \<Longrightarrow>
    length x = n \<and> (\<exists>t. suf = x @ t \<and> r' = At (pre @ x) t)"
  by (auto simp: take_r_def Let_def At_def split: if_splits intro!: exI [of _ "drop n suf"])

interpretation slices: slice_reader "take_r overflow missing" for overflow missing
  by unfold_locales (simp_all add: take_r_append take_r_sound)

text \<open>\<open>map(f).collect::<Result<Vec<_>, _>>()\<close> and \<open>try_fold\<close>\<close>

primrec map_e :: "('a \<Rightarrow> 'e + 'b) \<Rightarrow> 'a list \<Rightarrow> 'e + 'b list" where
  "map_e f [] = Inr []"
| "map_e f (x # xs) = bind_e (f x) (\<lambda>y. bind_e (map_e f xs) (\<lambda>ys. Inr (y # ys)))"

primrec fold_e :: "('s \<Rightarrow> 'a \<Rightarrow> 'e + 's) \<Rightarrow> 's \<Rightarrow> 'a list \<Rightarrow> 'e + 's" where
  "fold_e f s [] = Inr s"
| "fold_e f s (x # xs) = bind_e (f s x) (\<lambda>s'. fold_e f s' xs)"

lemma map_e_Inr_iff: "map_e f xs = Inr ys \<longleftrightarrow> list_all2 (\<lambda>x y. f x = Inr y) xs ys"
  by (induction xs arbitrary: ys) (auto simp: bind_e_Inr_iff list_all2_Cons1)

text \<open>\<open>checked_add\<close> of an unsigned type.\<close>

definition checked_add :: "'w::len word \<Rightarrow> 'w word \<Rightarrow> 'w word option" where
  "checked_add a b = (if unat a + unat b < 2 ^ LENGTH('w) then Some (a + b) else None)"

lemma checked_add_Some: "checked_add a b = Some c \<longleftrightarrow> unat a + unat b < 2 ^ LENGTH('w) \<and> c = a + b"
  for a b c :: "'w::len word"
  by (auto simp: checked_add_def)

lemma unat_checked_add: "checked_add a b = Some c \<Longrightarrow> unat c = unat a + unat b"
  by (auto simp: checked_add_Some unat_word_ariths)

text \<open>Summing with \<open>try_fold\<close> and \<open>checked_add\<close> gives the exact sum or an error.\<close>

definition sum_checked :: "'e \<Rightarrow> 'w::len word \<Rightarrow> 'w word list \<Rightarrow> 'e + 'w word" where
  "sum_checked err = fold_e (\<lambda>total x. case checked_add total x of None \<Rightarrow> Inl err | Some s \<Rightarrow> Inr s)"

lemma sum_checked_Inr:
  "sum_checked err a xs = Inr s \<Longrightarrow> unat s = unat a + sum_list (map unat xs)"
  by (induction xs arbitrary: a)
     (auto simp: sum_checked_def bind_e_Inr_iff split: option.splits dest!: unat_checked_add)

lemma sum_checked_ok:
  fixes a :: "'w::len word"
  assumes "unat a + sum_list (map unat xs) < 2 ^ LENGTH('w)"
  shows "\<exists>s. sum_checked err a xs = Inr s \<and> unat s = unat a + sum_list (map unat xs)"
  using assms
proof (induction xs arbitrary: a)
  case (Cons x xs)
  then obtain b where b: "checked_add a x = Some b" "unat b = unat a + unat x"
    by (auto simp: checked_add_def unat_word_ariths)
  with Cons.IH [of b] Cons.prems show ?case by (auto simp: sum_checked_def)
qed (simp add: sum_checked_def)

text \<open>\<open>Iterator::find_map\<close>\<close>

primrec find_map :: "('a \<Rightarrow> 'b option) \<Rightarrow> 'a list \<Rightarrow> 'b option" where
  "find_map f [] = None"
| "find_map f (x # xs) = (case f x of Some y \<Rightarrow> Some y | None \<Rightarrow> find_map f xs)"

lemma length_concat_ge: "\<forall>x \<in> set xs. k \<le> length (f x) \<Longrightarrow> k * length xs \<le> length (concat (map f xs))"
  by (induction xs) auto

section \<open>Counted runs\<close>

text \<open>A 32-bit count, a guard that the bytes left can hold that many elements of at least \<open>k\<close> bytes, and the
  elements.\<close>

definition counted_r :: "('e, u32) rdr \<Rightarrow> nat \<Rightarrow> 'e \<Rightarrow> ('e, 'a) rdr \<Rightarrow> ('e, 'a list) rdr" where
  "counted_r number k err p = bind_r number (\<lambda>count.
     bind_r (check_r (\<lambda>r. unat count \<le> rd_remaining r div k) err) (\<lambda>_. times_r (unat count) p))"

definition w_counted :: "('a \<Rightarrow> bytes) \<Rightarrow> 'a list \<Rightarrow> bytes" where
  "w_counted enc as = u32_to_be (word_of_nat (length as)) @ concat (map enc as)"

context wire_codec
begin

lemma counted_codec:
  assumes number: "wire_codec number u32_to_be (\<lambda>_. True)" and k: "0 < k" "\<And>a. wf a \<Longrightarrow> k \<le> length (enc a)"
  shows "wire_codec (counted_r number k err dec) (w_counted enc) (\<lambda>as. length as < 2 ^ 32 \<and> (\<forall>a \<in> set as. wf a))"
proof
  fix as pre t
  assume as: "length as < 2 ^ 32 \<and> (\<forall>a \<in> set as. wf a)" and fit: "fits pre (w_counted enc as @ t)"
  have "k * length as \<le> length (concat (map enc as))"
    using as k by (intro length_concat_ge) auto
  then have "length as \<le> (length (concat (map enc as)) + length t) div k"
    using k(1) by (simp add: less_eq_div_iff_mult_less_eq mult.commute)
  moreover have "unat (word_of_nat (length as) :: u32) = length as"
    using as by (simp add: unat_of_nat)
  ultimately show "counted_r number k err dec (At pre (w_counted enc as @ t)) = Inr (as, At (pre @ w_counted enc as) t)"
    using as fit by (simp add: fits_def counted_r_def w_counted_def wire_codec.dec_enc_len [OF number] times_dec_enc)
next
  fix pre suf as r'
  assume "counted_r number k err dec (At pre suf) = Inr (as, r')"
  then obtain n t where "suf = u32_to_be n @ t"
    and run: "times_r (unat n) dec (At (pre @ u32_to_be n) t) = Inr (as, r')"
    unfolding counted_r_def by (elim wire_codec.bind_enc_decE [OF number] bind_check_rE) blast
  moreover from run obtain t' where "t = concat (map enc as) @ t'" "r' = At ((pre @ u32_to_be n) @ concat (map enc as)) t'"
    "length as = unat n" "\<forall>a \<in> set as. wf a"
    by (rule times_enc_decE)
  ultimately show "(length as < 2 ^ 32 \<and> (\<forall>a \<in> set as. wf a)) \<and>
      (\<exists>t. suf = w_counted enc as @ t \<and> r' = At (pre @ w_counted enc as) t)"
    using unat_bound [of n] by (auto simp: w_counted_def)
qed

end

end
