(* ===== verification/Primitives.thy ===== *)
theory Primitives
  imports Prelude
begin

text \<open>
  The crate \<open>nano-primitives\<close>: networks, the empty-trie hash convention and the length-prefixed bit
  vectors that block headers and peer inventories carry. Hash functions come from third-party
  crates and are parameters.
\<close>

unbundle bit_operations_syntax

section \<open>Networks\<close>

record network =
  net_mainnet :: bool
  net_chain_id :: u32

definition network_mainnet :: network where
  "network_mainnet = \<lparr>net_mainnet = True, net_chain_id = 1\<rparr>"

definition network_testnet :: network where
  "network_testnet = \<lparr>net_mainnet = False, net_chain_id = 0x80000000\<rparr>"

definition testnet_with_chain_id :: "u32 \<Rightarrow> network" where
  "testnet_with_chain_id chain_id = \<lparr>net_mainnet = False, net_chain_id = chain_id\<rparr>"

definition from_chain_id :: "u32 \<Rightarrow> network" where
  "from_chain_id chain_id =
     \<lparr>net_mainnet = (chain_id = net_chain_id network_mainnet), net_chain_id = chain_id\<rparr>"

definition boot_address :: "network \<Rightarrow> string" where
  "boot_address n = (if net_mainnet n then ''SP000000000000000000002Q6VF78''
                     else ''ST000000000000000000002AMW42H'')"

definition boot_contract_id :: "network \<Rightarrow> string \<Rightarrow> string" where
  "boot_contract_id n name = boot_address n @ ''.'' @ name"

section \<open>Hashes of trie data\<close>

text \<open>The 32 bytes of the source's table, as one big-endian number.\<close>

definition trie_hash_empty :: bytes where
  "trie_hash_empty = be_bytes 32 0xc672b8d1ef56ed28ab87c3622c5114069bdd3ad7b8f9737498d0c01ecef0967a"

definition trie_hash_from_data :: "(bytes \<Rightarrow> bytes) \<Rightarrow> bytes \<Rightarrow> bytes" where
  "trie_hash_from_data sha512_256 d = (if d = [] then trie_hash_empty else sha512_256 d)"

section \<open>Bit vectors\<close>

record bit_vec =
  bv_data :: bytes
  bv_len :: u16

datatype bit_vec_error =
    BitVecEmpty
  | BitVecTooLong u16 u16
  | BitVecOutOfBounds u16 u16
  | BitVecTruncated
  | BitVecInvalidWireLength

definition bv_data_len :: "u16 \<Rightarrow> nat" where
  "bv_data_len len = (unat len + 7) div 8"

definition bv_get :: "bit_vec \<Rightarrow> u16 \<Rightarrow> bool option" where
  "bv_get bv index =
     (if index < bv_len bv
      then Some ((bv_data bv ! (unat index div 8)) AND push_bit (unat index mod 8) 1 \<noteq> 0)
      else None)"

definition bv_set :: "bit_vec \<Rightarrow> u16 \<Rightarrow> bool \<Rightarrow> bit_vec_error + bit_vec" where
  "bv_set bv index v =
     (if index \<ge> bv_len bv then Inl (BitVecOutOfBounds index (bv_len bv))
      else let i = unat index div 8;
               b = bv_data bv ! i;
               mask = push_bit (unat index mod 8) 1
           in Inr (bv\<lparr>bv_data := (bv_data bv)[i := if v then b OR mask else b AND NOT mask]\<rparr>))"

text \<open>The loop \<open>for index in 0..len { result.set(index, true)?; }\<close> of \<open>BitVec::new\<close>.\<close>

fun bv_set_all :: "bit_vec \<Rightarrow> u16 list \<Rightarrow> bool \<Rightarrow> bit_vec_error + bit_vec" where
  "bv_set_all bv [] v = Inr bv"
| "bv_set_all bv (i # is) v = bind_e (bv_set bv i v) (\<lambda>bv'. bv_set_all bv' is v)"

definition bv_new :: "u16 \<Rightarrow> u16 \<Rightarrow> bool \<Rightarrow> bit_vec_error + bit_vec" where
  "bv_new max_size len v =
     (if len = 0 then Inl BitVecEmpty
      else if len > max_size then Inl (BitVecTooLong len max_size)
      else let result = \<lparr>bv_data = replicate (bv_data_len len) 0, bv_len = len\<rparr>
           in if v then bv_set_all result (map word_of_nat [0..<unat len]) True else Inr result)"

definition bv_zeros :: "u16 \<Rightarrow> u16 \<Rightarrow> bit_vec_error + bit_vec" where
  "bv_zeros max_size len = bv_new max_size len False"

definition bv_ones :: "u16 \<Rightarrow> u16 \<Rightarrow> bit_vec_error + bit_vec" where
  "bv_ones max_size len = bv_new max_size len True"

definition bv_wire_bytes :: "bit_vec \<Rightarrow> bytes" where
  "bv_wire_bytes bv = u16_to_be (bv_len bv) @ u32_to_be (word_of_nat (length (bv_data bv))) @ bv_data bv"

definition bv_from_wire_bytes :: "u16 \<Rightarrow> bytes \<Rightarrow> bit_vec_error + bit_vec" where
  "bv_from_wire_bytes max_size bs =
     (if length bs < 6 then Inl BitVecTruncated
      else let header = take 6 bs;
               len = u16_from_be (take 2 header);
               declared_length = u32_from_be (drop 2 header);
               data = drop 6 bs
           in if unat declared_length \<noteq> length data then Inl BitVecInvalidWireLength
              else if length data \<noteq> bv_data_len len then Inl BitVecInvalidWireLength
              else bind_e (bv_zeros max_size len) (\<lambda>result. Inr (result\<lparr>bv_data := data\<rparr>)))"

definition bv_iter :: "bit_vec \<Rightarrow> bool list" where
  "bv_iter bv = map (\<lambda>i. the (bv_get bv (word_of_nat i))) [0..<unat (bv_len bv)]"

text \<open>The invariant of a \<open>BitVec<MAX_SIZE>\<close>: what every constructor establishes.\<close>

definition bv_ok :: "u16 \<Rightarrow> bit_vec \<Rightarrow> bool" where
  "bv_ok max_size bv \<longleftrightarrow> 0 < bv_len bv \<and> bv_len bv \<le> max_size \<and>
     length (bv_data bv) = bv_data_len (bv_len bv)"

section \<open>An array of bits as an interface\<close>

locale bit_store =
  fixes get :: "'s \<Rightarrow> 'i \<Rightarrow> bool option"
    and set_bit_at :: "'s \<Rightarrow> 'i \<Rightarrow> bool \<Rightarrow> 'e + 's"
    and valid :: "'s \<Rightarrow> 'i \<Rightarrow> bool"
    and inv :: "'s \<Rightarrow> bool"
  assumes set_valid: "inv s \<Longrightarrow> valid s i \<Longrightarrow>
      \<exists>s'. set_bit_at s i v = Inr s' \<and> inv s' \<and> valid s' = valid s \<and>
           (\<forall>j. get s' j = (if j = i then Some v else get s j))"
begin

text \<open>Setting every index of a list changes exactly those bits.\<close>

lemma set_many:
  assumes "inv s" "\<forall>i \<in> set is. valid s i"
    and loop_nil: "\<And>s. loop s [] = Inr s"
    and loop_cons: "\<And>s i is. loop s (i # is) = bind_e (set_bit_at s i v) (\<lambda>s'. loop s' is)"
  shows "\<exists>s'. loop s is = Inr s' \<and> inv s' \<and> valid s' = valid s \<and>
           (\<forall>j. get s' j = (if j \<in> set is then Some v else get s j))"
  using assms(1,2)
proof (induction "is" arbitrary: s)
  case Nil
  then show ?case by (simp add: loop_nil)
next
  case (Cons i "is")
  obtain s1 where s1: "set_bit_at s i v = Inr s1" "inv s1" "valid s1 = valid s"
    "\<forall>j. get s1 j = (if j = i then Some v else get s j)"
    using set_valid [of s i v] Cons.prems by auto
  obtain s' where s': "loop s1 is = Inr s'" "inv s'" "valid s' = valid s1"
    "\<forall>j. get s' j = (if j \<in> set is then Some v else get s1 j)"
    using Cons.IH [of s1] Cons.prems s1 by auto
  have "loop s (i # is) = Inr s'" using s1 s' by (simp add: loop_cons)
  then show ?case using s1 s' by (auto intro!: exI [of _ s'])
qed

end

lemma byte_mask_bit: "k < 8 \<Longrightarrow> ((b :: byte) AND 2 ^ k \<noteq> 0) = bit b k"
  by (simp add: and_exp_eq_0_iff_not_bit)

lemma bit_or_mask: "k < 8 \<Longrightarrow> j < 8 \<Longrightarrow> bit ((b :: byte) OR 2 ^ k) j = (j = k \<or> bit b j)"
  by (auto simp: bit_or_iff bit_exp_iff)

lemma bit_and_not_mask:
  "k < 8 \<Longrightarrow> j < 8 \<Longrightarrow> bit ((b :: byte) AND NOT (2 ^ k)) j = (j \<noteq> k \<and> bit b j)"
  by (auto simp: bit_and_iff bit_not_iff bit_exp_iff)

lemma bv_index_in_range:
  "bv_ok m bv \<Longrightarrow> i < bv_len bv \<Longrightarrow> unat i div 8 < length (bv_data bv)"
  by (simp add: bv_ok_def bv_data_len_def word_less_nat_alt)

lemma bv_get_bit:
  "bv_get bv i = (if i < bv_len bv then Some (bit (bv_data bv ! (unat i div 8)) (unat i mod 8)) else None)"
  by (simp add: bv_get_def byte_mask_bit)

lemma bv_set_get:
  assumes "bv_ok m bv" and "i < bv_len bv"
  shows "\<exists>bv'. bv_set bv i v = Inr bv' \<and> bv_ok m bv' \<and> bv_len bv' = bv_len bv \<and>
    (\<forall>j. bv_get bv' j = (if j = i then Some v else bv_get bv j))"
proof -
  let ?i = "unat i div 8" and ?k = "unat i mod 8"
  let ?b = "bv_data bv ! ?i"
  let ?b' = "if v then ?b OR push_bit ?k 1 else ?b AND NOT (push_bit ?k 1)"
  let ?bv' = "bv\<lparr>bv_data := (bv_data bv)[?i := ?b']\<rparr>"
  have r: "bv_set bv i v = Inr ?bv'"
    using assms(2) by (simp add: bv_set_def Let_def not_le [symmetric])
  have in_range: "?i < length (bv_data bv)"
    using assms by (rule bv_index_in_range)
  have bit': "bit ?b' k = (if k = ?k then v else bit ?b k)" if "k < 8" for k
    using that by (auto simp: bit_or_mask bit_and_not_mask)
  have "bv_get ?bv' j = (if j = i then Some v else bv_get bv j)" for j
  proof (cases "j < bv_len bv")
    case True
    have same: "unat j div 8 = ?i \<and> unat j mod 8 = ?k \<longleftrightarrow> j = i"
      by (metis div_mult_mod_eq word_unat_eq_iff)
    show ?thesis
    proof (cases "unat j div 8 = ?i")
      case div: True
      with same have "unat j mod 8 = ?k \<longleftrightarrow> j = i" by blast
      with True div in_range show ?thesis
        by (simp add: bv_get_bit bit')
    next
      case False
      with same have "j \<noteq> i" by blast
      with True False show ?thesis by (simp add: bv_get_bit)
    qed
  qed (use assms(2) in \<open>auto simp: bv_get_bit\<close>)
  then show ?thesis
    using r assms(1) by (auto simp: bv_ok_def)
qed

interpretation bits: bit_store bv_get bv_set "\<lambda>bv i. i < bv_len bv" "bv_ok m" for m
  by unfold_locales (use bv_set_get in \<open>fastforce\<close>)

lemma bv_zeros_ok:
  "0 < len \<Longrightarrow> len \<le> m \<Longrightarrow>
    bv_zeros m len = Inr \<lparr>bv_data = replicate (bv_data_len len) 0, bv_len = len\<rparr>"
  by (auto simp: bv_zeros_def bv_new_def)

lemma bv_zeros_inv: "bv_zeros m len = Inr bv \<Longrightarrow> bv_ok m bv"
  by (auto simp: bv_zeros_def bv_new_def bv_ok_def not_le word_neq_0_conv split: if_splits)

lemma bv_ones_get:
  assumes "0 < len" and "len \<le> m"
  shows "\<exists>bv. bv_ones m len = Inr bv \<and> bv_ok m bv \<and> bv_len bv = len \<and>
    (\<forall>i < len. bv_get bv i = Some True)"
proof -
  let ?z = "\<lparr>bv_data = replicate (bv_data_len len) 0, bv_len = len\<rparr>"
  let ?is = "map word_of_nat [0..<unat len] :: u16 list"
  have z: "bv_ok m ?z" using assms by (simp add: bv_ok_def)
  have mem: "i \<in> set ?is \<longleftrightarrow> i < len" for i
    by (auto simp: word_less_nat_alt unat_of_nat image_iff intro!: bexI [of _ "unat i"]
        dest: le_less_trans [OF mod_less_eq_dividend])
  have ones: "bv_ones m len = bv_set_all ?z ?is True"
    using assms by (auto simp: bv_ones_def bv_new_def)
  from bits.set_many [OF z, of ?is "\<lambda>s is. bv_set_all s is True" True] mem
  obtain bv where "bv_set_all ?z ?is True = Inr bv" "bv_ok m bv"
    "(\<lambda>i. i < bv_len bv) = (\<lambda>i. i < len)" "\<forall>j. bv_get bv j = (if j < len then Some True else bv_get ?z j)"
    by auto
  moreover from this(3) have "bv_len bv = len"
    by (metis linorder_neqE order_less_irrefl)
  ultimately show ?thesis using ones by simp
qed

lemma bv_data_len_less: "bv_data_len len < 2 ^ 32"
  using unat_bound [of len] by (simp add: bv_data_len_def)

lemma bv_wire_roundtrip:
  assumes "bv_ok m bv"
  shows "bv_from_wire_bytes m (bv_wire_bytes bv) = Inr bv"
proof -
  have len: "length (bv_data bv) = bv_data_len (bv_len bv)" "0 < bv_len bv" "bv_len bv \<le> m"
    using assms by (simp_all add: bv_ok_def)
  moreover have "unat (word_of_nat (bv_data_len (bv_len bv)) :: u32) = bv_data_len (bv_len bv)"
    using bv_data_len_less [of "bv_len bv"] by (simp add: unat_of_nat)
  ultimately show ?thesis
    by (simp add: bv_from_wire_bytes_def bv_wire_bytes_def Let_def bv_zeros_ok)
qed

lemma bv_from_wire_bytes_sound:
  assumes "bv_from_wire_bytes m bs = Inr bv"
  shows "bv_ok m bv \<and> bv_wire_bytes bv = bs"
proof -
  let ?len = "u16_from_be (take 2 bs)"
  let ?n = "u32_from_be (drop 2 (take 6 bs))"
  from assms have l6: "6 \<le> length bs" and n: "unat ?n = length (drop 6 bs)"
    and dl: "length (drop 6 bs) = bv_data_len ?len"
    by (auto simp: bv_from_wire_bytes_def Let_def min_def split: if_splits)
  from assms l6 n dl obtain z where z: "bv_zeros m ?len = Inr z" and bv: "bv = z\<lparr>bv_data := drop 6 bs\<rparr>"
    by (auto simp: bv_from_wire_bytes_def Let_def bind_e_Inr_iff min_def)
  from z have "bv_len z = ?len" "bv_ok m z"
    by (auto simp: bv_zeros_inv) (auto simp: bv_zeros_def bv_new_def split: if_splits)
  then have ok: "bv_ok m bv" and len: "bv_len bv = ?len"
    using bv dl by (simp_all add: bv_ok_def)
  have "u32_to_be (word_of_nat (length (drop 6 bs))) = drop 2 (take 6 bs)"
    using l6 n [symmetric] by (simp add: u32_to_from_be)
  moreover have "u16_to_be ?len = take 2 bs"
    using l6 by (simp add: u16_to_from_be)
  moreover have "take 2 bs @ drop 2 (take 6 bs) @ drop 6 bs = bs"
  proof -
    have "take 2 bs @ drop 2 (take 6 bs) = take 6 bs"
      using append_take_drop_id [of 2 "take 6 bs"] by simp
    then show ?thesis
      by (simp flip: append_assoc)
  qed
  ultimately show ?thesis
    using ok len bv by (simp add: bv_wire_bytes_def)
qed

section \<open>Bit vectors as specified\<close>

text \<open>C38: the wire form of a bit vector is unambiguous. \<open>from_wire_bytes\<close> accepts exactly the wire forms of
  the bit vectors within the size bound, and returns the vector that was written.\<close>

theorem bit_vec_wire_iff: "bv_from_wire_bytes m bs = Inr bv \<longleftrightarrow> bv_ok m bv \<and> bs = bv_wire_bytes bv"
  using bv_wire_roundtrip bv_from_wire_bytes_sound by blast

text \<open>\<open>ones\<close> gives a well-formed vector of the requested length with every bit set, and any later write
  at a valid index changes that bit and no other.\<close>

theorem bit_vec_ones_then_set:
  assumes "0 < len" and "len \<le> m" and "i < len"
  shows "\<exists>bv bv'. bv_ones m len = Inr bv \<and> bv_set bv i v = Inr bv' \<and> bv_ok m bv' \<and> bv_len bv' = len \<and>
    (\<forall>j. bv_get bv' j = (if j = i then Some v else if j < len then Some True else None))"
proof -
  from bv_ones_get [OF assms(1,2)] obtain bv where bv: "bv_ones m len = Inr bv" "bv_ok m bv" "bv_len bv = len"
    "\<forall>i < len. bv_get bv i = Some True"
    by blast
  with bits.set_valid [of m bv i v] assms(3) obtain bv' where
    "bv_set bv i v = Inr bv'" "bv_ok m bv'" "(\<lambda>i. i < bv_len bv') = (\<lambda>i. i < bv_len bv)"
    "\<forall>j. bv_get bv' j = (if j = i then Some v else bv_get bv j)"
    by blast
  moreover from this bv have "bv_len bv' = len"
    by (metis linorder_neqE order_less_irrefl)
  ultimately show ?thesis using bv
    by (intro exI [of _ bv] exI [of _ bv']) (auto simp: bv_get_bit)
qed

theorem bit_vec_ones_then_set_witness:
  "\<exists>bv bv'. bv_ones 4000 9 = Inr bv \<and> bv_set bv 8 False = Inr bv' \<and> bv_ok 4000 bv' \<and> bv_get bv' 8 = Some False \<and>
    bv_get bv' 7 = Some True"
proof -
  have "(0 :: u16) < 9" "(9 :: u16) \<le> 4000" "(8 :: u16) < 9" by simp_all
  from bit_vec_ones_then_set [OF this, of False] obtain bv bv' where
    "bv_ones 4000 9 = Inr bv" "bv_set bv 8 False = Inr bv'" "bv_ok 4000 bv'"
    "\<forall>j. bv_get bv' j = (if j = 8 then Some False else if j < 9 then Some True else None)"
    by blast
  moreover from this have "bv_get bv' 8 = Some False" "bv_get bv' 7 = Some True" by simp_all
  ultimately show ?thesis by blast
qed

end
