(* ===== verification/Address.thy ===== *)
theory Address
  imports Primitives
begin

text \<open>
  The crate \<open>nano-address\<close>: Stacks addresses, their Bitcoin base58 and c32 spellings, and the PoX
  reward addresses recovered from and written to Bitcoin output scripts. The base58check and c32
  codecs and the Bitcoin address type are third-party crates and enter as parameters.
\<close>

section \<open>Stacks addresses\<close>

datatype address_error =
    InvalidVersion
  | InvalidC32
  | InvalidBase58
  | InvalidBitcoinAddress

record stacks_address =
  sa_version :: byte
  sa_hash160 :: bytes

definition stacks_address_new :: "byte \<Rightarrow> bytes \<Rightarrow> address_error + stacks_address" where
  "stacks_address_new version hash160 =
     (if version > 31 then Inl InvalidVersion
      else Inr \<lparr>sa_version = version, sa_hash160 = hash160\<rparr>)"

definition single_signature :: "bytes \<Rightarrow> bool \<Rightarrow> stacks_address" where
  "single_signature hash160 mainnet =
     \<lparr>sa_version = (if mainnet then 22 else 26), sa_hash160 = hash160\<rparr>"

definition sa_is_mainnet :: "stacks_address \<Rightarrow> bool" where
  "sa_is_mainnet a = (sa_version a \<in> {20, 22})"

definition sa_is_burn :: "stacks_address \<Rightarrow> bool" where
  "sa_is_burn a = list_all (\<lambda>b. b = 0) (sa_hash160 a)"

text \<open>\<open>base58_decode\<close> is \<open>bs58::decode(..).with_check(None).into_vec()\<close>, \<open>None\<close> being its error.\<close>

definition from_bitcoin_base58 ::
  "(string \<Rightarrow> bytes option) \<Rightarrow> string \<Rightarrow> address_error + stacks_address" where
  "from_bitcoin_base58 base58_decode address =
     (case base58_decode address of
        None \<Rightarrow> Inl InvalidBase58
      | Some [] \<Rightarrow> Inl InvalidBase58
      | Some (version # hash160) \<Rightarrow>
          if length hash160 \<noteq> 20 then Inl InvalidBase58
          else if version = 0 then stacks_address_new 22 hash160
          else if version = 5 then stacks_address_new 20 hash160
          else if version = 111 then stacks_address_new 26 hash160
          else if version = 196 then stacks_address_new 21 hash160
          else Inl InvalidBase58)"

definition base58_version :: "byte \<Rightarrow> byte" where
  "base58_version v = (if v = 22 then 0 else if v = 20 then 5 else if v = 26 then 111
                       else if v = 21 then 196 else v)"

definition to_bitcoin_base58 :: "(bytes \<Rightarrow> string) \<Rightarrow> stacks_address \<Rightarrow> string" where
  "to_bitcoin_base58 base58_encode a = base58_encode (base58_version (sa_version a) # sa_hash160 a)"

text \<open>\<open>Display\<close> and \<open>FromStr\<close>; the c32 crate's checked codec with the prefix \<open>S\<close> is the parameter.\<close>

definition sa_to_string :: "(bytes \<Rightarrow> byte \<Rightarrow> string option) \<Rightarrow> stacks_address \<Rightarrow> string option" where
  "sa_to_string c32_encode a = c32_encode (sa_hash160 a) (sa_version a)"

definition sa_from_str ::
  "(string \<Rightarrow> (bytes \<times> byte) option) \<Rightarrow> string \<Rightarrow> address_error + stacks_address" where
  "sa_from_str c32_decode address =
     (case c32_decode address of
        None \<Rightarrow> Inl InvalidC32
      | Some (bs, version) \<Rightarrow>
          if length bs \<noteq> 20 then Inl InvalidC32 else stacks_address_new version bs)"

text \<open>The invariant of the type: a protocol version and a 20-byte hash.\<close>

definition sa_ok :: "stacks_address \<Rightarrow> bool" where
  "sa_ok a \<longleftrightarrow> sa_version a \<le> 31 \<and> length (sa_hash160 a) = 20"

lemma stacks_address_new_ok:
  "stacks_address_new v h = Inr a \<Longrightarrow> length h = 20 \<Longrightarrow> sa_ok a"
  by (auto simp: stacks_address_new_def sa_ok_def not_less split: if_splits)

lemma stacks_address_new_eq:
  "v \<le> 31 \<Longrightarrow> stacks_address_new v h = Inr \<lparr>sa_version = v, sa_hash160 = h\<rparr>"
  by (simp add: stacks_address_new_def not_less)

lemma stacks_address_new_Inr_iff:
  "stacks_address_new v h = Inr a \<longleftrightarrow> v \<le> 31 \<and> a = \<lparr>sa_version = v, sa_hash160 = h\<rparr>"
  by (auto simp: stacks_address_new_def not_less)

lemma from_bitcoin_base58_ok: "from_bitcoin_base58 d s = Inr a \<Longrightarrow> sa_ok a"
  by (auto simp: from_bitcoin_base58_def stacks_address_new_def sa_ok_def
      split: option.splits list.splits if_splits)

lemma sa_from_str_ok: "sa_from_str d s = Inr a \<Longrightarrow> sa_ok a"
  by (auto simp: sa_from_str_def split: option.splits if_splits dest: stacks_address_new_ok)

section \<open>PoX addresses and Bitcoin scripts\<close>

datatype address_hash_mode = AhmP2pkh | AhmP2sh | AhmP2wpkh | AhmP2wsh

definition mainnet_version :: "address_hash_mode \<Rightarrow> byte" where
  "mainnet_version m = (case m of AhmP2pkh \<Rightarrow> 22 | _ \<Rightarrow> 20)"

definition testnet_version :: "address_hash_mode \<Rightarrow> byte" where
  "testnet_version m = (case m of AhmP2pkh \<Rightarrow> 26 | _ \<Rightarrow> 21)"

datatype pox_address_type20 = Pox20P2wpkh

datatype pox_address_type32 = Pox32P2wsh | Pox32P2tr

datatype pox_address =
    PoxStandard stacks_address "address_hash_mode option"
  | PoxAddr20 bool pox_address_type20 bytes
  | PoxAddr32 bool pox_address_type32 bytes

definition as_stacks_address :: "pox_address \<Rightarrow> stacks_address option" where
  "as_stacks_address p = (case p of PoxStandard a _ \<Rightarrow> Some a | _ \<Rightarrow> None)"

definition standard_pox :: "byte \<Rightarrow> address_hash_mode \<Rightarrow> bytes \<Rightarrow> address_error + pox_address" where
  "standard_pox version mode bs =
     bind_e (stacks_address_new version bs) (\<lambda>a. Inr (PoxStandard a (Some mode)))"

definition from_script_pubkey :: "bytes \<Rightarrow> bool \<Rightarrow> address_error + pox_address" where
  "from_script_pubkey script mainnet =
     (if length script = 25 \<and> take 3 script = [0x76, 0xa9, 0x14] \<and> drop 23 script = [0x88, 0xac]
      then standard_pox (if mainnet then 22 else 26) AhmP2pkh (take 20 (drop 3 script))
      else if length script = 23 \<and> take 2 script = [0xa9, 0x14] \<and> drop 22 script = [0x87]
      then standard_pox (if mainnet then 20 else 21) AhmP2sh (take 20 (drop 2 script))
      else if length script = 22 \<and> take 2 script = [0x00, 0x14]
      then Inr (PoxAddr20 mainnet Pox20P2wpkh (drop 2 script))
      else if length script = 34 \<and> take 2 script = [0x00, 0x20]
      then Inr (PoxAddr32 mainnet Pox32P2wsh (drop 2 script))
      else if length script = 34 \<and> take 2 script = [0x51, 0x20]
      then Inr (PoxAddr32 mainnet Pox32P2tr (drop 2 script))
      else Inl InvalidBitcoinAddress)"

definition pox_bytes :: "pox_address \<Rightarrow> bytes" where
  "pox_bytes p = (case p of PoxStandard a _ \<Rightarrow> sa_hash160 a
                  | PoxAddr20 _ _ bs \<Rightarrow> bs | PoxAddr32 _ _ bs \<Rightarrow> bs)"

definition script_pubkey :: "pox_address \<Rightarrow> bytes" where
  "script_pubkey p =
     (case p of
        PoxStandard a _ \<Rightarrow>
          if sa_version a \<in> {22, 26} then [0x76, 0xa9, 0x14] @ pox_bytes p @ [0x88, 0xac]
          else [0xa9, 0x14] @ pox_bytes p @ [0x87]
      | PoxAddr20 _ _ _ \<Rightarrow> [0x00, 0x14] @ pox_bytes p
      | PoxAddr32 _ Pox32P2wsh _ \<Rightarrow> [0x00, 0x20] @ pox_bytes p
      | PoxAddr32 _ Pox32P2tr _ \<Rightarrow> [0x51, 0x20] @ pox_bytes p)"

datatype bitcoin_network = NetBitcoin | NetTestnet

definition pox_network :: "pox_address \<Rightarrow> bitcoin_network" where
  "pox_network p =
     (case p of
        PoxStandard a _ \<Rightarrow> if sa_is_mainnet a then NetBitcoin else NetTestnet
      | PoxAddr20 mainnet _ _ \<Rightarrow> if mainnet then NetBitcoin else NetTestnet
      | PoxAddr32 mainnet _ _ \<Rightarrow> if mainnet then NetBitcoin else NetTestnet)"

text \<open>\<open>from_script\<close> is the Bitcoin crate's \<open>Address::from_script\<close>.\<close>

definition bitcoin_address ::
  "(bytes \<Rightarrow> bitcoin_network \<Rightarrow> 'a option) \<Rightarrow> pox_address \<Rightarrow> address_error + 'a" where
  "bitcoin_address from_script p =
     (case from_script (script_pubkey p) (pox_network p) of
        None \<Rightarrow> Inl InvalidBitcoinAddress | Some a \<Rightarrow> Inr a)"

text \<open>
  The PoX addresses the chain can pay on one network: what \<open>from_script_pubkey\<close> can return.
\<close>

definition pox_ok :: "bool \<Rightarrow> pox_address \<Rightarrow> bool" where
  "pox_ok mainnet p =
     (case p of
        PoxStandard a m \<Rightarrow> length (sa_hash160 a) = 20 \<and>
          (m = Some AhmP2pkh \<and> sa_version a = (if mainnet then 22 else 26) \<or>
           m = Some AhmP2sh \<and> sa_version a = (if mainnet then 20 else 21))
      | PoxAddr20 n _ bs \<Rightarrow> n = mainnet \<and> length bs = 20
      | PoxAddr32 n _ bs \<Rightarrow> n = mainnet \<and> length bs = 32)"

lemma split_script:
  assumes "take n s = x" and "n + m \<le> length s"
  shows "s = x @ take m (drop n s) @ drop (n + m) s"
  using assms by (metis append_take_drop_id drop_drop add.commute)

lemma from_script_pubkey_sound:
  assumes "from_script_pubkey s mainnet = Inr p"
  shows "pox_ok mainnet p \<and> script_pubkey p = s"
proof -
  consider (p2pkh) "length s = 25" "take 3 s = [0x76, 0xa9, 0x14]" "drop 23 s = [0x88, 0xac]"
      "p = PoxStandard \<lparr>sa_version = (if mainnet then 22 else 26), sa_hash160 = take 20 (drop 3 s)\<rparr>
             (Some AhmP2pkh)"
    | (p2sh) "length s = 23" "take 2 s = [0xa9, 0x14]" "drop 22 s = [0x87]"
      "p = PoxStandard \<lparr>sa_version = (if mainnet then 20 else 21), sa_hash160 = take 20 (drop 2 s)\<rparr>
             (Some AhmP2sh)"
    | (p2wpkh) "length s = 22" "take 2 s = [0x00, 0x14]" "p = PoxAddr20 mainnet Pox20P2wpkh (drop 2 s)"
    | (p2wsh) "length s = 34" "take 2 s = [0x00, 0x20]" "p = PoxAddr32 mainnet Pox32P2wsh (drop 2 s)"
    | (p2tr) "length s = 34" "take 2 s = [0x51, 0x20]" "p = PoxAddr32 mainnet Pox32P2tr (drop 2 s)"
    using assms unfolding from_script_pubkey_def standard_pox_def bind_e_Inr_iff
    by (auto simp: stacks_address_new_def bind_e_def split: if_splits)
  then show ?thesis
  proof cases
    case p2pkh
    then show ?thesis
      using split_script [of 3 s "[0x76, 0xa9, 0x14]" 20]
      by (auto simp: pox_ok_def script_pubkey_def pox_bytes_def)
  next
    case p2sh
    then show ?thesis
      using split_script [of 2 s "[0xa9, 0x14]" 20]
      by (auto simp: pox_ok_def script_pubkey_def pox_bytes_def)
  next
    case p2wpkh
    then show ?thesis using append_take_drop_id [of 2 s]
      by (simp add: pox_ok_def script_pubkey_def pox_bytes_def)
  next
    case p2wsh
    then show ?thesis using append_take_drop_id [of 2 s]
      by (simp add: pox_ok_def script_pubkey_def pox_bytes_def)
  next
    case p2tr
    then show ?thesis using append_take_drop_id [of 2 s]
      by (simp add: pox_ok_def script_pubkey_def pox_bytes_def)
  qed
qed

lemma pox_type20_unique: "x = Pox20P2wpkh"
  by (cases x) simp

lemma from_script_pubkey_complete:
  "pox_ok mainnet p \<Longrightarrow> from_script_pubkey (script_pubkey p) mainnet = Inr p"
  by (cases p)
     (auto simp: pox_ok_def script_pubkey_def pox_bytes_def from_script_pubkey_def standard_pox_def
       stacks_address_new_def intro: pox_type20_unique [symmetric] split: if_splits pox_address_type32.splits)

section \<open>Addresses as specified\<close>

text \<open>C39: output scripts and proof-of-transfer addresses correspond one to one on each network:
  \<open>from_script_pubkey\<close> accepts exactly the scripts that \<open>script_pubkey\<close> writes for the addresses of that
  network, and returns the address.\<close>

theorem pox_script_iff:
  "from_script_pubkey s mainnet = Inr p \<longleftrightarrow> pox_ok mainnet p \<and> s = script_pubkey p"
  using from_script_pubkey_sound from_script_pubkey_complete by blast

text \<open>An address survives the Bitcoin base58 form exactly when its version is one of the four account
  versions. Any other version is written unchanged and is then rejected or read as another version.\<close>

theorem base58_roundtrip_iff:
  assumes "\<forall>bs. decode (encode bs) = Some bs" and "sa_ok a"
  shows "from_bitcoin_base58 decode (to_bitcoin_base58 encode a) = Inr a \<longleftrightarrow> sa_version a \<in> {20, 21, 22, 26}"
proof -
  have "a = \<lparr>sa_version = sa_version a, sa_hash160 = sa_hash160 a\<rparr>" by simp
  with assms show ?thesis
    by (auto simp: from_bitcoin_base58_def to_bitcoin_base58_def base58_version_def stacks_address_new_def sa_ok_def
        split: if_splits dest: arg_cong [where f = sa_version])
qed

text \<open>A concrete base58 codec with the required behaviour: one character per byte.\<close>

theorem base58_roundtrip_iff_witness:
  "from_bitcoin_base58 (\<lambda>s. Some (map (\<lambda>c. word_of_nat (of_char c)) s))
     (to_bitcoin_base58 (map (\<lambda>b. char_of (unat b))) \<lparr>sa_version = 22, sa_hash160 = replicate 20 7\<rparr>)
     = Inr \<lparr>sa_version = 22, sa_hash160 = replicate 20 7\<rparr>"
proof -
  have "word_of_nat (of_char (char_of (unat b) :: char)) = b" for b :: byte
    using unat_bound [of b] by (simp add: of_char_of)
  then have "\<forall>bs :: bytes. Some (map (\<lambda>c. word_of_nat (of_char c)) (map (\<lambda>b. char_of (unat b) :: char) bs)) = Some bs"
    by (simp add: comp_def)
  from base58_roundtrip_iff [OF this, of "\<lparr>sa_version = 22, sa_hash160 = replicate 20 7\<rparr>"]
  show ?thesis by (simp add: sa_ok_def)
qed

end
