(* ===== verification/Wire.thy ===== *)
theory Wire
  imports Address
begin

text \<open>
  The private \<open>Reader\<close> and \<open>Writer\<close> of the crate \<open>nano-codec\<close>, and the decoders and encoders of the
  small pieces a transaction is made of: integers, hashes, signatures, addresses, Clarity names and
  Stacks strings. Each pair is shown to satisfy the contract \<open>wire_codec\<close>. A \<open>Writer\<close> only appends
  to its buffer, so an encoder is the function giving the bytes it appends.
\<close>

section \<open>Errors\<close>

datatype codec_error =
    EndOfInput
  | InvalidAuth
  | InvalidCondition
  | InvalidField
  | InvalidKey
  | InvalidLength
  | InvalidTransaction
  | InvalidPayload
  | InvalidPostCondition
  | InvalidPrincipal
  | InvalidName
  | InvalidString
  | InvalidClarityValue

type_synonym 'a decoder = "(codec_error, 'a) rdr"

section \<open>Reader\<close>

definition rd_take :: "nat \<Rightarrow> bytes decoder" where
  "rd_take = take_r InvalidLength EndOfInput"

definition rd_byte :: "byte decoder" where
  "rd_byte = byte_r rd_take"

definition rd_u16 :: "u16 decoder" where
  "rd_u16 = u16_r rd_take"

definition rd_u32 :: "u32 decoder" where
  "rd_u32 = u32_r rd_take"

definition rd_u64 :: "u64 decoder" where
  "rd_u64 = u64_r rd_take"

definition rd_hash160 :: "bytes decoder" where
  "rd_hash160 = rd_take 20"

definition rd_signature :: "bytes decoder" where
  "rd_signature = rd_take 65"

section \<open>Writer\<close>

definition w_byte :: "byte \<Rightarrow> bytes" where
  "w_byte b = [b]"

text \<open>\<open>u8::try_from(value.len())\<close> and \<open>u32::try_from(value.len())\<close> panic past their ranges; names and
  strings in range are what the decoders produce.\<close>

definition w_name :: "rust_str \<Rightarrow> bytes" where
  "w_name s = word_of_nat (length s) # s"

definition w_stacks_string :: "rust_str \<Rightarrow> bytes" where
  "w_stacks_string s = u32_to_be (word_of_nat (length s)) @ s"

definition w_address :: "stacks_address \<Rightarrow> bytes" where
  "w_address a = sa_version a # sa_hash160 a"

section \<open>Addresses, names and strings\<close>

definition read_address :: "stacks_address decoder" where
  "read_address = bind_r (rd_take 21) (\<lambda>bs.
     lift_r (case stacks_address_new (hd bs) (tl bs) of
               Inl _ \<Rightarrow> Inl InvalidPrincipal | Inr a \<Rightarrow> Inr a))"

definition read_consensus_hash :: "bytes decoder" where
  "read_consensus_hash = rd_take 20"

definition read_block_id :: "bytes decoder" where
  "read_block_id = rd_take 32"

definition is_ascii :: "byte \<Rightarrow> bool" where
  "is_ascii b = (b \<le> 127)"

definition is_ascii_alphabetic :: "byte \<Rightarrow> bool" where
  "is_ascii_alphabetic b = ((65 \<le> b \<and> b \<le> 90) \<or> (97 \<le> b \<and> b \<le> 122))"

definition is_ascii_digit :: "byte \<Rightarrow> bool" where
  "is_ascii_digit b = (48 \<le> b \<and> b \<le> 57)"

definition is_ascii_alphanumeric :: "byte \<Rightarrow> bool" where
  "is_ascii_alphanumeric b = (is_ascii_alphabetic b \<or> is_ascii_digit b)"

definition is_ascii_graphic :: "byte \<Rightarrow> bool" where
  "is_ascii_graphic b = (33 \<le> b \<and> b \<le> 126)"

definition read_name :: "nat \<Rightarrow> rust_str decoder" where
  "read_name maximum = bind_r rd_byte (\<lambda>len.
     bind_r (check_r (\<lambda>_. unat len \<noteq> 0 \<and> unat len \<le> maximum) InvalidName) (\<lambda>_.
     bind_r (rd_take (unat len)) (\<lambda>bs.
     bind_r (check_r (\<lambda>_. list_all is_ascii bs) InvalidName) (\<lambda>_. ret_r bs))))"

text \<open>\<open>name.strip_prefix(is_ascii_alphabetic).is_some_and(|rest| rest.chars().all(p))\<close>\<close>

definition letter_then :: "(byte \<Rightarrow> bool) \<Rightarrow> rust_str \<Rightarrow> bool" where
  "letter_then p name = (case name of [] \<Rightarrow> False | c # rest \<Rightarrow> is_ascii_alphabetic c \<and> list_all p rest)"

definition transient_name :: rust_str where
  "transient_name = str_lit ''__transient''"

definition contract_name_grammar :: "rust_str \<Rightarrow> bool" where
  "contract_name_grammar name = (name = transient_name \<or>
     letter_then (\<lambda>c. is_ascii_alphanumeric c \<or> c \<in> set (str_lit ''-_'')) name)"

definition clarity_name_grammar :: "rust_str \<Rightarrow> bool" where
  "clarity_name_grammar name =
     (name \<in> set (map str_lit [''-'', ''+'', ''='', ''/'', ''*'', ''<'', ''>'', ''<='', ''>='']) \<or>
      letter_then (\<lambda>c. is_ascii_alphanumeric c \<or> c \<in> set (str_lit ''-_!?+<>=/*'')) name)"

definition read_contract_name :: "nat \<Rightarrow> rust_str decoder" where
  "read_contract_name maximum = bind_r (read_name maximum) (\<lambda>name.
     bind_r (check_r (\<lambda>_. contract_name_grammar name) InvalidName) (\<lambda>_. ret_r name))"

definition read_clarity_name :: "rust_str decoder" where
  "read_clarity_name = bind_r (read_name 128) (\<lambda>name.
     bind_r (check_r (\<lambda>_. clarity_name_grammar name) InvalidName) (\<lambda>_. ret_r name))"

definition stacks_string_char :: "byte \<Rightarrow> bool" where
  "stacks_string_char b = (is_ascii_graphic b \<or> b \<in> {0x20, 0x09, 0x0a})"

definition read_stacks_string :: "rust_str decoder" where
  "read_stacks_string = bind_r rd_u32 (\<lambda>len.
     bind_r (rd_take (unat len)) (\<lambda>bs.
     bind_r (check_r (\<lambda>_. list_all stacks_string_char bs) InvalidString) (\<lambda>_. ret_r bs)))"

text \<open>What the decoders guarantee of the strings they return.\<close>

definition name_ok :: "nat \<Rightarrow> rust_str \<Rightarrow> bool" where
  "name_ok maximum s \<longleftrightarrow> s \<noteq> [] \<and> length s \<le> maximum \<and> length s \<le> 255 \<and> list_all is_ascii s"

definition contract_name_ok :: "nat \<Rightarrow> rust_str \<Rightarrow> bool" where
  "contract_name_ok maximum s \<longleftrightarrow> name_ok maximum s \<and> contract_name_grammar s"

definition clarity_name_ok :: "rust_str \<Rightarrow> bool" where
  "clarity_name_ok s \<longleftrightarrow> name_ok 128 s \<and> clarity_name_grammar s"

definition stacks_string_ok :: "rust_str \<Rightarrow> bool" where
  "stacks_string_ok s \<longleftrightarrow> length s < 2 ^ 32 \<and> list_all stacks_string_char s"

section \<open>The contract, piece by piece\<close>

interpretation codec_slices: slice_reader rd_take
  unfolding rd_take_def by (rule slices.slice_reader_axioms)

lemmas rd_take_append = codec_slices.slice_append
lemmas rd_takeE = codec_slices.sliceE

lemma rd_take_eof:
  "length suf < n \<Longrightarrow> length pre + n \<le> usize_max \<Longrightarrow> rd_take n (At pre suf) = Inl EndOfInput"
  by (simp add: rd_take_def take_r_def At_def Let_def)

interpretation array: wire_codec "rd_take n" "\<lambda>x. x" "\<lambda>x. length x = n" for n
  by (rule codec_slices.array_codec)

interpretation byte: wire_codec rd_byte w_byte "\<lambda>_. True"
  unfolding rd_byte_def w_byte_def [abs_def] by (rule codec_slices.byte_codec)

lemma rd_byte_Cons [simp]:
  "length pre + length t < usize_max \<Longrightarrow> rd_byte (At pre (b # t)) = Inr (b, At (pre @ [b]) t)"
  using byte.dec_enc_len [where a = b and pre = pre and t = t] by (simp add: w_byte_def)

lemma rd_byteE:
  assumes "rd_byte (At pre suf) = Inr (b, r')"
  obtains t where "suf = b # t" and "r' = At (pre @ [b]) t"
  using assms that by (auto simp: w_byte_def elim: byte.enc_decE)

interpretation u16: wire_codec rd_u16 u16_to_be "\<lambda>_. True"
  unfolding rd_u16_def by (rule codec_slices.u16_codec)

interpretation u32: wire_codec rd_u32 u32_to_be "\<lambda>_. True"
  unfolding rd_u32_def by (rule codec_slices.u32_codec)

interpretation u64: wire_codec rd_u64 u64_to_be "\<lambda>_. True"
  unfolding rd_u64_def by (rule codec_slices.u64_codec)

interpretation hash160: wire_codec rd_hash160 "\<lambda>x. x" "\<lambda>x. length x = 20"
  unfolding rd_hash160_def by (rule array.wire_codec_axioms)

interpretation signature: wire_codec rd_signature "\<lambda>x. x" "\<lambda>x. length x = 65"
  unfolding rd_signature_def by (rule array.wire_codec_axioms)

interpretation consensus_hash: wire_codec read_consensus_hash "\<lambda>x. x" "\<lambda>x. length x = 20"
  unfolding read_consensus_hash_def by (rule array.wire_codec_axioms)

interpretation block_id: wire_codec read_block_id "\<lambda>x. x" "\<lambda>x. length x = 32"
  unfolding read_block_id_def by (rule array.wire_codec_axioms)

lemma length_w_address: "sa_ok a \<Longrightarrow> length (w_address a) = 21"
  by (simp add: w_address_def sa_ok_def)

interpretation address: wire_codec read_address w_address sa_ok
proof
  fix a pre t
  assume "sa_ok a" "fits pre (w_address a @ t)"
  then show "read_address (At pre (w_address a @ t)) = Inr (a, At (pre @ w_address a) t)"
    using rd_take_append [of "w_address a" 21 pre t]
    by (simp add: read_address_def fits_def length_w_address)
       (simp add: w_address_def sa_ok_def stacks_address_new_eq)
next
  fix pre suf a r'
  assume "read_address (At pre suf) = Inr (a, r')"
  then obtain bs where bs: "rd_take 21 (At pre suf) = Inr (bs, r')"
    and new: "stacks_address_new (hd bs) (tl bs) = Inr a"
    by (auto simp: read_address_def split: sum.splits)
  from bs obtain t where t: "suf = bs @ t" "r' = At (pre @ bs) t" "length bs = 21"
    by (rule rd_takeE)
  then have "bs = w_address a" "sa_ok a"
    using new by (auto simp: stacks_address_new_Inr_iff w_address_def sa_ok_def length_Suc_conv
        numeral_eq_Suc)
  with t show "sa_ok a \<and> (\<exists>t. suf = w_address a @ t \<and> r' = At (pre @ w_address a) t)"
    by blast
qed

lemma unat_of_length_byte: "length s \<le> 255 \<Longrightarrow> unat (word_of_nat (length s) :: byte) = length s"
  by (simp add: unat_of_nat)

lemma unat_of_length_u32: "length s < 2 ^ 32 \<Longrightarrow> unat (word_of_nat (length s) :: u32) = length s"
  by (simp add: unat_of_nat)

interpretation name: wire_codec "read_name m" w_name "name_ok m" for m
proof
  fix a pre t
  assume a: "name_ok m a" and "fits pre (w_name a @ t)"
  then show "read_name m (At pre (w_name a @ t)) = Inr (a, At (pre @ w_name a) t)"
    by (simp add: read_name_def w_name_def fits_def name_ok_def unat_of_length_byte rd_take_append)
next
  fix pre suf a r'
  assume "read_name m (At pre suf) = Inr (a, r')"
  then show "name_ok m a \<and> (\<exists>t. suf = w_name a @ t \<and> r' = At (pre @ w_name a) t)"
    by (auto simp: read_name_def w_name_def name_ok_def less_Suc_eq_le [symmetric] elim!: rd_byteE rd_takeE)
qed

interpretation contract_name: wire_codec "read_contract_name m" w_name "contract_name_ok m" for m
  by unfold_locales
     (auto simp: read_contract_name_def contract_name_ok_def name.dec_enc elim!: name.enc_decE)

interpretation clarity_name: wire_codec read_clarity_name w_name clarity_name_ok
  by unfold_locales
     (auto simp: read_clarity_name_def clarity_name_ok_def name.dec_enc elim!: name.enc_decE)

interpretation stacks_string: wire_codec read_stacks_string w_stacks_string stacks_string_ok
proof
  fix a pre t
  assume "stacks_string_ok a" and "fits pre (w_stacks_string a @ t)"
  then show "read_stacks_string (At pre (w_stacks_string a @ t)) = Inr (a, At (pre @ w_stacks_string a) t)"
    by (simp add: read_stacks_string_def w_stacks_string_def fits_def stacks_string_ok_def
        u32.dec_enc_len unat_of_length_u32 rd_take_append)
next
  fix pre suf a r'
  assume "read_stacks_string (At pre suf) = Inr (a, r')"
  then obtain n t where n: "suf = u32_to_be n @ a @ t" "length a = unat n"
    "r' = At (pre @ u32_to_be n @ a) t" "list_all stacks_string_char a"
    by (auto simp: read_stacks_string_def elim!: u32.enc_decE rd_takeE)
  then have "word_of_nat (length a) = n" "length a < 2 ^ 32"
    using unat_bound [of n] by simp_all
  with n show "stacks_string_ok a \<and>
      (\<exists>t. suf = w_stacks_string a @ t \<and> r' = At (pre @ w_stacks_string a) t)"
    by (auto simp: w_stacks_string_def stacks_string_ok_def)
qed

end
