(* ===== verification/Clarity_Value.thy ===== *)
theory Clarity_Value
  imports Wire
begin

text \<open>
  The structural scanner for serialized Clarity values (\<open>scan_clarity_value\<close> of \<open>nano-codec\<close>). The
  codec keeps a value as the bytes it occupies; the scanner decides how many bytes that is. The
  abstract syntax \<open>cv\<close> with its encoding \<open>cv_encode\<close> and its limits \<open>cv_ok\<close> is the specification:
  the scanner accepts exactly the encodings of values within the limits.
\<close>

section \<open>The scanner\<close>

definition max_value_size :: nat where
  "max_value_size = 1024 * 1024"

function (sequential) scan_clarity_value :: "nat \<Rightarrow> unit decoder" where
  "scan_clarity_value depth r =
     (if depth > 32 then Inl InvalidClarityValue
      else bind_r rd_byte (\<lambda>tag.
        if tag \<in> {0, 1} then bind_r (rd_take 16) (\<lambda>_. ret_r ())
        else if tag \<in> {2, 13, 14} then bind_r rd_u32 (\<lambda>len.
          bind_r (check_r (\<lambda>_. unat len \<le> max_value_size) InvalidClarityValue) (\<lambda>_.
          bind_r (rd_take (unat len)) (\<lambda>_. ret_r ())))
        else if tag \<in> {3, 4, 9} then ret_r ()
        else if tag = 5 then bind_r read_address (\<lambda>_. ret_r ())
        else if tag = 6 then bind_r read_address (\<lambda>_.
          bind_r (read_contract_name 128) (\<lambda>_. ret_r ()))
        else if tag \<in> {7, 8, 10} then scan_clarity_value (Suc depth)
        else if tag = 11 then bind_r rd_u32 (\<lambda>len.
          bind_r (check_r (\<lambda>_. unat len \<le> max_value_size) InvalidClarityValue) (\<lambda>_.
          bind_r (times_r (unat len) (scan_clarity_value (Suc depth))) (\<lambda>_. ret_r ())))
        else if tag = 12 then bind_r rd_u32 (\<lambda>len.
          bind_r (check_r (\<lambda>_. unat len \<le> max_value_size) InvalidClarityValue) (\<lambda>_.
          bind_r (times_r (unat len)
            (bind_r read_clarity_name (\<lambda>_. scan_clarity_value (Suc depth)))) (\<lambda>_. ret_r ())))
        else err_r InvalidClarityValue) r)"
  by pat_completeness auto
termination
  by (relation "measure (\<lambda>(depth, r). 33 - depth)") auto

declare scan_clarity_value.simps [simp del]

definition read_clarity_value :: "bytes decoder" where
  "read_clarity_value = bind_r (spanned_r (scan_clarity_value 0)) (\<lambda>(_, bs). ret_r bs)"

section \<open>Abstract values\<close>

datatype cv =
    CvInt bytes
  | CvUInt bytes
  | CvBuffer bytes
  | CvTrue
  | CvFalse
  | CvPrincipal stacks_address
  | CvContract stacks_address rust_str
  | CvOk cv
  | CvErr cv
  | CvNone
  | CvSome cv
  | CvList "cv list"
  | CvTuple "(rust_str \<times> cv) list"
  | CvAscii bytes
  | CvUtf8 bytes

fun cv_encode :: "cv \<Rightarrow> bytes" where
  "cv_encode (CvInt bs) = 0 # bs"
| "cv_encode (CvUInt bs) = 1 # bs"
| "cv_encode (CvBuffer bs) = 2 # w_stacks_string bs"
| "cv_encode CvTrue = [3]"
| "cv_encode CvFalse = [4]"
| "cv_encode (CvPrincipal a) = 5 # w_address a"
| "cv_encode (CvContract a n) = 6 # w_address a @ w_name n"
| "cv_encode (CvOk v) = 7 # cv_encode v"
| "cv_encode (CvErr v) = 8 # cv_encode v"
| "cv_encode CvNone = [9]"
| "cv_encode (CvSome v) = 10 # cv_encode v"
| "cv_encode (CvList vs) = 11 # u32_to_be (word_of_nat (length vs)) @ concat (map cv_encode vs)"
| "cv_encode (CvTuple fs) = 12 # u32_to_be (word_of_nat (length fs)) @
     concat (map (\<lambda>(n, v). w_name n @ cv_encode v) fs)"
| "cv_encode (CvAscii bs) = 13 # w_stacks_string bs"
| "cv_encode (CvUtf8 bs) = 14 # w_stacks_string bs"

text \<open>The limits a value at a given nesting depth must respect.\<close>

fun cv_ok :: "nat \<Rightarrow> cv \<Rightarrow> bool" where
  "cv_ok d (CvInt bs) = (d \<le> 32 \<and> length bs = 16)"
| "cv_ok d (CvUInt bs) = (d \<le> 32 \<and> length bs = 16)"
| "cv_ok d (CvBuffer bs) = (d \<le> 32 \<and> length bs \<le> max_value_size)"
| "cv_ok d CvTrue = (d \<le> 32)"
| "cv_ok d CvFalse = (d \<le> 32)"
| "cv_ok d (CvPrincipal a) = (d \<le> 32 \<and> sa_ok a)"
| "cv_ok d (CvContract a n) = (d \<le> 32 \<and> sa_ok a \<and> contract_name_ok 128 n)"
| "cv_ok d (CvOk v) = (d \<le> 32 \<and> cv_ok (Suc d) v)"
| "cv_ok d (CvErr v) = (d \<le> 32 \<and> cv_ok (Suc d) v)"
| "cv_ok d CvNone = (d \<le> 32)"
| "cv_ok d (CvSome v) = (d \<le> 32 \<and> cv_ok (Suc d) v)"
| "cv_ok d (CvList vs) = (d \<le> 32 \<and> length vs \<le> max_value_size \<and> (\<forall>v \<in> set vs. cv_ok (Suc d) v))"
| "cv_ok d (CvTuple fs) = (d \<le> 32 \<and> length fs \<le> max_value_size \<and>
     (\<forall>(n, v) \<in> set fs. clarity_name_ok n \<and> cv_ok (Suc d) v))"
| "cv_ok d (CvAscii bs) = (d \<le> 32 \<and> length bs \<le> max_value_size)"
| "cv_ok d (CvUtf8 bs) = (d \<le> 32 \<and> length bs \<le> max_value_size)"

definition clarity_value_ok :: "bytes \<Rightarrow> bool" where
  "clarity_value_ok bs \<longleftrightarrow> (\<exists>v. cv_ok 0 v \<and> bs = cv_encode v)"

section \<open>The scanner accepts every value within the limits\<close>

lemma max_value_size_less: "n \<le> max_value_size \<Longrightarrow> n < 4294967296"
  by (simp add: max_value_size_def)

lemma unat_u32_of_small: "n \<le> max_value_size \<Longrightarrow> unat (word_of_nat n :: u32) = n"
  by (simp add: unat_of_nat max_value_size_less)

lemma scan_accepts:
  "cv_ok d v \<Longrightarrow> length pre + length (cv_encode v) + length t \<le> usize_max \<Longrightarrow>
    scan_clarity_value d (At pre (cv_encode v @ t)) = Inr ((), At (pre @ cv_encode v) t)"
proof (induction v arbitrary: d pre t)
  case (CvList vs)
  have "times_r (length vs) (scan_clarity_value (Suc d)) (At p (concat (map cv_encode vs) @ t))
      = Inr (map (\<lambda>_. ()) vs, At (p @ concat (map cv_encode vs)) t)"
    if "length p + length (concat (map cv_encode vs)) + length t \<le> usize_max" for p
    using CvList.IH CvList.prems(1) that by (intro times_r_forward) auto
  then show ?case
    using CvList.prems
    by (subst scan_clarity_value.simps)
       (simp add: u32.dec_enc_len unat_u32_of_small)
next
  case (CvTuple fs)
  let ?e = "\<lambda>(n, v). w_name n @ cv_encode v"
  have "times_r (length fs) (bind_r read_clarity_name (\<lambda>_. scan_clarity_value (Suc d)))
        (At p (concat (map ?e fs) @ t))
      = Inr (map (\<lambda>_. ()) fs, At (p @ concat (map ?e fs)) t)"
    if "length p + length (concat (map ?e fs)) + length t \<le> usize_max" for p
    using CvTuple.IH CvTuple.prems(1) that
    by (intro times_r_forward) (fastforce simp: clarity_name.dec_enc_len)+
  then show ?case
    using CvTuple.prems
    by (subst scan_clarity_value.simps)
       (simp add: u32.dec_enc_len unat_u32_of_small)
qed (subst scan_clarity_value.simps;
     simp add: u32.dec_enc_len unat_u32_of_small rd_take_append address.dec_enc_len
       contract_name.dec_enc_len w_stacks_string_def)+

section \<open>The scanner accepts nothing else\<close>

definition scanned :: "nat \<Rightarrow> bytes \<Rightarrow> bytes \<Rightarrow> reader \<Rightarrow> bool" where
  "scanned d pre suf r' \<longleftrightarrow>
     (\<exists>v t. cv_ok d v \<and> suf = cv_encode v @ t \<and> r' = At (pre @ cv_encode v) t)"

lemma scannedI:
  "cv_ok d v \<Longrightarrow> suf = cv_encode v @ t \<Longrightarrow> r' = At (pre @ cv_encode v) t \<Longrightarrow> scanned d pre suf r'"
  by (auto simp: scanned_def)

lemma word_of_length_u32: "length xs = unat (n :: u32) \<Longrightarrow> word_of_nat (length xs) = n"
  by simp

lemma scan_list_body:
  assumes IH: "\<And>pre suf r'. scan_clarity_value d (At pre suf) = Inr ((), r') \<Longrightarrow> scanned d pre suf r'"
    and run: "times_r n (scan_clarity_value d) (At pre suf) = Inr (us, r')"
  shows "\<exists>vs t. length vs = n \<and> (\<forall>v \<in> set vs. cv_ok d v) \<and>
    suf = concat (map cv_encode vs) @ t \<and> r' = At (pre @ concat (map cv_encode vs)) t"
proof -
  have "\<exists>x t. cv_ok d x \<and> suf = cv_encode x @ t \<and> r' = At (pre @ cv_encode x) t"
    if "scan_clarity_value d (At pre suf) = Inr (u, r')" for pre suf u r'
    using IH [of pre suf r'] that by (auto simp: scanned_def)
  from times_r_backward_set [OF this run] show ?thesis .
qed

lemma scan_tuple_body:
  assumes IH: "\<And>pre suf r'. scan_clarity_value d (At pre suf) = Inr ((), r') \<Longrightarrow> scanned d pre suf r'"
    and run: "times_r n (bind_r read_clarity_name (\<lambda>_. scan_clarity_value d)) (At pre suf) = Inr (us, r')"
  shows "\<exists>fs t. length fs = n \<and> (\<forall>(n, v) \<in> set fs. clarity_name_ok n \<and> cv_ok d v) \<and>
    suf = concat (map (\<lambda>(n, v). w_name n @ cv_encode v) fs) @ t \<and>
    r' = At (pre @ concat (map (\<lambda>(n, v). w_name n @ cv_encode v) fs)) t"
proof -
  let ?P = "\<lambda>(n, v). clarity_name_ok n \<and> cv_ok d v"
  let ?e = "\<lambda>(n, v). w_name n @ cv_encode v"
  have "\<exists>x t. ?P x \<and> suf = ?e x @ t \<and> r' = At (pre @ ?e x) t"
    if "bind_r read_clarity_name (\<lambda>_. scan_clarity_value d) (At pre suf) = Inr (u, r')"
    for pre suf u r'
  proof -
    from that obtain n t where n: "suf = w_name n @ t" "clarity_name_ok n"
      and run: "scan_clarity_value d (At (pre @ w_name n) t) = Inr (u, r')"
      by (auto elim!: clarity_name.enc_decE)
    from run IH [of "pre @ w_name n" t r'] obtain v t' where
      "cv_ok d v" "t = cv_encode v @ t'" "r' = At ((pre @ w_name n) @ cv_encode v) t'"
      by (auto simp: scanned_def)
    with n show ?thesis by (intro exI [of _ "(n, v)"] exI [of _ t']) simp
  qed
  from times_r_backward_set [OF this run] show ?thesis .
qed

lemma scan_sound:
  "scan_clarity_value d (At pre suf) = Inr ((), r') \<Longrightarrow> scanned d pre suf r'"
proof (induction "33 - d" arbitrary: d pre suf r' rule: less_induct)
  case less
  note run = less.prems [unfolded scan_clarity_value.simps [of d]]
  from run have d: "d \<le> 32" by (auto split: if_splits)
  have IH: "scan_clarity_value (Suc d) (At pre suf) = Inr ((), r') \<Longrightarrow> scanned (Suc d) pre suf r'"
    for pre suf r'
    using d by (intro less.hyps) simp_all
  from run d obtain tag s r1 where suf: "suf = tag # s" and r1: "r1 = At (pre @ [tag]) s"
    by (auto elim!: rd_byteE)
  consider "tag \<in> {0, 1}" | "tag \<in> {2, 13, 14}" | "tag \<in> {3, 4, 9}" | "tag = 5" | "tag = 6"
    | "tag \<in> {7, 8, 10}" | "tag = 11" | "tag = 12"
    | "tag \<notin> {0, 1, 2, 3, 4, 5, 6, 7, 8, 9, 10, 11, 12, 13, 14}"
    by auto
  then show ?case
  proof cases
    case 1
    with run suf d obtain bs t where "s = bs @ t" "length bs = 16" "r' = At (pre @ tag # bs) t"
      by (auto elim!: rd_byteE rd_takeE)
    with 1 suf d show ?thesis
      by (auto intro: scannedI [of _ "CvInt bs"] scannedI [of _ "CvUInt bs"])
  next
    case 2
    with run suf d obtain n bs t where b: "s = u32_to_be n @ bs @ t" "length bs = unat n"
      "unat n \<le> max_value_size" "r' = At (pre @ tag # u32_to_be n @ bs) t"
      by (auto elim!: rd_byteE rd_takeE u32.enc_decE)
    then have "w_stacks_string bs = u32_to_be n @ bs" by (simp add: w_stacks_string_def)
    with 2 suf d b show ?thesis
      by (auto intro: scannedI [of _ "CvBuffer bs"] scannedI [of _ "CvAscii bs"]
          scannedI [of _ "CvUtf8 bs"])
  next
    case 3
    with run suf d have "r' = At (pre @ [tag]) s"
      by (auto elim!: rd_byteE)
    with 3 suf d show ?thesis
      by (auto intro: scannedI [of _ CvTrue] scannedI [of _ CvFalse] scannedI [of _ CvNone])
  next
    case 4
    with run suf d obtain a t where "s = w_address a @ t" "sa_ok a" "r' = At (pre @ tag # w_address a) t"
      by (auto elim!: rd_byteE address.enc_decE)
    with 4 suf d show ?thesis
      by (auto intro: scannedI [of _ "CvPrincipal a"])
  next
    case 5
    with run suf d obtain a n t where "s = w_address a @ w_name n @ t" "sa_ok a"
      "contract_name_ok 128 n" "r' = At (pre @ tag # w_address a @ w_name n) t"
      by (auto elim!: rd_byteE address.enc_decE contract_name.enc_decE)
    with 5 suf d show ?thesis
      by (auto intro: scannedI [of _ "CvContract a n"])
  next
    case 6
    with run suf d have "scan_clarity_value (Suc d) (At (pre @ [tag]) s) = Inr ((), r')"
      by (auto elim!: rd_byteE)
    from IH [OF this] obtain v t where "cv_ok (Suc d) v" "s = cv_encode v @ t"
      "r' = At ((pre @ [tag]) @ cv_encode v) t"
      by (auto simp: scanned_def)
    with 6 suf d show ?thesis
      by (auto intro: scannedI [of _ "CvOk v"] scannedI [of _ "CvErr v"] scannedI [of _ "CvSome v"])
  next
    case 7
    with run suf d obtain n t us where n: "s = u32_to_be n @ t" "unat n \<le> max_value_size"
      and body: "times_r (unat n) (scan_clarity_value (Suc d)) (At (pre @ tag # u32_to_be n) t) = Inr (us, r')"
      by (auto elim!: rd_byteE u32.enc_decE)
    from scan_list_body [OF IH body] obtain vs t' where "length vs = unat n"
      "\<forall>v \<in> set vs. cv_ok (Suc d) v" "t = concat (map cv_encode vs) @ t'"
      "r' = At ((pre @ tag # u32_to_be n) @ concat (map cv_encode vs)) t'"
      by blast
    with 7 suf d n show ?thesis
      by (auto intro: scannedI [of _ "CvList vs"])
  next
    case 8
    with run suf d obtain n t us where n: "s = u32_to_be n @ t" "unat n \<le> max_value_size"
      and body: "times_r (unat n) (bind_r read_clarity_name (\<lambda>_. scan_clarity_value (Suc d)))
        (At (pre @ tag # u32_to_be n) t) = Inr (us, r')"
      by (auto elim!: rd_byteE u32.enc_decE)
    from scan_tuple_body [OF IH body] obtain fs t' where "length fs = unat n"
      "\<forall>(n, v) \<in> set fs. clarity_name_ok n \<and> cv_ok (Suc d) v"
      "t = concat (map (\<lambda>(n, v). w_name n @ cv_encode v) fs) @ t'"
      "r' = At ((pre @ tag # u32_to_be n) @ concat (map (\<lambda>(n, v). w_name n @ cv_encode v) fs)) t'"
      by blast
    with 8 suf d n show ?thesis
      by (auto intro: scannedI [of _ "CvTuple fs"])
  next
    case 9
    with run suf d show ?thesis
      by (auto elim!: rd_byteE)
  qed
qed

section \<open>Values on the wire\<close>

interpretation clarity_value: wire_codec read_clarity_value "\<lambda>x. x" clarity_value_ok
proof
  fix a pre t
  assume "clarity_value_ok a" "fits pre (a @ t)"
  then show "read_clarity_value (At pre (a @ t)) = Inr (a, At (pre @ a) t)"
    by (auto simp: clarity_value_ok_def fits_def read_clarity_value_def spanned_r_def scan_accepts)
next
  fix pre suf a r'
  assume "read_clarity_value (At pre suf) = Inr (a, r')"
  then have run: "scan_clarity_value 0 (At pre suf) = Inr ((), r')"
    and a: "a = rd_slice_from (length pre) r'"
    by (auto simp: read_clarity_value_def spanned_r_def split: sum.splits)
  from scan_sound [OF run] obtain v t where "cv_ok 0 v" "suf = cv_encode v @ t" "r' = At (pre @ cv_encode v) t"
    by (auto simp: scanned_def)
  with a show "clarity_value_ok a \<and> (\<exists>t. suf = a @ t \<and> r' = At (pre @ a) t)"
    by (auto simp: clarity_value_ok_def)
qed

lemma cv_encode_nonempty: "0 < length (cv_encode v)"
  by (cases v) auto

lemma clarity_value_nonempty: "clarity_value_ok bs \<Longrightarrow> 1 \<le> length bs"
  using cv_encode_nonempty by (auto simp: clarity_value_ok_def Suc_le_eq)

text \<open>C25: the scanner accepts exactly the encodings of Clarity values that respect the limits on nesting,
  length and names, and stops at the end of the value; with the length of the input as the only bound it
  never fails on such a value.\<close>

theorem scan_clarity_value_iff:
  assumes "length pre + length suf \<le> usize_max"
  shows "scan_clarity_value d (At pre suf) = Inr ((), r') \<longleftrightarrow>
    (\<exists>v t. cv_ok d v \<and> suf = cv_encode v @ t \<and> r' = At (pre @ cv_encode v) t)"
  using assms scan_accepts scan_sound unfolding scanned_def by fastforce

theorem scan_clarity_value_iff_witness:
  "scan_clarity_value 32 (At [7] [3, 9]) = Inr ((), At [7, 3] [9]) \<and>
   \<not> (\<exists>v t. cv_ok 33 v \<and> [3, 9] = cv_encode v @ t)"
proof -
  have fit: "length [7 :: byte] + length [3 :: byte, 9] \<le> usize_max"
    by (simp add: usize_max_def)
  have "scan_clarity_value 32 (At [7] [3, 9]) = Inr ((), At [7, 3] [9])"
    using scan_clarity_value_iff [OF fit, of 32 "At [7, 3] [9]"]
    by (auto intro: exI [of _ CvTrue] exI [of _ "[9]"])
  moreover have "\<not> cv_ok 33 v" for v
    by (cases v) auto
  ultimately show ?thesis by blast
qed

end
