(* ===== verification/Post_Condition.thy ===== *)
theory Post_Condition
  imports Clarity_Value
begin

text \<open>
  Principals and transaction post-conditions of \<open>nano-codec\<close>, with their decoders and encoders.
\<close>

section \<open>Data\<close>

datatype principal =
    PrincipalStandard stacks_address
  | PrincipalContract stacks_address rust_str

datatype post_condition_principal =
    PcOrigin
  | PcStandard stacks_address
  | PcContract stacks_address rust_str

record asset_info =
  ai_address :: stacks_address
  ai_contract_name :: rust_str
  ai_asset_name :: rust_str

datatype fungible_condition = SentEqual | SentGreater | SentGreaterEqual | SentLess | SentLessEqual

datatype non_fungible_condition = DoesNotSend | DoesSend | MaySend

datatype pox_condition = NotPerformed | MaybePerformed | Performed

datatype post_condition_data =
    PcdStx post_condition_principal fungible_condition u64
  | PcdFungible post_condition_principal asset_info fungible_condition u64
  | PcdNonFungible post_condition_principal asset_info bytes non_fungible_condition
  | PcdStaking post_condition_principal fungible_condition u64
  | PcdPox post_condition_principal pox_condition

section \<open>Principals\<close>

definition read_principal :: "principal decoder" where
  "read_principal = bind_r rd_byte (\<lambda>tag.
     if tag = 5 then bind_r read_address (\<lambda>a. ret_r (PrincipalStandard a))
     else if tag = 6 then bind_r read_address (\<lambda>a.
       bind_r (read_contract_name 128) (\<lambda>n. ret_r (PrincipalContract a n)))
     else err_r InvalidPrincipal)"

definition encode_principal :: "principal \<Rightarrow> bytes" where
  "encode_principal p = (case p of
       PrincipalStandard a \<Rightarrow> w_byte 5 @ w_address a
     | PrincipalContract a n \<Rightarrow> w_byte 6 @ w_address a @ w_name n)"

definition principal_ok :: "principal \<Rightarrow> bool" where
  "principal_ok p = (case p of
       PrincipalStandard a \<Rightarrow> sa_ok a
     | PrincipalContract a n \<Rightarrow> sa_ok a \<and> contract_name_ok 128 n)"

definition read_post_condition_principal :: "post_condition_principal decoder" where
  "read_post_condition_principal = bind_r rd_byte (\<lambda>tag.
     if tag = 1 then ret_r PcOrigin
     else if tag = 2 then bind_r read_address (\<lambda>a. ret_r (PcStandard a))
     else if tag = 3 then bind_r read_address (\<lambda>a.
       bind_r (read_contract_name 40) (\<lambda>n. ret_r (PcContract a n)))
     else err_r InvalidPostCondition)"

definition encode_post_condition_principal :: "post_condition_principal \<Rightarrow> bytes" where
  "encode_post_condition_principal p = (case p of
       PcOrigin \<Rightarrow> w_byte 1
     | PcStandard a \<Rightarrow> w_byte 2 @ w_address a
     | PcContract a n \<Rightarrow> w_byte 3 @ w_address a @ w_name n)"

definition pc_principal_ok :: "post_condition_principal \<Rightarrow> bool" where
  "pc_principal_ok p = (case p of
       PcOrigin \<Rightarrow> True
     | PcStandard a \<Rightarrow> sa_ok a
     | PcContract a n \<Rightarrow> sa_ok a \<and> contract_name_ok 40 n)"

section \<open>Assets and conditions\<close>

definition read_asset_info :: "asset_info decoder" where
  "read_asset_info = bind_r read_address (\<lambda>a. bind_r (read_contract_name 40) (\<lambda>c.
     bind_r read_clarity_name (\<lambda>n.
     ret_r \<lparr>ai_address = a, ai_contract_name = c, ai_asset_name = n\<rparr>)))"

definition encode_asset_info :: "asset_info \<Rightarrow> bytes" where
  "encode_asset_info x = w_address (ai_address x) @ w_name (ai_contract_name x) @ w_name (ai_asset_name x)"

definition asset_info_ok :: "asset_info \<Rightarrow> bool" where
  "asset_info_ok x \<longleftrightarrow> sa_ok (ai_address x) \<and> contract_name_ok 40 (ai_contract_name x) \<and>
     clarity_name_ok (ai_asset_name x)"

definition fungible_condition_byte :: "fungible_condition \<Rightarrow> byte" where
  "fungible_condition_byte c = (case c of SentEqual \<Rightarrow> 1 | SentGreater \<Rightarrow> 2 | SentGreaterEqual \<Rightarrow> 3
     | SentLess \<Rightarrow> 4 | SentLessEqual \<Rightarrow> 5)"

definition fungible_condition_parse :: "byte \<Rightarrow> codec_error + fungible_condition" where
  "fungible_condition_parse b = (if b = 1 then Inr SentEqual else if b = 2 then Inr SentGreater
     else if b = 3 then Inr SentGreaterEqual else if b = 4 then Inr SentLess
     else if b = 5 then Inr SentLessEqual else Inl InvalidPostCondition)"

definition read_fungible_condition :: "fungible_condition decoder" where
  "read_fungible_condition = bind_r rd_byte (\<lambda>b. lift_r (fungible_condition_parse b))"

definition encode_fungible_condition :: "fungible_condition \<Rightarrow> bytes" where
  "encode_fungible_condition c = w_byte (fungible_condition_byte c)"

definition nft_condition_byte :: "non_fungible_condition \<Rightarrow> byte" where
  "nft_condition_byte c = (case c of DoesSend \<Rightarrow> 0x10 | DoesNotSend \<Rightarrow> 0x11 | MaySend \<Rightarrow> 0x12)"

definition nft_condition_parse :: "byte \<Rightarrow> codec_error + non_fungible_condition" where
  "nft_condition_parse b = (if b = 0x10 then Inr DoesSend else if b = 0x11 then Inr DoesNotSend
     else if b = 0x12 then Inr MaySend else Inl InvalidPostCondition)"

definition pox_condition_byte :: "pox_condition \<Rightarrow> byte" where
  "pox_condition_byte c = (case c of NotPerformed \<Rightarrow> 0x30 | MaybePerformed \<Rightarrow> 0x31 | Performed \<Rightarrow> 0x32)"

definition pox_condition_parse :: "byte \<Rightarrow> codec_error + pox_condition" where
  "pox_condition_parse b = (if b = 0x30 then Inr NotPerformed else if b = 0x31 then Inr MaybePerformed
     else if b = 0x32 then Inr Performed else Inl InvalidPostCondition)"

section \<open>Post-conditions\<close>

definition read_post_condition :: "post_condition_data decoder" where
  "read_post_condition = bind_r rd_byte (\<lambda>tag.
     if tag = 0 then bind_r read_post_condition_principal (\<lambda>p.
       bind_r read_fungible_condition (\<lambda>c. bind_r rd_u64 (\<lambda>amount. ret_r (PcdStx p c amount))))
     else if tag = 1 then bind_r read_post_condition_principal (\<lambda>p.
       bind_r read_asset_info (\<lambda>asset. bind_r read_fungible_condition (\<lambda>c.
       bind_r rd_u64 (\<lambda>amount. ret_r (PcdFungible p asset c amount)))))
     else if tag = 2 then bind_r read_post_condition_principal (\<lambda>p.
       bind_r read_asset_info (\<lambda>asset. bind_r read_clarity_value (\<lambda>v.
       bind_r rd_byte (\<lambda>b. bind_r (lift_r (nft_condition_parse b)) (\<lambda>c.
       ret_r (PcdNonFungible p asset v c))))))
     else if tag = 3 then bind_r read_post_condition_principal (\<lambda>p.
       bind_r read_fungible_condition (\<lambda>c. bind_r rd_u64 (\<lambda>amount. ret_r (PcdStaking p c amount))))
     else if tag = 4 then bind_r read_post_condition_principal (\<lambda>p.
       bind_r rd_byte (\<lambda>b. bind_r (lift_r (pox_condition_parse b)) (\<lambda>c. ret_r (PcdPox p c))))
     else err_r InvalidPostCondition)"

definition encode_post_condition :: "post_condition_data \<Rightarrow> bytes" where
  "encode_post_condition d = (case d of
       PcdStx p c amount \<Rightarrow> w_byte 0 @ encode_post_condition_principal p @
         encode_fungible_condition c @ u64_to_be amount
     | PcdFungible p asset c amount \<Rightarrow> w_byte 1 @ encode_post_condition_principal p @
         encode_asset_info asset @ encode_fungible_condition c @ u64_to_be amount
     | PcdNonFungible p asset v c \<Rightarrow> w_byte 2 @ encode_post_condition_principal p @
         encode_asset_info asset @ v @ w_byte (nft_condition_byte c)
     | PcdStaking p c amount \<Rightarrow> w_byte 3 @ encode_post_condition_principal p @
         encode_fungible_condition c @ u64_to_be amount
     | PcdPox p c \<Rightarrow> w_byte 4 @ encode_post_condition_principal p @ w_byte (pox_condition_byte c))"

definition post_condition_ok :: "post_condition_data \<Rightarrow> bool" where
  "post_condition_ok d = (case d of
       PcdStx p c amount \<Rightarrow> pc_principal_ok p
     | PcdFungible p asset c amount \<Rightarrow> pc_principal_ok p \<and> asset_info_ok asset
     | PcdNonFungible p asset v c \<Rightarrow> pc_principal_ok p \<and> asset_info_ok asset \<and> clarity_value_ok v
     | PcdStaking p c amount \<Rightarrow> pc_principal_ok p
     | PcdPox p c \<Rightarrow> pc_principal_ok p)"

section \<open>The contract\<close>

interpretation principal: wire_codec read_principal encode_principal principal_ok
proof
  fix a pre t
  assume "principal_ok a" "fits pre (encode_principal a @ t)"
  then show "read_principal (At pre (encode_principal a @ t)) = Inr (a, At (pre @ encode_principal a) t)"
    by (auto simp: fits_def read_principal_def encode_principal_def principal_ok_def w_byte_def
        address.dec_enc_len contract_name.dec_enc_len split: principal.splits)
next
  fix pre suf a r'
  assume "read_principal (At pre suf) = Inr (a, r')"
  then show "principal_ok a \<and> (\<exists>t. suf = encode_principal a @ t \<and> r' = At (pre @ encode_principal a) t)"
    by (auto simp: read_principal_def encode_principal_def principal_ok_def w_byte_def
        elim!: rd_byteE address.enc_decE contract_name.enc_decE split: if_splits)
qed

interpretation pc_principal: wire_codec read_post_condition_principal
  encode_post_condition_principal pc_principal_ok
proof
  fix a pre t
  assume "pc_principal_ok a" "fits pre (encode_post_condition_principal a @ t)"
  then show "read_post_condition_principal (At pre (encode_post_condition_principal a @ t))
      = Inr (a, At (pre @ encode_post_condition_principal a) t)"
    by (auto simp: fits_def read_post_condition_principal_def encode_post_condition_principal_def
        pc_principal_ok_def w_byte_def address.dec_enc_len contract_name.dec_enc_len
        split: post_condition_principal.splits)
next
  fix pre suf a r'
  assume "read_post_condition_principal (At pre suf) = Inr (a, r')"
  then show "pc_principal_ok a \<and> (\<exists>t. suf = encode_post_condition_principal a @ t \<and>
      r' = At (pre @ encode_post_condition_principal a) t)"
    by (auto simp: read_post_condition_principal_def encode_post_condition_principal_def
        pc_principal_ok_def w_byte_def
        elim!: rd_byteE address.enc_decE contract_name.enc_decE split: if_splits)
qed

interpretation asset: wire_codec read_asset_info encode_asset_info asset_info_ok
  by unfold_locales
     (auto simp: fits_def read_asset_info_def encode_asset_info_def asset_info_ok_def
       address.dec_enc_len contract_name.dec_enc_len clarity_name.dec_enc_len
       elim!: address.enc_decE contract_name.enc_decE clarity_name.enc_decE)

lemma condition_parse_byte [simp]:
  "fungible_condition_parse (fungible_condition_byte f) = Inr f"
  "nft_condition_parse (nft_condition_byte n) = Inr n"
  "pox_condition_parse (pox_condition_byte p) = Inr p"
  by (cases f; cases n; cases p;
      simp add: fungible_condition_parse_def fungible_condition_byte_def nft_condition_parse_def
        nft_condition_byte_def pox_condition_parse_def pox_condition_byte_def)+

lemma condition_parseD:
  "fungible_condition_parse b = Inr f \<Longrightarrow> b = fungible_condition_byte f"
  "nft_condition_parse b = Inr n \<Longrightarrow> b = nft_condition_byte n"
  "pox_condition_parse b = Inr p \<Longrightarrow> b = pox_condition_byte p"
  by (auto simp: fungible_condition_parse_def fungible_condition_byte_def nft_condition_parse_def
      nft_condition_byte_def pox_condition_parse_def pox_condition_byte_def split: if_splits)

interpretation fungible: wire_codec read_fungible_condition encode_fungible_condition "\<lambda>_. True"
  by unfold_locales
     (auto simp: fits_def read_fungible_condition_def encode_fungible_condition_def w_byte_def
       elim!: rd_byteE dest!: condition_parseD)

interpretation post_condition: wire_codec read_post_condition encode_post_condition post_condition_ok
proof
  fix a pre t
  assume "post_condition_ok a" "fits pre (encode_post_condition a @ t)"
  then show "read_post_condition (At pre (encode_post_condition a @ t))
      = Inr (a, At (pre @ encode_post_condition a) t)"
    by (cases a)
       (simp_all add: fits_def read_post_condition_def encode_post_condition_def post_condition_ok_def
        w_byte_def pc_principal.dec_enc_len asset.dec_enc_len fungible.dec_enc_len u64.dec_enc_len
        clarity_value.dec_enc_len)
next
  fix pre suf a r'
  assume "read_post_condition (At pre suf) = Inr (a, r')"
  then show "post_condition_ok a \<and> (\<exists>t. suf = encode_post_condition a @ t \<and>
      r' = At (pre @ encode_post_condition a) t)"
    by (auto simp: read_post_condition_def encode_post_condition_def post_condition_ok_def w_byte_def
        elim!: rd_byteE pc_principal.enc_decE asset.enc_decE fungible.enc_decE u64.enc_decE
          clarity_value.enc_decE dest!: condition_parseD split: if_splits)
qed

end
