(* ===== verification/Payload.thy ===== *)
theory Payload
  imports Post_Condition
begin

text \<open>
  Transaction payloads of \<open>nano-codec\<close>. Whether 80 bytes are a VRF proof is decided by
  \<open>VrfProof::from_bytes\<close>, which rests on the Edwards-curve crate: it is the parameter \<open>vrf_ok\<close> of
  the decoders here.
\<close>

section \<open>Data\<close>

datatype transaction_payload_type =
    PtTokenTransfer | PtSmartContract | PtContractCall | PtPoisonMicroblock | PtCoinbase
  | PtCoinbaseToAltRecipient | PtVersionedSmartContract | PtTenureChange | PtNakamotoCoinbase

definition payload_type_parse :: "byte \<Rightarrow> codec_error + transaction_payload_type" where
  "payload_type_parse b =
     (if b = 0 then Inr PtTokenTransfer else if b = 1 then Inr PtSmartContract
      else if b = 2 then Inr PtContractCall else if b = 3 then Inr PtPoisonMicroblock
      else if b = 4 then Inr PtCoinbase else if b = 5 then Inr PtCoinbaseToAltRecipient
      else if b = 6 then Inr PtVersionedSmartContract else if b = 7 then Inr PtTenureChange
      else if b = 8 then Inr PtNakamotoCoinbase else Inl InvalidPayload)"

datatype clarity_version = Clarity1 | Clarity2 | Clarity3 | Clarity4 | Clarity5 | Clarity6

definition clarity_version_parse :: "byte \<Rightarrow> codec_error + clarity_version" where
  "clarity_version_parse b =
     (if b = 1 then Inr Clarity1 else if b = 2 then Inr Clarity2 else if b = 3 then Inr Clarity3
      else if b = 4 then Inr Clarity4 else if b = 5 then Inr Clarity5 else if b = 6 then Inr Clarity6
      else Inl InvalidPayload)"

definition clarity_version_byte :: "clarity_version \<Rightarrow> byte" where
  "clarity_version_byte v = (case v of Clarity1 \<Rightarrow> 1 | Clarity2 \<Rightarrow> 2 | Clarity3 \<Rightarrow> 3 | Clarity4 \<Rightarrow> 4
     | Clarity5 \<Rightarrow> 5 | Clarity6 \<Rightarrow> 6)"

record microblock_header =
  mb_sequence :: u16
  mb_previous_block :: bytes
  mb_bytes :: bytes

datatype tenure_change_cause =
    BlockFound | Extended | ExtendedRuntime | ExtendedReadCount | ExtendedReadLength
  | ExtendedWriteCount | ExtendedWriteLength

definition cause_parse :: "byte \<Rightarrow> codec_error + tenure_change_cause" where
  "cause_parse b =
     (if b = 0 then Inr BlockFound else if b = 1 then Inr Extended else if b = 2 then Inr ExtendedRuntime
      else if b = 3 then Inr ExtendedReadCount else if b = 4 then Inr ExtendedReadLength
      else if b = 5 then Inr ExtendedWriteCount else if b = 6 then Inr ExtendedWriteLength
      else Inl InvalidPayload)"

definition cause_byte :: "tenure_change_cause \<Rightarrow> byte" where
  "cause_byte c = (case c of BlockFound \<Rightarrow> 0 | Extended \<Rightarrow> 1 | ExtendedRuntime \<Rightarrow> 2
     | ExtendedReadCount \<Rightarrow> 3 | ExtendedReadLength \<Rightarrow> 4 | ExtendedWriteCount \<Rightarrow> 5
     | ExtendedWriteLength \<Rightarrow> 6)"

record tenure_change_payload =
  tc_tenure_consensus_hash :: bytes
  tc_previous_tenure_consensus_hash :: bytes
  tc_bitcoin_view_consensus_hash :: bytes
  tc_previous_tenure_end :: bytes
  tc_previous_tenure_blocks :: u32
  tc_cause :: tenure_change_cause
  tc_public_key_hash :: bytes

datatype transaction_payload_data =
    TokenTransfer principal u64 bytes
  | SmartContract rust_str rust_str
  | ContractCall stacks_address rust_str rust_str "bytes list"
  | PoisonMicroblock microblock_header microblock_header
  | Coinbase bytes
  | CoinbaseToAltRecipient bytes principal
  | VersionedSmartContract clarity_version rust_str rust_str
  | TenureChange tenure_change_payload
  | NakamotoCoinbase bytes "principal option" bytes

definition payload_kind :: "transaction_payload_data \<Rightarrow> transaction_payload_type" where
  "payload_kind d = (case d of
       TokenTransfer _ _ _ \<Rightarrow> PtTokenTransfer
     | SmartContract _ _ \<Rightarrow> PtSmartContract
     | ContractCall _ _ _ _ \<Rightarrow> PtContractCall
     | PoisonMicroblock _ _ \<Rightarrow> PtPoisonMicroblock
     | Coinbase _ \<Rightarrow> PtCoinbase
     | CoinbaseToAltRecipient _ _ \<Rightarrow> PtCoinbaseToAltRecipient
     | VersionedSmartContract _ _ _ \<Rightarrow> PtVersionedSmartContract
     | TenureChange _ \<Rightarrow> PtTenureChange
     | NakamotoCoinbase _ _ _ \<Rightarrow> PtNakamotoCoinbase)"

section \<open>Decoding\<close>

definition read_microblock_header :: "microblock_header decoder" where
  "read_microblock_header = bind_r (rd_take 132) (\<lambda>bs.
     ret_r \<lparr>mb_sequence = u16_from_be (take 2 (drop 1 bs)), mb_previous_block = take 32 (drop 3 bs),
            mb_bytes = bs\<rparr>)"

definition read_tenure_change :: "tenure_change_payload decoder" where
  "read_tenure_change = bind_r read_consensus_hash (\<lambda>tenure. bind_r read_consensus_hash (\<lambda>previous.
     bind_r read_consensus_hash (\<lambda>view. bind_r read_block_id (\<lambda>tenure_end. bind_r rd_u32 (\<lambda>blocks.
     bind_r rd_byte (\<lambda>b. bind_r (lift_r (cause_parse b)) (\<lambda>cause. bind_r rd_hash160 (\<lambda>key.
     ret_r \<lparr>tc_tenure_consensus_hash = tenure, tc_previous_tenure_consensus_hash = previous,
            tc_bitcoin_view_consensus_hash = view, tc_previous_tenure_end = tenure_end,
            tc_previous_tenure_blocks = blocks, tc_cause = cause, tc_public_key_hash = key\<rparr>))))))))"

definition read_coinbase_recipient :: "principal option decoder" where
  "read_coinbase_recipient = bind_r rd_byte (\<lambda>tag.
     if tag = 9 then ret_r None
     else if tag = 10 then bind_r read_principal (\<lambda>p. ret_r (Some p))
     else err_r InvalidPayload)"

definition poison_pair_ok :: "microblock_header \<Rightarrow> microblock_header \<Rightarrow> bool" where
  "poison_pair_ok a b \<longleftrightarrow> \<not> (mb_bytes a = mb_bytes b \<or>
     (mb_sequence a \<noteq> mb_sequence b \<and> mb_previous_block a \<noteq> mb_previous_block b))"

definition read_payload :: "(bytes \<Rightarrow> bool) \<Rightarrow> transaction_payload_data decoder" where
  "read_payload vrf_ok = bind_r rd_byte (\<lambda>b. bind_r (lift_r (payload_type_parse b)) (\<lambda>kind.
     case kind of
       PtTokenTransfer \<Rightarrow> bind_r read_principal (\<lambda>recipient. bind_r rd_u64 (\<lambda>amount.
         bind_r (rd_take 34) (\<lambda>memo. ret_r (TokenTransfer recipient amount memo))))
     | PtSmartContract \<Rightarrow> bind_r (read_contract_name 40) (\<lambda>name.
         bind_r read_stacks_string (\<lambda>source. ret_r (SmartContract name source)))
     | PtContractCall \<Rightarrow> bind_r read_address (\<lambda>address. bind_r (read_contract_name 40) (\<lambda>contract_name.
         bind_r read_clarity_name (\<lambda>function_name. bind_r rd_u32 (\<lambda>count.
         bind_r (check_r (\<lambda>r. unat count \<le> rd_remaining r) InvalidLength) (\<lambda>_.
         bind_r (times_r (unat count) read_clarity_value) (\<lambda>arguments.
         ret_r (ContractCall address contract_name function_name arguments)))))))
     | PtPoisonMicroblock \<Rightarrow> bind_r read_microblock_header (\<lambda>first. bind_r read_microblock_header (\<lambda>second.
         bind_r (check_r (\<lambda>_. poison_pair_ok first second) InvalidPayload) (\<lambda>_.
         ret_r (PoisonMicroblock first second))))
     | PtCoinbase \<Rightarrow> bind_r (rd_take 32) (\<lambda>payload. ret_r (Coinbase payload))
     | PtCoinbaseToAltRecipient \<Rightarrow> bind_r (rd_take 32) (\<lambda>payload. bind_r read_principal (\<lambda>recipient.
         ret_r (CoinbaseToAltRecipient payload recipient)))
     | PtVersionedSmartContract \<Rightarrow> bind_r rd_byte (\<lambda>v. bind_r (lift_r (clarity_version_parse v)) (\<lambda>version.
         bind_r (read_contract_name 40) (\<lambda>name. bind_r read_stacks_string (\<lambda>source.
         ret_r (VersionedSmartContract version name source)))))
     | PtTenureChange \<Rightarrow> bind_r read_tenure_change (\<lambda>payload. ret_r (TenureChange payload))
     | PtNakamotoCoinbase \<Rightarrow> bind_r (rd_take 32) (\<lambda>payload. bind_r read_coinbase_recipient (\<lambda>recipient.
         bind_r (rd_take 80) (\<lambda>vrf_proof.
         bind_r (check_r (\<lambda>_. vrf_ok vrf_proof) InvalidPayload) (\<lambda>_.
         ret_r (NakamotoCoinbase payload recipient vrf_proof)))))))"

section \<open>Encoding\<close>

definition encode_tenure_change :: "tenure_change_payload \<Rightarrow> bytes" where
  "encode_tenure_change p = tc_tenure_consensus_hash p @ tc_previous_tenure_consensus_hash p @
     tc_bitcoin_view_consensus_hash p @ tc_previous_tenure_end p @
     u32_to_be (tc_previous_tenure_blocks p) @ w_byte (cause_byte (tc_cause p)) @ tc_public_key_hash p"

definition encode_coinbase_recipient :: "principal option \<Rightarrow> bytes" where
  "encode_coinbase_recipient recipient =
     (case recipient of Some p \<Rightarrow> w_byte 10 @ encode_principal p | None \<Rightarrow> w_byte 9)"

definition encode_payload :: "transaction_payload_data \<Rightarrow> bytes" where
  "encode_payload d = (case d of
       TokenTransfer recipient amount memo \<Rightarrow> w_byte 0 @ encode_principal recipient @ u64_to_be amount @ memo
     | SmartContract name source \<Rightarrow> w_byte 1 @ w_name name @ w_stacks_string source
     | ContractCall address contract_name function_name arguments \<Rightarrow> w_byte 2 @ w_address address @
         w_name contract_name @ w_name function_name @ u32_to_be (word_of_nat (length arguments)) @
         concat arguments
     | PoisonMicroblock first second \<Rightarrow> w_byte 3 @ mb_bytes first @ mb_bytes second
     | Coinbase payload \<Rightarrow> w_byte 4 @ payload
     | CoinbaseToAltRecipient payload recipient \<Rightarrow> w_byte 5 @ payload @ encode_principal recipient
     | VersionedSmartContract version name source \<Rightarrow> w_byte 6 @ w_byte (clarity_version_byte version) @
         w_name name @ w_stacks_string source
     | TenureChange payload \<Rightarrow> w_byte 7 @ encode_tenure_change payload
     | NakamotoCoinbase payload recipient vrf_proof \<Rightarrow> w_byte 8 @ payload @
         encode_coinbase_recipient recipient @ vrf_proof)"

section \<open>What a decoded payload satisfies\<close>

definition microblock_header_ok :: "microblock_header \<Rightarrow> bool" where
  "microblock_header_ok h \<longleftrightarrow> length (mb_bytes h) = 132 \<and>
     mb_sequence h = u16_from_be (take 2 (drop 1 (mb_bytes h))) \<and>
     mb_previous_block h = take 32 (drop 3 (mb_bytes h))"

definition tenure_change_ok :: "tenure_change_payload \<Rightarrow> bool" where
  "tenure_change_ok p \<longleftrightarrow> length (tc_tenure_consensus_hash p) = 20 \<and>
     length (tc_previous_tenure_consensus_hash p) = 20 \<and> length (tc_bitcoin_view_consensus_hash p) = 20 \<and>
     length (tc_previous_tenure_end p) = 32 \<and> length (tc_public_key_hash p) = 20"

definition payload_ok :: "(bytes \<Rightarrow> bool) \<Rightarrow> transaction_payload_data \<Rightarrow> bool" where
  "payload_ok vrf_ok d = (case d of
       TokenTransfer recipient amount memo \<Rightarrow> principal_ok recipient \<and> length memo = 34
     | SmartContract name source \<Rightarrow> contract_name_ok 40 name \<and> stacks_string_ok source
     | ContractCall address contract_name function_name arguments \<Rightarrow> sa_ok address \<and>
         contract_name_ok 40 contract_name \<and> clarity_name_ok function_name \<and>
         length arguments < 2 ^ 32 \<and> (\<forall>v \<in> set arguments. clarity_value_ok v)
     | PoisonMicroblock first second \<Rightarrow> microblock_header_ok first \<and> microblock_header_ok second \<and>
         poison_pair_ok first second
     | Coinbase payload \<Rightarrow> length payload = 32
     | CoinbaseToAltRecipient payload recipient \<Rightarrow> length payload = 32 \<and> principal_ok recipient
     | VersionedSmartContract version name source \<Rightarrow> contract_name_ok 40 name \<and> stacks_string_ok source
     | TenureChange payload \<Rightarrow> tenure_change_ok payload
     | NakamotoCoinbase payload recipient vrf_proof \<Rightarrow> length payload = 32 \<and>
         (case recipient of None \<Rightarrow> True | Some p \<Rightarrow> principal_ok p) \<and> length vrf_proof = 80 \<and> vrf_ok vrf_proof)"

section \<open>The contract\<close>

lemma clarity_version_parse_byte [simp]: "clarity_version_parse (clarity_version_byte v) = Inr v"
  by (cases v) (simp_all add: clarity_version_parse_def clarity_version_byte_def)

lemma cause_parse_byte [simp]: "cause_parse (cause_byte c) = Inr c"
  by (cases c) (simp_all add: cause_parse_def cause_byte_def)

lemma clarity_version_parseD: "clarity_version_parse b = Inr v \<Longrightarrow> b = clarity_version_byte v"
  by (auto simp: clarity_version_parse_def clarity_version_byte_def split: if_splits)

lemma cause_parseD: "cause_parse b = Inr c \<Longrightarrow> b = cause_byte c"
  by (auto simp: cause_parse_def cause_byte_def split: if_splits)

interpretation microblock_header: wire_codec read_microblock_header mb_bytes microblock_header_ok
  by unfold_locales
     (auto simp: fits_def read_microblock_header_def microblock_header_ok_def rd_take_append
       elim!: rd_takeE)

interpretation tenure_change: wire_codec read_tenure_change encode_tenure_change tenure_change_ok
  by unfold_locales
     (auto simp: fits_def read_tenure_change_def encode_tenure_change_def tenure_change_ok_def w_byte_def
       consensus_hash.dec_enc_len block_id.dec_enc_len u32.dec_enc_len hash160.dec_enc_len
       elim!: consensus_hash.enc_decE block_id.enc_decE u32.enc_decE hash160.enc_decE rd_byteE
       dest!: cause_parseD)

interpretation coinbase_recipient: wire_codec read_coinbase_recipient encode_coinbase_recipient
  "\<lambda>recipient. case recipient of None \<Rightarrow> True | Some p \<Rightarrow> principal_ok p"
  by unfold_locales
     (auto simp: fits_def read_coinbase_recipient_def encode_coinbase_recipient_def w_byte_def
       principal.dec_enc_len elim!: rd_byteE principal.enc_decE split: option.splits if_splits)

lemma payload_type_parse_simps [simp]:
  "payload_type_parse 0 = Inr PtTokenTransfer" "payload_type_parse 1 = Inr PtSmartContract"
  "payload_type_parse 2 = Inr PtContractCall" "payload_type_parse 3 = Inr PtPoisonMicroblock"
  "payload_type_parse 4 = Inr PtCoinbase" "payload_type_parse 5 = Inr PtCoinbaseToAltRecipient"
  "payload_type_parse 6 = Inr PtVersionedSmartContract" "payload_type_parse 7 = Inr PtTenureChange"
  "payload_type_parse 8 = Inr PtNakamotoCoinbase"
  by (simp_all add: payload_type_parse_def)

lemma arguments_fit:
  assumes "\<forall>v \<in> set vs. clarity_value_ok v"
  shows "length vs \<le> length (concat vs) + n"
proof -
  have "1 * length vs \<le> length (concat (map (\<lambda>v. v) vs))"
    using assms clarity_value_nonempty by (intro length_concat_ge) auto
  then show ?thesis by simp
qed

lemma arguments_dec_enc:
  assumes "\<forall>v \<in> set vs. clarity_value_ok v"
    and "length pre + length (concat vs) + length t \<le> usize_max"
  shows "times_r (length vs) read_clarity_value (At pre (concat vs @ t)) = Inr (vs, At (pre @ concat vs) t)"
  using clarity_value.times_dec_enc [of vs pre t] assms by simp

lemma read_payload_forward:
  assumes "payload_ok vrf_ok d" and "length pre + length (encode_payload d) + length t \<le> usize_max"
  shows "read_payload vrf_ok (At pre (encode_payload d @ t)) = Inr (d, At (pre @ encode_payload d) t)"
  using assms
  by (cases d)
     (simp_all add: read_payload_def encode_payload_def payload_ok_def w_byte_def rd_take_append
      principal.dec_enc_len u64.dec_enc_len contract_name.dec_enc_len stacks_string.dec_enc_len
      address.dec_enc_len clarity_name.dec_enc_len u32.dec_enc_len unat_of_length_u32
      arguments_fit arguments_dec_enc microblock_header.dec_enc_len tenure_change.dec_enc_len
      coinbase_recipient.dec_enc_len)

definition payload_tag :: "transaction_payload_type \<Rightarrow> byte" where
  "payload_tag k = (case k of PtTokenTransfer \<Rightarrow> 0 | PtSmartContract \<Rightarrow> 1 | PtContractCall \<Rightarrow> 2
     | PtPoisonMicroblock \<Rightarrow> 3 | PtCoinbase \<Rightarrow> 4 | PtCoinbaseToAltRecipient \<Rightarrow> 5
     | PtVersionedSmartContract \<Rightarrow> 6 | PtTenureChange \<Rightarrow> 7 | PtNakamotoCoinbase \<Rightarrow> 8)"

lemma payload_type_parseD: "payload_type_parse b = Inr k \<Longrightarrow> b = payload_tag k"
  by (auto simp: payload_type_parse_def payload_tag_def split: if_splits)

lemma read_payload_backward:
  assumes run: "read_payload vrf_ok (At pre suf) = Inr (d, r')"
  shows "payload_ok vrf_ok d \<and> (\<exists>t. suf = encode_payload d @ t \<and> r' = At (pre @ encode_payload d) t)"
proof -
  from run obtain b kind s where b: "suf = b # s" "payload_type_parse b = Inr kind"
    by (auto simp: read_payload_def elim!: rd_byteE)
  then have suf: "suf = payload_tag kind # s" and parse: "payload_type_parse (payload_tag kind) = Inr kind"
    using payload_type_parseD [OF b(2)] by simp_all
  note defs = payload_ok_def encode_payload_def w_byte_def payload_tag_def
  show ?thesis
  proof (cases kind)
    case PtContractCall
    with run suf parse obtain a c f n vs t where
      d: "d = ContractCall a c f vs" and ok: "sa_ok a" "contract_name_ok 40 c" "clarity_name_ok f"
      and vs: "length vs = unat n" "\<forall>v \<in> set vs. clarity_value_ok v"
      and s: "s = w_address a @ w_name c @ w_name f @ u32_to_be n @ concat vs @ t"
      and r': "r' = At (pre @ 2 # w_address a @ w_name c @ w_name f @ u32_to_be n @ concat vs) t"
      by (auto simp: read_payload_def payload_tag_def elim!: rd_byteE address.enc_decE
          contract_name.enc_decE clarity_name.enc_decE u32.enc_decE clarity_value.times_enc_decE)
    have "n = word_of_nat (length vs)" "length vs < 2 ^ 32"
      using vs(1) unat_bound [of n] by simp_all
    with d ok vs s r' suf PtContractCall show ?thesis
      by (auto simp: defs)
  qed (use run suf parse in \<open>auto simp: read_payload_def defs elim!: rd_byteE rd_takeE
      principal.enc_decE u64.enc_decE contract_name.enc_decE stacks_string.enc_decE
      microblock_header.enc_decE tenure_change.enc_decE coinbase_recipient.enc_decE
      dest!: clarity_version_parseD\<close>)
qed

interpretation payload: wire_codec "read_payload vrf_ok" encode_payload "payload_ok vrf_ok" for vrf_ok
  by unfold_locales (simp_all add: fits_def read_payload_forward read_payload_backward)

lemma encode_payload_nonempty: "encode_payload d \<noteq> []"
  by (cases d) (simp_all add: encode_payload_def w_byte_def)

end
