(* ===== verification/Auth.thy ===== *)
theory Auth
  imports Wire
begin

text \<open>
  Transaction authorizations of \<open>nano-codec\<close>: spending conditions (single signature, multisignature
  and order-independent multisignature), their wire format, and the accounts they name.
\<close>

section \<open>Data\<close>

datatype key_encoding = Compressed | Uncompressed

definition key_encoding_byte :: "key_encoding \<Rightarrow> byte" where
  "key_encoding_byte e = (case e of Compressed \<Rightarrow> 0 | Uncompressed \<Rightarrow> 1)"

definition key_encoding_parse :: "byte \<Rightarrow> codec_error + key_encoding" where
  "key_encoding_parse b = (if b = 0 then Inr Compressed else if b = 1 then Inr Uncompressed
                           else Inl InvalidKey)"

datatype singlesig_hash_mode = SsP2pkh | SsP2wpkh

definition singlesig_byte :: "singlesig_hash_mode \<Rightarrow> byte" where
  "singlesig_byte m = (case m of SsP2pkh \<Rightarrow> 0 | SsP2wpkh \<Rightarrow> 2)"

definition singlesig_parse :: "byte \<Rightarrow> codec_error + singlesig_hash_mode" where
  "singlesig_parse b = (if b = 0 then Inr SsP2pkh else if b = 2 then Inr SsP2wpkh
                        else Inl InvalidCondition)"

datatype multisig_hash_mode = MsP2sh | MsP2wsh

definition multisig_byte :: "multisig_hash_mode \<Rightarrow> byte" where
  "multisig_byte m = (case m of MsP2sh \<Rightarrow> 1 | MsP2wsh \<Rightarrow> 3)"

definition multisig_parse :: "byte \<Rightarrow> codec_error + multisig_hash_mode" where
  "multisig_parse b = (if b = 1 then Inr MsP2sh else if b = 3 then Inr MsP2wsh
                       else Inl InvalidCondition)"

datatype order_independent_hash_mode = OiP2sh | OiP2wsh

definition order_independent_byte :: "order_independent_hash_mode \<Rightarrow> byte" where
  "order_independent_byte m = (case m of OiP2sh \<Rightarrow> 5 | OiP2wsh \<Rightarrow> 7)"

definition order_independent_parse :: "byte \<Rightarrow> codec_error + order_independent_hash_mode" where
  "order_independent_parse b = (if b = 5 then Inr OiP2sh else if b = 7 then Inr OiP2wsh
                                else Inl InvalidCondition)"

datatype auth_field =
    FieldPublicKey key_encoding bytes
  | FieldSignature key_encoding bytes

record singlesig_condition =
  ss_hash_mode :: singlesig_hash_mode
  ss_signer :: bytes
  ss_nonce :: u64
  ss_fee :: u64
  ss_key_encoding :: key_encoding
  ss_signature :: bytes

record multisig_condition =
  ms_hash_mode :: multisig_hash_mode
  ms_signer :: bytes
  ms_nonce :: u64
  ms_fee :: u64
  ms_fields :: "auth_field list"
  ms_signatures_required :: u16

record order_independent_condition =
  oi_hash_mode :: order_independent_hash_mode
  oi_signer :: bytes
  oi_nonce :: u64
  oi_fee :: u64
  oi_fields :: "auth_field list"
  oi_signatures_required :: u16

datatype spending_condition =
    Singlesig singlesig_condition
  | Multisig multisig_condition
  | OrderIndependentMultisig order_independent_condition

datatype transaction_auth =
    AuthStandard spending_condition
  | AuthSponsored spending_condition spending_condition

section \<open>Authorization fields\<close>

definition rd_field :: "auth_field decoder" where
  "rd_field = bind_r rd_byte (\<lambda>tag.
     if tag = 0 then bind_r (rd_take 33) (\<lambda>bs. ret_r (FieldPublicKey Compressed bs))
     else if tag = 1 then bind_r (rd_take 65) (\<lambda>bs. ret_r (FieldPublicKey Uncompressed bs))
     else if tag = 2 then bind_r rd_signature (\<lambda>s. ret_r (FieldSignature Compressed s))
     else if tag = 3 then bind_r rd_signature (\<lambda>s. ret_r (FieldSignature Uncompressed s))
     else err_r InvalidField)"

definition w_field :: "auth_field \<Rightarrow> bytes" where
  "w_field f = (case f of
       FieldPublicKey e bs \<Rightarrow> (case e of Compressed \<Rightarrow> 0 | Uncompressed \<Rightarrow> 1) # bs
     | FieldSignature e s \<Rightarrow> (case e of Compressed \<Rightarrow> 2 | Uncompressed \<Rightarrow> 3) # s)"

definition is_signature_field :: "auth_field \<Rightarrow> bool" where
  "is_signature_field f = (case f of FieldSignature _ _ \<Rightarrow> True | _ \<Rightarrow> False)"

definition signature_count :: "auth_field list \<Rightarrow> nat" where
  "signature_count fs = length (filter is_signature_field fs)"

definition field_encoding :: "auth_field \<Rightarrow> key_encoding" where
  "field_encoding f = (case f of FieldPublicKey e _ \<Rightarrow> e | FieldSignature e _ \<Rightarrow> e)"

definition has_uncompressed :: "auth_field list \<Rightarrow> bool" where
  "has_uncompressed fs = list_ex (\<lambda>f. field_encoding f = Uncompressed) fs"

text \<open>The shape of the fields the decoder produces.\<close>

definition field_ok :: "auth_field \<Rightarrow> bool" where
  "field_ok f = (case f of
       FieldPublicKey e bs \<Rightarrow> length bs = (case e of Compressed \<Rightarrow> 33 | Uncompressed \<Rightarrow> 65)
     | FieldSignature _ s \<Rightarrow> length s = 65)"

section \<open>Spending conditions\<close>

definition decode_fields :: "(bytes \<times> u64 \<times> u64 \<times> auth_field list \<times> u16) decoder" where
  "decode_fields = bind_r rd_hash160 (\<lambda>signer. bind_r rd_u64 (\<lambda>nonce. bind_r rd_u64 (\<lambda>fee.
     bind_r rd_u32 (\<lambda>len.
     bind_r (check_r (\<lambda>r. unat len \<le> rd_remaining r div 34) InvalidLength) (\<lambda>_.
     bind_r (times_r (unat len) rd_field) (\<lambda>flds.
     bind_r rd_u16 (\<lambda>required. ret_r (signer, nonce, fee, flds, required))))))))"

definition decode_multisig :: "multisig_hash_mode \<Rightarrow> multisig_condition decoder" where
  "decode_multisig hash_mode = bind_r decode_fields (\<lambda>(signer, nonce, fee, flds, required).
     bind_r (check_r (\<lambda>_. signature_count flds = unat required) InvalidCondition) (\<lambda>_.
     bind_r (check_r (\<lambda>_. \<not> (hash_mode = MsP2wsh \<and> has_uncompressed flds)) InvalidCondition) (\<lambda>_.
     ret_r \<lparr>ms_hash_mode = hash_mode, ms_signer = signer, ms_nonce = nonce, ms_fee = fee,
            ms_fields = flds, ms_signatures_required = required\<rparr>)))"

definition decode_order_independent ::
  "order_independent_hash_mode \<Rightarrow> order_independent_condition decoder" where
  "decode_order_independent hash_mode = bind_r decode_fields (\<lambda>(signer, nonce, fee, flds, required).
     bind_r (check_r (\<lambda>_. \<not> (signature_count flds < unat required \<or>
                              (hash_mode = OiP2wsh \<and> has_uncompressed flds))) InvalidCondition) (\<lambda>_.
     ret_r \<lparr>oi_hash_mode = hash_mode, oi_signer = signer, oi_nonce = nonce, oi_fee = fee,
            oi_fields = flds, oi_signatures_required = required\<rparr>))"

definition decode_singlesig :: "singlesig_hash_mode \<Rightarrow> singlesig_condition decoder" where
  "decode_singlesig hash_mode = bind_r rd_hash160 (\<lambda>signer. bind_r rd_u64 (\<lambda>nonce.
     bind_r rd_u64 (\<lambda>fee. bind_r rd_byte (\<lambda>b. bind_r (lift_r (key_encoding_parse b)) (\<lambda>key_encoding.
     bind_r (check_r (\<lambda>_. \<not> (hash_mode = SsP2wpkh \<and> key_encoding \<noteq> Compressed)) InvalidCondition) (\<lambda>_.
     bind_r rd_signature (\<lambda>sig.
     ret_r \<lparr>ss_hash_mode = hash_mode, ss_signer = signer, ss_nonce = nonce, ss_fee = fee,
            ss_key_encoding = key_encoding, ss_signature = sig\<rparr>)))))))"

definition decode_condition :: "spending_condition decoder" where
  "decode_condition = bind_r rd_byte (\<lambda>mode.
     if mode \<in> {0, 2} then bind_r (lift_r (singlesig_parse mode)) (\<lambda>m.
       bind_r (decode_singlesig m) (\<lambda>c. ret_r (Singlesig c)))
     else if mode \<in> {1, 3} then bind_r (lift_r (multisig_parse mode)) (\<lambda>m.
       bind_r (decode_multisig m) (\<lambda>c. ret_r (Multisig c)))
     else if mode \<in> {5, 7} then bind_r (lift_r (order_independent_parse mode)) (\<lambda>m.
       bind_r (decode_order_independent m) (\<lambda>c. ret_r (OrderIndependentMultisig c)))
     else err_r InvalidCondition)"

definition encode_fields ::
  "byte \<Rightarrow> bytes \<Rightarrow> u64 \<Rightarrow> u64 \<Rightarrow> auth_field list \<Rightarrow> u16 \<Rightarrow> bytes" where
  "encode_fields hash_mode signer nonce fee flds required =
     w_byte hash_mode @ signer @ u64_to_be nonce @ u64_to_be fee @
     u32_to_be (word_of_nat (length flds)) @ concat (map w_field flds) @ u16_to_be required"

definition encode_condition :: "spending_condition \<Rightarrow> bytes" where
  "encode_condition sc = (case sc of
       Singlesig c \<Rightarrow> w_byte (singlesig_byte (ss_hash_mode c)) @ ss_signer c @
         u64_to_be (ss_nonce c) @ u64_to_be (ss_fee c) @
         w_byte (key_encoding_byte (ss_key_encoding c)) @ ss_signature c
     | Multisig c \<Rightarrow> encode_fields (multisig_byte (ms_hash_mode c)) (ms_signer c) (ms_nonce c)
         (ms_fee c) (ms_fields c) (ms_signatures_required c)
     | OrderIndependentMultisig c \<Rightarrow> encode_fields (order_independent_byte (oi_hash_mode c))
         (oi_signer c) (oi_nonce c) (oi_fee c) (oi_fields c) (oi_signatures_required c))"

definition fields_ok :: "bytes \<Rightarrow> auth_field list \<Rightarrow> bool" where
  "fields_ok signer flds \<longleftrightarrow> length signer = 20 \<and> length flds < 2 ^ 32 \<and> (\<forall>f \<in> set flds. field_ok f)"

definition condition_ok :: "spending_condition \<Rightarrow> bool" where
  "condition_ok sc = (case sc of
       Singlesig c \<Rightarrow> length (ss_signer c) = 20 \<and> length (ss_signature c) = 65 \<and>
         (ss_hash_mode c = SsP2wpkh \<longrightarrow> ss_key_encoding c = Compressed)
     | Multisig c \<Rightarrow> fields_ok (ms_signer c) (ms_fields c) \<and>
         signature_count (ms_fields c) = unat (ms_signatures_required c) \<and>
         (ms_hash_mode c = MsP2wsh \<longrightarrow> \<not> has_uncompressed (ms_fields c))
     | OrderIndependentMultisig c \<Rightarrow> fields_ok (oi_signer c) (oi_fields c) \<and>
         unat (oi_signatures_required c) \<le> signature_count (oi_fields c) \<and>
         (oi_hash_mode c = OiP2wsh \<longrightarrow> \<not> has_uncompressed (oi_fields c)))"

section \<open>Authorizations\<close>

text \<open>\<open>TransactionAuth::decode\<close> makes its own reader and returns the position it stopped at.\<close>

definition decode_auth_r :: "transaction_auth decoder" where
  "decode_auth_r = bind_r rd_byte (\<lambda>tag.
     if tag = 4 then bind_r decode_condition (\<lambda>c. ret_r (AuthStandard c))
     else if tag = 5 then bind_r decode_condition (\<lambda>origin.
       bind_r decode_condition (\<lambda>sponsor. ret_r (AuthSponsored origin sponsor)))
     else err_r InvalidAuth)"

definition decode_auth :: "bytes \<Rightarrow> codec_error + transaction_auth \<times> nat" where
  "decode_auth bs = (case decode_auth_r (rd_new bs) of
       Inl e \<Rightarrow> Inl e | Inr (auth, r) \<Rightarrow> Inr (auth, rd_offset r))"

definition encode_auth :: "transaction_auth \<Rightarrow> bytes" where
  "encode_auth a = (case a of
       AuthStandard c \<Rightarrow> w_byte 4 @ encode_condition c
     | AuthSponsored origin sponsor \<Rightarrow> w_byte 5 @ encode_condition origin @ encode_condition sponsor)"

definition auth_origin :: "transaction_auth \<Rightarrow> spending_condition" where
  "auth_origin a = (case a of AuthStandard origin \<Rightarrow> origin | AuthSponsored origin _ \<Rightarrow> origin)"

definition auth_sponsor :: "transaction_auth \<Rightarrow> spending_condition option" where
  "auth_sponsor a = (case a of AuthStandard _ \<Rightarrow> None | AuthSponsored _ sponsor \<Rightarrow> Some sponsor)"

definition auth_payer :: "transaction_auth \<Rightarrow> spending_condition" where
  "auth_payer a = (case a of AuthStandard origin \<Rightarrow> origin | AuthSponsored _ sponsor \<Rightarrow> sponsor)"

definition auth_ok :: "transaction_auth \<Rightarrow> bool" where
  "auth_ok a = (case a of
       AuthStandard c \<Rightarrow> condition_ok c
     | AuthSponsored origin sponsor \<Rightarrow> condition_ok origin \<and> condition_ok sponsor)"

section \<open>What a condition says of its account\<close>

definition condition_nonce :: "spending_condition \<Rightarrow> u64" where
  "condition_nonce sc = (case sc of Singlesig c \<Rightarrow> ss_nonce c | Multisig c \<Rightarrow> ms_nonce c
                         | OrderIndependentMultisig c \<Rightarrow> oi_nonce c)"

definition condition_fee :: "spending_condition \<Rightarrow> u64" where
  "condition_fee sc = (case sc of Singlesig c \<Rightarrow> ss_fee c | Multisig c \<Rightarrow> ms_fee c
                       | OrderIndependentMultisig c \<Rightarrow> oi_fee c)"

definition account_version :: "bool \<Rightarrow> singlesig_hash_mode option \<Rightarrow> byte" where
  "account_version mainnet singlesig =
     (if singlesig = Some SsP2pkh then (if mainnet then 22 else 26)
      else (if mainnet then 20 else 21))"

definition account_address :: "bool \<Rightarrow> spending_condition \<Rightarrow> stacks_address" where
  "account_address mainnet sc =
     (case sc of
        Singlesig c \<Rightarrow> \<lparr>sa_version = account_version mainnet (Some (ss_hash_mode c)), sa_hash160 = ss_signer c\<rparr>
      | Multisig c \<Rightarrow> \<lparr>sa_version = account_version mainnet None, sa_hash160 = ms_signer c\<rparr>
      | OrderIndependentMultisig c \<Rightarrow> \<lparr>sa_version = account_version mainnet None, sa_hash160 = oi_signer c\<rparr>)"

definition cleared :: "spending_condition \<Rightarrow> spending_condition" where
  "cleared sc = (case sc of
       Singlesig c \<Rightarrow> Singlesig (c\<lparr>ss_nonce := 0, ss_fee := 0, ss_signature := replicate 65 0\<rparr>)
     | Multisig c \<Rightarrow> Multisig (c\<lparr>ms_nonce := 0, ms_fee := 0, ms_fields := []\<rparr>)
     | OrderIndependentMultisig c \<Rightarrow> OrderIndependentMultisig (c\<lparr>oi_nonce := 0, oi_fee := 0, oi_fields := []\<rparr>))"

definition initial_sighash_auth :: "transaction_auth \<Rightarrow> transaction_auth" where
  "initial_sighash_auth a = (case a of
       AuthStandard origin \<Rightarrow> AuthStandard (cleared origin)
     | AuthSponsored origin _ \<Rightarrow> AuthSponsored (cleared origin)
         (Singlesig \<lparr>ss_hash_mode = SsP2pkh, ss_signer = replicate 20 0, ss_nonce = 0, ss_fee = 0,
                     ss_key_encoding = Compressed, ss_signature = replicate 65 0\<rparr>))"

section \<open>The contract\<close>

lemma key_encoding_parse_byte [simp]: "key_encoding_parse (key_encoding_byte e) = Inr e"
  by (cases e) (simp_all add: key_encoding_parse_def key_encoding_byte_def)

lemma key_encoding_parseD: "key_encoding_parse b = Inr e \<Longrightarrow> b = key_encoding_byte e"
  by (auto simp: key_encoding_parse_def key_encoding_byte_def split: if_splits)

lemma hash_mode_bytes [simp]:
  "singlesig_byte m \<in> {0, 2}" "singlesig_parse (singlesig_byte m) = Inr m"
  "multisig_byte m' \<in> {1, 3}" "multisig_parse (multisig_byte m') = Inr m'"
  "order_independent_byte m'' \<in> {5, 7}" "order_independent_parse (order_independent_byte m'') = Inr m''"
  by (cases m; cases m'; cases m'';
      simp add: singlesig_byte_def singlesig_parse_def multisig_byte_def multisig_parse_def
        order_independent_byte_def order_independent_parse_def)+

lemma hash_mode_parseD:
  "singlesig_parse b = Inr m \<Longrightarrow> b = singlesig_byte m"
  "multisig_parse b = Inr m' \<Longrightarrow> b = multisig_byte m'"
  "order_independent_parse b = Inr m'' \<Longrightarrow> b = order_independent_byte m''"
  by (auto simp: singlesig_byte_def singlesig_parse_def multisig_byte_def multisig_parse_def
        order_independent_byte_def order_independent_parse_def split: if_splits)

interpretation field: wire_codec rd_field w_field field_ok
proof
  fix a pre t
  assume "field_ok a" "fits pre (w_field a @ t)"
  then show "rd_field (At pre (w_field a @ t)) = Inr (a, At (pre @ w_field a) t)"
    by (auto simp: rd_field_def w_field_def field_ok_def fits_def rd_take_append signature.dec_enc_len
        split: auth_field.splits key_encoding.splits)
next
  fix pre suf a r'
  assume "rd_field (At pre suf) = Inr (a, r')"
  then show "field_ok a \<and> (\<exists>t. suf = w_field a @ t \<and> r' = At (pre @ w_field a) t)"
    by (auto simp: rd_field_def w_field_def field_ok_def elim!: rd_byteE rd_takeE signature.enc_decE
        split: if_splits)
qed

lemma length_w_field: "field_ok f \<Longrightarrow> 34 \<le> length (w_field f)"
  by (auto simp: field_ok_def w_field_def split: auth_field.splits key_encoding.splits)

definition fields_body :: "bytes \<times> u64 \<times> u64 \<times> auth_field list \<times> u16 \<Rightarrow> bytes" where
  "fields_body = (\<lambda>(signer, nonce, fee, flds, required).
     signer @ u64_to_be nonce @ u64_to_be fee @ u32_to_be (word_of_nat (length flds)) @
     concat (map w_field flds) @ u16_to_be required)"

lemma encode_fields_body:
  "encode_fields m signer nonce fee flds required = m # fields_body (signer, nonce, fee, flds, required)"
  by (simp add: encode_fields_def fields_body_def w_byte_def)

interpretation fields: wire_codec decode_fields fields_body "\<lambda>(signer, _, _, flds, _). fields_ok signer flds"
proof
  fix a :: "bytes \<times> u64 \<times> u64 \<times> auth_field list \<times> u16" and pre t
  obtain signer nonce fee flds required where a: "a = (signer, nonce, fee, flds, required)"
    by (cases a) auto
  assume "case a of (signer, _, _, flds, _) \<Rightarrow> fields_ok signer flds" "fits pre (fields_body a @ t)"
  then have ok: "fields_ok signer flds" and fit: "fits pre (fields_body a @ t)"
    by (simp_all add: a)
  have "34 * length flds \<le> length (concat (map w_field flds))"
    using ok by (intro length_concat_ge) (auto simp: fields_ok_def length_w_field)
  then have "length flds \<le> (length (concat (map w_field flds)) + (length t + 2)) div 34"
    by (simp add: less_eq_div_iff_mult_less_eq)
  then show "decode_fields (At pre (fields_body a @ t)) = Inr (a, At (pre @ fields_body a) t)"
    using ok fit
    by (simp add: a fits_def decode_fields_def fields_body_def fields_ok_def hash160.dec_enc_len
        u64.dec_enc_len u32.dec_enc_len u16.dec_enc_len unat_of_length_u32 field.times_dec_enc)
next
  fix pre suf a r'
  assume "decode_fields (At pre suf) = Inr (a, r')"
  then obtain signer nonce fee flds required n t where
    x: "a = (signer, nonce, fee, flds, required)" and "length signer = 20"
    and n: "length flds = unat n" and ok: "\<forall>f \<in> set flds. field_ok f"
    and suf: "suf = signer @ u64_to_be nonce @ u64_to_be fee @ u32_to_be n @ concat (map w_field flds) @
      u16_to_be required @ t"
    and r': "r' = At (pre @ signer @ u64_to_be nonce @ u64_to_be fee @ u32_to_be n @
      concat (map w_field flds) @ u16_to_be required) t"
    by (auto simp: decode_fields_def elim!: hash160.enc_decE u64.enc_decE u32.enc_decE u16.enc_decE
        field.times_enc_decE)
  moreover have "n = word_of_nat (length flds)" "length flds < 2 ^ 32"
    using n unat_bound [of n] by simp_all
  ultimately show "(case a of (signer, _, _, flds, _) \<Rightarrow> fields_ok signer flds) \<and>
      (\<exists>t. suf = fields_body a @ t \<and> r' = At (pre @ fields_body a) t)"
    by (auto simp: fields_ok_def fields_body_def)
qed

interpretation condition: wire_codec decode_condition encode_condition condition_ok
proof
  fix a pre t
  assume ok: "condition_ok a" and fit: "fits pre (encode_condition a @ t)"
  show "decode_condition (At pre (encode_condition a @ t)) = Inr (a, At (pre @ encode_condition a) t)"
  proof (cases a)
    case (Singlesig c)
    with ok fit hash_mode_bytes(1) [of "ss_hash_mode c"] show ?thesis
      by (auto simp: fits_def decode_condition_def encode_condition_def condition_ok_def w_byte_def
          decode_singlesig_def hash160.dec_enc_len u64.dec_enc_len signature.dec_enc_len)
  next
    case (Multisig c)
    with ok fit hash_mode_bytes(3) [of "ms_hash_mode c"] show ?thesis
      by (auto simp: fits_def decode_condition_def encode_condition_def condition_ok_def
          encode_fields_body decode_multisig_def fields.dec_enc_len)
  next
    case (OrderIndependentMultisig c)
    with ok fit hash_mode_bytes(5) [of "oi_hash_mode c"] show ?thesis
      by (auto simp: fits_def decode_condition_def encode_condition_def condition_ok_def
          encode_fields_body decode_order_independent_def fields.dec_enc_len)
  qed
next
  fix pre suf a r'
  assume run: "decode_condition (At pre suf) = Inr (a, r')"
  then obtain mode s where suf: "suf = mode # s"
    by (auto simp: decode_condition_def elim!: rd_byteE)
  consider "mode \<in> {0, 2}" | "mode \<in> {1, 3}" | "mode \<in> {5, 7}" | "mode \<notin> {0, 1, 2, 3, 5, 7}"
    by auto
  then show "condition_ok a \<and> (\<exists>t. suf = encode_condition a @ t \<and> r' = At (pre @ encode_condition a) t)"
  proof cases
    case 1
    with run suf obtain m c where parse: "singlesig_parse mode = Inr m" and a: "a = Singlesig c"
      and c: "decode_singlesig m (At (pre @ [mode]) s) = Inr (c, r')"
      by (auto simp: decode_condition_def elim!: rd_byteE)
    note m = hash_mode_parseD(1) [OF parse]
    from c show ?thesis
      by (auto simp: decode_singlesig_def a m suf encode_condition_def condition_ok_def w_byte_def
          elim!: hash160.enc_decE u64.enc_decE rd_byteE signature.enc_decE dest!: key_encoding_parseD)
  next
    case 2
    with run suf obtain m c where parse: "multisig_parse mode = Inr m" and a: "a = Multisig c"
      and c: "decode_multisig m (At (pre @ [mode]) s) = Inr (c, r')"
      by (auto simp: decode_condition_def elim!: rd_byteE)
    note m = hash_mode_parseD(2) [OF parse]
    from c show ?thesis
      by (auto simp: decode_multisig_def a m suf encode_condition_def condition_ok_def
          encode_fields_body elim!: fields.enc_decE)
  next
    case 3
    with run suf obtain m c where parse: "order_independent_parse mode = Inr m"
      and a: "a = OrderIndependentMultisig c"
      and c: "decode_order_independent m (At (pre @ [mode]) s) = Inr (c, r')"
      by (auto simp: decode_condition_def elim!: rd_byteE)
    note m = hash_mode_parseD(3) [OF parse]
    from c show ?thesis
      by (auto simp: decode_order_independent_def a m suf encode_condition_def condition_ok_def
          encode_fields_body elim!: fields.enc_decE)
  next
    case 4
    with run suf show ?thesis
      by (auto simp: decode_condition_def elim!: rd_byteE)
  qed
qed

interpretation auth: wire_codec decode_auth_r encode_auth auth_ok
proof
  fix a pre t
  assume "auth_ok a" "fits pre (encode_auth a @ t)"
  then show "decode_auth_r (At pre (encode_auth a @ t)) = Inr (a, At (pre @ encode_auth a) t)"
    by (auto simp: fits_def decode_auth_r_def encode_auth_def auth_ok_def w_byte_def
        condition.dec_enc_len split: transaction_auth.splits)
next
  fix pre suf a r'
  assume "decode_auth_r (At pre suf) = Inr (a, r')"
  then show "auth_ok a \<and> (\<exists>t. suf = encode_auth a @ t \<and> r' = At (pre @ encode_auth a) t)"
    by (auto simp: decode_auth_r_def encode_auth_def auth_ok_def w_byte_def
        elim!: rd_byteE condition.enc_decE split: if_splits)
qed

lemma decode_auth_append:
  "auth_ok a \<Longrightarrow> length (encode_auth a @ t) \<le> usize_max \<Longrightarrow>
    decode_auth (encode_auth a @ t) = Inr (a, length (encode_auth a))"
  by (simp add: decode_auth_def rd_new_At auth.dec_enc_len)

lemma decode_authE:
  assumes "decode_auth bs = Inr (a, n)"
  obtains t where "bs = encode_auth a @ t" and "n = length (encode_auth a)" and "auth_ok a"
  using assms by (auto simp: decode_auth_def rd_new_At split: sum.splits elim!: auth.enc_decE)

text \<open>The address constructor accepts every version and signer of an account, so the \<open>expect\<close> of
  \<open>account_address\<close> never fires.\<close>

lemma account_address_new:
  assumes "condition_ok sc"
  shows "stacks_address_new (sa_version (account_address mainnet sc)) (sa_hash160 (account_address mainnet sc))
    = Inr (account_address mainnet sc)"
  by (auto simp: stacks_address_new_def account_address_def account_version_def split: spending_condition.splits)

lemma account_address_ok: "condition_ok sc \<Longrightarrow> sa_ok (account_address mainnet sc)"
  by (auto simp: condition_ok_def account_address_def account_version_def sa_ok_def fields_ok_def
      split: spending_condition.splits)

end
