(* ===== verification/Transaction.thy ===== *)
theory Transaction
  imports Payload Auth
begin

text \<open>
  Whole transactions: \<open>Transaction::decode\<close>, \<open>encode\<close>, the transaction identifier and the addresses a
  transaction names. The hash \<open>sha512_256\<close> is a parameter.
\<close>

section \<open>Data\<close>

datatype transaction_version = TxMainnet | TxTestnet

definition version_for_network :: "network \<Rightarrow> transaction_version" where
  "version_for_network n = (if net_mainnet n then TxMainnet else TxTestnet)"

definition version_parse :: "byte \<Rightarrow> transaction_version" where
  "version_parse b = (if and b 0x80 = 0 then TxMainnet else TxTestnet)"

definition version_byte :: "transaction_version \<Rightarrow> byte" where
  "version_byte v = (case v of TxMainnet \<Rightarrow> 0 | TxTestnet \<Rightarrow> 0x80)"

datatype anchor_mode = OnChainOnly | OffChainOnly | AnchorAny

definition anchor_mode_parse :: "byte \<Rightarrow> codec_error + anchor_mode" where
  "anchor_mode_parse b = (if b = 1 then Inr OnChainOnly else if b = 2 then Inr OffChainOnly
     else if b = 3 then Inr AnchorAny else Inl InvalidTransaction)"

definition anchor_mode_byte :: "anchor_mode \<Rightarrow> byte" where
  "anchor_mode_byte m = (case m of OnChainOnly \<Rightarrow> 1 | OffChainOnly \<Rightarrow> 2 | AnchorAny \<Rightarrow> 3)"

datatype post_condition_mode = PcmDeny | PcmAllow | PcmOriginator

definition pc_mode_parse :: "byte \<Rightarrow> codec_error + post_condition_mode" where
  "pc_mode_parse b = (if b = 1 then Inr PcmAllow else if b = 2 then Inr PcmDeny
     else if b = 3 then Inr PcmOriginator else Inl InvalidTransaction)"

definition pc_mode_byte :: "post_condition_mode \<Rightarrow> byte" where
  "pc_mode_byte m = (case m of PcmAllow \<Rightarrow> 1 | PcmDeny \<Rightarrow> 2 | PcmOriginator \<Rightarrow> 3)"

record post_condition =
  pc_data :: post_condition_data
  pc_bytes :: bytes

record transaction_payload =
  tp_data :: transaction_payload_data
  tp_bytes :: bytes

definition payload_new :: "transaction_payload_data \<Rightarrow> transaction_payload" where
  "payload_new d = \<lparr>tp_data = d, tp_bytes = encode_payload d\<rparr>"

record transaction =
  tx_bytes :: bytes
  tx_version :: transaction_version
  tx_chain_id :: u32
  tx_auth :: transaction_auth
  tx_anchor_mode :: anchor_mode
  tx_post_condition_mode :: post_condition_mode
  tx_post_conditions :: "post_condition list"
  tx_payload :: transaction_payload

definition transaction_new ::
  "transaction_version \<Rightarrow> transaction_auth \<Rightarrow> transaction_payload_data \<Rightarrow> transaction" where
  "transaction_new version auth payload =
     \<lparr>tx_bytes = [], tx_version = version, tx_chain_id = 0, tx_auth = auth,
      tx_anchor_mode = AnchorAny, tx_post_condition_mode = PcmDeny, tx_post_conditions = [],
      tx_payload = payload_new payload\<rparr>"

section \<open>Encoding\<close>

definition encode_transaction :: "transaction \<Rightarrow> bytes" where
  "encode_transaction tx = w_byte (version_byte (tx_version tx)) @ u32_to_be (tx_chain_id tx) @
     encode_auth (tx_auth tx) @ w_byte (anchor_mode_byte (tx_anchor_mode tx)) @
     w_byte (pc_mode_byte (tx_post_condition_mode tx)) @
     u32_to_be (word_of_nat (length (tx_post_conditions tx))) @
     concat (map (\<lambda>pc. encode_post_condition (pc_data pc)) (tx_post_conditions tx)) @
     encode_payload (tp_data (tx_payload tx))"

definition txid :: "(bytes \<Rightarrow> bytes) \<Rightarrow> transaction \<Rightarrow> bytes" where
  "txid sha512_256 tx =
     (if tx_bytes tx = [] then sha512_256 (encode_transaction tx) else sha512_256 (tx_bytes tx))"

section \<open>Decoding\<close>

text \<open>The authorization is decoded by its own reader over the rest of the input; the transaction's
  reader then skips the bytes it used.\<close>

definition read_auth :: "transaction_auth decoder" where
  "read_auth r = (case decode_auth (drop (rd_offset r) (rd_bytes r)) of
       Inl e \<Rightarrow> Inl e
     | Inr (auth, auth_length) \<Rightarrow> bind_r (rd_take auth_length) (\<lambda>_. ret_r auth) r)"

definition read_post_condition_entry :: "post_condition decoder" where
  "read_post_condition_entry = bind_r (spanned_r read_post_condition) (\<lambda>(d, bs).
     ret_r \<lparr>pc_data = d, pc_bytes = bs\<rparr>)"

definition must_be_anchored :: "transaction_payload_data \<Rightarrow> bool" where
  "must_be_anchored d = (case d of
       Coinbase _ \<Rightarrow> True | CoinbaseToAltRecipient _ _ \<Rightarrow> True | NakamotoCoinbase _ _ _ \<Rightarrow> True
     | PoisonMicroblock _ _ \<Rightarrow> True | _ \<Rightarrow> False)"

text \<open>The decoded transaction caches the bytes it was read from with a canonical version byte.\<close>

definition canonical_bytes :: "transaction_version \<Rightarrow> reader \<Rightarrow> bytes" where
  "canonical_bytes version r = (take (rd_offset r) (rd_bytes r))[0 := version_byte version]"

definition read_transaction :: "(bytes \<Rightarrow> bool) \<Rightarrow> transaction decoder" where
  "read_transaction vrf_ok = bind_r rd_byte (\<lambda>v. bind_r rd_u32 (\<lambda>chain_id. bind_r read_auth (\<lambda>auth.
     bind_r rd_byte (\<lambda>a. bind_r (lift_r (anchor_mode_parse a)) (\<lambda>anchor_mode.
     bind_r rd_byte (\<lambda>m. bind_r (lift_r (pc_mode_parse m)) (\<lambda>pc_mode.
     bind_r rd_u32 (\<lambda>count.
     bind_r (check_r (\<lambda>r. unat count \<le> rd_remaining r div 11) InvalidLength) (\<lambda>_.
     bind_r (times_r (unat count) read_post_condition_entry) (\<lambda>post_conditions.
     bind_r (spanned_r (read_payload vrf_ok)) (\<lambda>(payload, payload_bytes).
     bind_r (check_r (\<lambda>_. \<not> (anchor_mode \<noteq> OnChainOnly \<and> must_be_anchored payload)) InvalidTransaction) (\<lambda>_.
     (\<lambda>r. Inr (\<lparr>tx_bytes = canonical_bytes (version_parse v) r,
                tx_version = version_parse v, tx_chain_id = chain_id, tx_auth = auth,
                tx_anchor_mode = anchor_mode, tx_post_condition_mode = pc_mode,
                tx_post_conditions = post_conditions,
                tx_payload = \<lparr>tp_data = payload, tp_bytes = payload_bytes\<rparr>\<rparr>, r))))))))))))))"

definition decode_transaction ::
  "(bytes \<Rightarrow> bool) \<Rightarrow> bytes \<Rightarrow> codec_error + transaction \<times> nat" where
  "decode_transaction vrf_ok bs = (case read_transaction vrf_ok (rd_new bs) of
       Inl e \<Rightarrow> Inl e | Inr (tx, r) \<Rightarrow> Inr (tx, rd_offset r))"

section \<open>Addresses\<close>

definition origin_address :: "transaction \<Rightarrow> stacks_address" where
  "origin_address tx = account_address (tx_version tx = TxMainnet) (auth_origin (tx_auth tx))"

definition sponsor_address :: "transaction \<Rightarrow> stacks_address option" where
  "sponsor_address tx = map_option (account_address (tx_version tx = TxMainnet)) (auth_sponsor (tx_auth tx))"

section \<open>Well-formed transactions\<close>

definition tx_ok :: "(bytes \<Rightarrow> bool) \<Rightarrow> transaction \<Rightarrow> bool" where
  "tx_ok vrf_ok tx \<longleftrightarrow> auth_ok (tx_auth tx) \<and>
     length (tx_post_conditions tx) < 2 ^ 32 \<and>
     (\<forall>pc \<in> set (tx_post_conditions tx).
        post_condition_ok (pc_data pc) \<and> pc_bytes pc = encode_post_condition (pc_data pc)) \<and>
     payload_ok vrf_ok (tp_data (tx_payload tx)) \<and>
     tp_bytes (tx_payload tx) = encode_payload (tp_data (tx_payload tx)) \<and>
     (must_be_anchored (tp_data (tx_payload tx)) \<longrightarrow> tx_anchor_mode tx = OnChainOnly) \<and>
     tx_bytes tx = encode_transaction tx"

text \<open>The bytes that follow the post-condition count, and the decoder's guard on that count.\<close>

definition encode_tail :: "transaction \<Rightarrow> bytes" where
  "encode_tail tx = concat (map (\<lambda>pc. encode_post_condition (pc_data pc)) (tx_post_conditions tx)) @
     encode_payload (tp_data (tx_payload tx))"

definition count_guard :: "transaction \<Rightarrow> bytes \<Rightarrow> bool" where
  "count_guard tx rest \<longleftrightarrow> 11 * length (tx_post_conditions tx) \<le> length (encode_tail tx @ rest)"

section \<open>Decoding inverts encoding\<close>

lemma canonical_bytes_At [simp]:
  "canonical_bytes version (At pre suf) = pre[0 := version_byte version]"
  by (simp add: canonical_bytes_def)

lemma version_parse_byte [simp]: "version_parse (version_byte v) = v"
  by (cases v) (simp_all add: version_parse_def version_byte_def)

lemma anchor_mode_parse_byte [simp]: "anchor_mode_parse (anchor_mode_byte m) = Inr m"
  by (cases m) (simp_all add: anchor_mode_parse_def anchor_mode_byte_def)

lemma pc_mode_parse_byte [simp]: "pc_mode_parse (pc_mode_byte m) = Inr m"
  by (cases m) (simp_all add: pc_mode_parse_def pc_mode_byte_def)

lemma anchor_mode_parseD: "anchor_mode_parse b = Inr m \<Longrightarrow> b = anchor_mode_byte m"
  by (auto simp: anchor_mode_parse_def anchor_mode_byte_def split: if_splits)

lemma pc_mode_parseD: "pc_mode_parse b = Inr m \<Longrightarrow> b = pc_mode_byte m"
  by (auto simp: pc_mode_parse_def pc_mode_byte_def split: if_splits)

interpretation auth_span: wire_codec read_auth encode_auth auth_ok
proof
  fix a pre t
  assume "auth_ok a" "fits pre (encode_auth a @ t)"
  then show "read_auth (At pre (encode_auth a @ t)) = Inr (a, At (pre @ encode_auth a) t)"
    by (simp add: fits_def read_auth_def decode_auth_append rd_take_append)
next
  fix pre suf a r'
  assume "read_auth (At pre suf) = Inr (a, r')"
  then obtain n where n: "decode_auth suf = Inr (a, n)"
    and take: "bind_r (rd_take n) (\<lambda>_. ret_r a) (At pre suf) = Inr (a, r')"
    by (auto simp: read_auth_def split: sum.splits)
  from n obtain t where t: "suf = encode_auth a @ t" "n = length (encode_auth a)" "auth_ok a"
    by (rule decode_authE)
  with take show "auth_ok a \<and> (\<exists>t. suf = encode_auth a @ t \<and> r' = At (pre @ encode_auth a) t)"
    by (auto elim!: rd_takeE simp: append_eq_append_conv)
qed

interpretation post_condition_entry: wire_codec read_post_condition_entry
  "\<lambda>pc. encode_post_condition (pc_data pc)"
  "\<lambda>pc. post_condition_ok (pc_data pc) \<and> pc_bytes pc = encode_post_condition (pc_data pc)"
proof
  fix a :: post_condition and pre t
  assume "post_condition_ok (pc_data a) \<and> pc_bytes a = encode_post_condition (pc_data a)"
    and "fits pre (encode_post_condition (pc_data a) @ t)"
  moreover have "a = \<lparr>pc_data = pc_data a, pc_bytes = pc_bytes a\<rparr>" by simp
  ultimately show "read_post_condition_entry (At pre (encode_post_condition (pc_data a) @ t))
      = Inr (a, At (pre @ encode_post_condition (pc_data a)) t)"
    by (simp add: fits_def read_post_condition_entry_def post_condition.spanned_dec_enc)
qed (auto simp: read_post_condition_entry_def elim!: post_condition.spanned_enc_decE)

lemma count_guard_div:
  "count_guard tx t \<longleftrightarrow> length (tx_post_conditions tx) \<le>
     (length (concat (map (\<lambda>pc. encode_post_condition (pc_data pc)) (tx_post_conditions tx))) +
      (length (encode_payload (tp_data (tx_payload tx))) + length t)) div 11"
  by (simp add: count_guard_def encode_tail_def less_eq_div_iff_mult_less_eq mult.commute)

lemma tx_eta:
  assumes "tx_ok vrf_ok tx"
  shows "\<lparr>tx_bytes = encode_transaction tx, tx_version = tx_version tx, tx_chain_id = tx_chain_id tx,
      tx_auth = tx_auth tx, tx_anchor_mode = tx_anchor_mode tx,
      tx_post_condition_mode = tx_post_condition_mode tx, tx_post_conditions = tx_post_conditions tx,
      tx_payload = \<lparr>tp_data = tp_data (tx_payload tx), tp_bytes = encode_payload (tp_data (tx_payload tx))\<rparr>\<rparr>
    = tx"
proof -
  have "\<lparr>tp_data = tp_data p, tp_bytes = tp_bytes p\<rparr> = p" for p :: transaction_payload
    by simp
  with assms show ?thesis
    by (metis tx_ok_def transaction.surjective old.unit.exhaust)
qed

text \<open>Any version byte with the right network bit reads the same transaction.\<close>

lemma read_transaction_forward:
  assumes ok: "tx_ok vrf_ok tx" and fit: "length (encode_transaction tx @ t) \<le> usize_max"
    and v: "version_parse v = tx_version tx"
  shows "read_transaction vrf_ok (At [] (v # tl (encode_transaction tx) @ t)) =
    (if count_guard tx t then Inr (tx, At (v # tl (encode_transaction tx)) t) else Inl InvalidLength)"
proof -
  note laws = u32.dec_enc_len auth_span.dec_enc_len post_condition_entry.times_dec_enc
    payload.spanned_dec_enc unat_of_length_u32
  have anchored: "tx_anchor_mode tx = OnChainOnly \<or> \<not> must_be_anchored (tp_data (tx_payload tx))"
    using ok by (auto simp: tx_ok_def)
  note parts = ok [unfolded tx_ok_def] fit [unfolded encode_transaction_def]
  show ?thesis
  proof (cases "count_guard tx t")
    case True
    then show ?thesis
      using parts tx_eta [OF ok, unfolded encode_transaction_def]
      by (simp add: read_transaction_def encode_transaction_def w_byte_def laws count_guard_div anchored v)
  next
    case False
    then show ?thesis
      using parts
      by (simp add: read_transaction_def encode_transaction_def w_byte_def laws count_guard_div)
  qed
qed

text \<open>What a successful decode has read: the encoding of its result, up to the unused bits of the
  version byte.\<close>

lemma read_transaction_backward:
  assumes "read_transaction vrf_ok (At [] suf) = Inr (tx, r')"
  shows "tx_ok vrf_ok tx \<and> (\<exists>v t. suf = v # tl (encode_transaction tx) @ t \<and>
    version_parse v = tx_version tx \<and> r' = At (v # tl (encode_transaction tx)) t \<and> count_guard tx t)"
proof -
  let ?pcs = "\<lambda>pcs. concat (map (\<lambda>pc. encode_post_condition (pc_data pc)) pcs)"
  let ?head = "\<lambda>v chain_id auth anchor pc_mode n. v # u32_to_be chain_id @ encode_auth auth @
    [anchor_mode_byte anchor] @ [pc_mode_byte pc_mode] @ u32_to_be n"
  let ?read_tail = "\<lambda>v chain_id auth anchor pc_mode n.
    bind_r (times_r (unat n) read_post_condition_entry) (\<lambda>pcs.
    bind_r (spanned_r (read_payload vrf_ok)) (\<lambda>(payload, payload_bytes).
    bind_r (check_r (\<lambda>_. \<not> (anchor \<noteq> OnChainOnly \<and> must_be_anchored payload)) InvalidTransaction) (\<lambda>_.
    (\<lambda>r. Inr (\<lparr>tx_bytes = canonical_bytes (version_parse v) r,
                tx_version = version_parse v, tx_chain_id = chain_id, tx_auth = auth,
                tx_anchor_mode = anchor, tx_post_condition_mode = pc_mode, tx_post_conditions = pcs,
                tx_payload = \<lparr>tp_data = payload, tp_bytes = payload_bytes\<rparr>\<rparr>, r)))))"
  from assms obtain v chain_id auth anchor pc_mode n t0 where
    suf: "suf = ?head v chain_id auth anchor pc_mode n @ t0"
    and auth: "auth_ok auth" and guard: "unat n \<le> length t0 div 11"
    and tail: "?read_tail v chain_id auth anchor pc_mode n (At (?head v chain_id auth anchor pc_mode n) t0) = Inr (tx, r')"
    unfolding read_transaction_def
    by (elim byte.bind_enc_decE u32.bind_enc_decE auth_span.bind_enc_decE bind_lift_rE bind_check_rE)
       (drule anchor_mode_parseD, drule pc_mode_parseD,
        simp only: append.simps append_assoc w_byte_def rd_remaining_At)
  from tail obtain pcs payload t where
    t0: "t0 = ?pcs pcs @ encode_payload payload @ t"
    and r': "r' = At (?head v chain_id auth anchor pc_mode n @ ?pcs pcs @ encode_payload payload) t"
    and n: "length pcs = unat n" and payload: "payload_ok vrf_ok payload"
    and pcs: "\<forall>pc \<in> set pcs. post_condition_ok (pc_data pc) \<and> pc_bytes pc = encode_post_condition (pc_data pc)"
    and anchored: "\<not> (anchor \<noteq> OnChainOnly \<and> must_be_anchored payload)"
    and tx: "tx = \<lparr>tx_bytes = (?head v chain_id auth anchor pc_mode n @ ?pcs pcs @ encode_payload payload)
        [0 := version_byte (version_parse v)],
      tx_version = version_parse v, tx_chain_id = chain_id, tx_auth = auth, tx_anchor_mode = anchor,
      tx_post_condition_mode = pc_mode, tx_post_conditions = pcs,
      tx_payload = \<lparr>tp_data = payload, tp_bytes = encode_payload payload\<rparr>\<rparr>"
    by (elim post_condition_entry.bind_times_enc_decE payload.bind_spanned_enc_decE)
       (simp only: prod.case, elim bind_check_rE,
        simp only: append_assoc canonical_bytes_At sum.inject prod.inject, metis)
  have count: "n = word_of_nat (length pcs)" "length pcs < 2 ^ 32"
    using n unat_bound [of n] by simp_all
  have enc: "encode_transaction tx = (?head v chain_id auth anchor pc_mode n @ ?pcs pcs @ encode_payload payload)
      [0 := version_byte (version_parse v)]"
    by (simp add: tx encode_transaction_def w_byte_def count)
  have "tx_ok vrf_ok tx"
    unfolding tx_ok_def enc using auth payload pcs anchored count by (auto simp: tx)
  moreover have "suf = v # tl (encode_transaction tx) @ t" "r' = At (v # tl (encode_transaction tx)) t"
    using suf t0 r' by (simp_all add: enc)
  moreover have "version_parse v = tx_version tx" "count_guard tx t"
    using guard n t0 by (simp_all add: tx count_guard_div)
  ultimately show ?thesis by blast
qed

section \<open>Transactions on the wire\<close>

lemma encode_transaction_nonempty [simp]: "encode_transaction tx \<noteq> []"
  by (simp add: encode_transaction_def w_byte_def)

lemma hd_encode_transaction [simp]: "hd (encode_transaction tx) = version_byte (tx_version tx)"
  by (simp add: encode_transaction_def w_byte_def)

lemma decode_transactionE:
  assumes "decode_transaction vrf_ok bs = Inr (tx, n)"
  obtains v t where "bs = v # tl (encode_transaction tx) @ t" and "version_parse v = tx_version tx"
    and "n = length (encode_transaction tx)" and "tx_ok vrf_ok tx" and "count_guard tx t"
proof -
  from assms obtain r' where "read_transaction vrf_ok (At [] bs) = Inr (tx, r')" and n: "n = rd_offset r'"
    by (auto simp: decode_transaction_def rd_new_At split: sum.splits)
  from read_transaction_backward [OF this(1)] obtain v t where
    "tx_ok vrf_ok tx" "bs = v # tl (encode_transaction tx) @ t" "version_parse v = tx_version tx"
    "r' = At (v # tl (encode_transaction tx)) t" "count_guard tx t"
    by blast
  with n that show thesis by simp
qed

text \<open>C26: a transaction that \<open>Transaction::decode\<close> accepts is well formed in every part, the length it
  reports is the length of its own encoding and lies within the input, and the bytes it caches are
  that encoding: the consumed input with nothing but the version byte canonicalized.\<close>

theorem decode_transaction_sound:
  assumes "decode_transaction vrf_ok bs = Inr (tx, n)"
  shows "tx_ok vrf_ok tx \<and> n = length (encode_transaction tx) \<and> n \<le> length bs \<and>
    tx_bytes tx = encode_transaction tx \<and> tx_version tx = version_parse (hd bs) \<and>
    tx_bytes tx = (take n bs)[0 := version_byte (tx_version tx)]"
proof -
  from assms obtain v t where *: "bs = v # tl (encode_transaction tx) @ t"
    "version_parse v = tx_version tx" "n = length (encode_transaction tx)" "tx_ok vrf_ok tx"
    by (rule decode_transactionE)
  have "encode_transaction tx = version_byte (tx_version tx) # tl (encode_transaction tx)"
    by (simp add: encode_transaction_def w_byte_def)
  with * show ?thesis
    by (cases "encode_transaction tx") (auto simp: tx_ok_def)
qed

lemma decode_transaction_wire:
  assumes "tx_ok vrf_ok tx" and "length (encode_transaction tx @ t) \<le> usize_max"
    and "version_parse v = tx_version tx"
  shows "decode_transaction vrf_ok (v # tl (encode_transaction tx) @ t) =
    (if count_guard tx t then Inr (tx, length (encode_transaction tx)) else Inl InvalidLength)"
  using read_transaction_forward [OF assms] by (simp add: decode_transaction_def rd_new_At)

lemma decode_encode_transaction_guarded:
  assumes "tx_ok vrf_ok tx" and "length (encode_transaction tx @ t) \<le> usize_max"
  shows "decode_transaction vrf_ok (encode_transaction tx @ t) =
    (if count_guard tx t then Inr (tx, length (encode_transaction tx)) else Inl InvalidLength)"
  using decode_transaction_wire [OF assms version_parse_byte]
  by (simp add: encode_transaction_def w_byte_def)

text \<open>C1: the inputs \<open>Transaction::decode\<close> accepts, exactly: a byte with the network bit of the
  transaction, the rest of the canonical encoding of a well-formed transaction, and any suffix, long
  enough together for the guard on the post-condition count.\<close>

theorem decode_transaction_iff:
  assumes "length bs \<le> usize_max"
  shows "decode_transaction vrf_ok bs = Inr (tx, n) \<longleftrightarrow>
    tx_ok vrf_ok tx \<and> n = length (encode_transaction tx) \<and>
    (\<exists>v t. bs = v # tl (encode_transaction tx) @ t \<and> version_parse v = tx_version tx \<and> count_guard tx t)"
    (is "?l \<longleftrightarrow> ?r")
proof
  assume ?l
  then show ?r by (rule decode_transactionE) auto
next
  assume ?r
  then obtain v t where bs: "bs = v # tl (encode_transaction tx) @ t" "version_parse v = tx_version tx"
    and "count_guard tx t" "tx_ok vrf_ok tx" "n = length (encode_transaction tx)"
    by blast
  moreover have "length (encode_transaction tx @ t) \<le> usize_max"
    using assms bs by (cases "encode_transaction tx") auto
  ultimately show ?l by (simp add: decode_transaction_wire)
qed


text \<open>The guard assumes eleven bytes per post-condition. Only the proof-of-transfer condition is
  shorter, and only for the origin.\<close>

lemma post_condition_length:
  assumes "post_condition_ok d" and "\<forall>c. d \<noteq> PcdPox PcOrigin c"
  shows "11 \<le> length (encode_post_condition d)"
  using assms
  by (cases d)
     (auto simp: post_condition_ok_def encode_post_condition_def encode_post_condition_principal_def
       w_byte_def encode_fungible_condition_def encode_asset_info_def w_address_def
       asset_info_ok_def pc_principal_ok_def sa_ok_def split: post_condition_principal.splits)

lemma count_guard_no_pox:
  assumes "tx_ok vrf_ok tx" and "\<forall>pc \<in> set (tx_post_conditions tx). \<forall>c. pc_data pc \<noteq> PcdPox PcOrigin c"
  shows "count_guard tx t"
proof -
  have "\<forall>pc \<in> set (tx_post_conditions tx). 11 \<le> length (encode_post_condition (pc_data pc))"
    using assms post_condition_length unfolding tx_ok_def by blast
  from length_concat_ge [OF this] show ?thesis
    by (simp add: count_guard_def encode_tail_def)
qed

text \<open>C33: every well-formed transaction without a proof-of-transfer post-condition on the origin
  survives the round trip through the wire.\<close>

theorem transaction_roundtrip:
  assumes "tx_ok vrf_ok tx" and "length (encode_transaction tx @ t) \<le> usize_max"
    and "\<forall>pc \<in> set (tx_post_conditions tx). \<forall>c. pc_data pc \<noteq> PcdPox PcOrigin c"
  shows "decode_transaction vrf_ok (encode_transaction tx @ t) = Inr (tx, length (encode_transaction tx))"
  using decode_encode_transaction_guarded [OF assms(1,2)] count_guard_no_pox [OF assms(1,3)] by simp

section \<open>Transaction ids\<close>

lemma version_byte_inject [simp]: "version_byte v = version_byte w \<longleftrightarrow> v = w"
  by (metis version_parse_byte)

lemma anchor_mode_byte_inject [simp]: "anchor_mode_byte m = anchor_mode_byte n \<longleftrightarrow> m = n"
  by (metis anchor_mode_parse_byte sum.inject(2))

lemma pc_mode_byte_inject [simp]: "pc_mode_byte m = pc_mode_byte n \<longleftrightarrow> m = n"
  by (metis pc_mode_parse_byte sum.inject(2))

text \<open>The parts of a transaction other than the authorization and the cached bytes.\<close>

definition tx_body_ok :: "(bytes \<Rightarrow> bool) \<Rightarrow> transaction \<Rightarrow> bool" where
  "tx_body_ok vrf_ok tx \<longleftrightarrow> length (tx_post_conditions tx) < 2 ^ 32 \<and>
     (\<forall>pc \<in> set (tx_post_conditions tx).
        post_condition_ok (pc_data pc) \<and> pc_bytes pc = encode_post_condition (pc_data pc)) \<and>
     payload_ok vrf_ok (tp_data (tx_payload tx)) \<and>
     tp_bytes (tx_payload tx) = encode_payload (tp_data (tx_payload tx))"

lemma tx_ok_body: "tx_ok vrf_ok tx \<Longrightarrow> tx_body_ok vrf_ok tx"
  by (simp add: tx_ok_def tx_body_ok_def)

lemma encode_transaction_parts:
  assumes ok: "tx_body_ok vrf_ok a" "tx_body_ok vrf_ok b"
    and eq: "encode_transaction a @ s = encode_transaction b @ t"
    and fit: "length (encode_transaction a @ s) \<le> usize_max"
    and auth: "\<And>x y. encode_auth (tx_auth a) @ x = encode_auth (tx_auth b) @ y \<Longrightarrow>
      length (encode_auth (tx_auth a) @ x) \<le> usize_max \<Longrightarrow> tx_auth a = tx_auth b \<and> x = y"
  shows "s = t \<and> a\<lparr>tx_bytes := []\<rparr> = b\<lparr>tx_bytes := []\<rparr>"
proof -
  let ?pcs = "\<lambda>x. concat (map (\<lambda>pc. encode_post_condition (pc_data pc)) (tx_post_conditions x))"
  let ?count = "\<lambda>x. u32_to_be (word_of_nat (length (tx_post_conditions x)))"
  let ?tail = "\<lambda>x r. ?pcs x @ encode_payload (tp_data (tx_payload x)) @ r"
  let ?modes = "\<lambda>x r. anchor_mode_byte (tx_anchor_mode x) # pc_mode_byte (tx_post_condition_mode x) # ?count x @ ?tail x r"
  let ?auth = "\<lambda>x r. encode_auth (tx_auth x) @ ?modes x r"
  have enc: "encode_transaction x @ r = version_byte (tx_version x) # u32_to_be (tx_chain_id x) @ ?auth x r" for x r
    by (simp add: encode_transaction_def w_byte_def)
  have fit1: "length (?auth a s) \<le> usize_max"
    using fit unfolding enc by simp
  have chain: "tx_version a = tx_version b" "u32_to_be (tx_chain_id a) = u32_to_be (tx_chain_id b)"
    and 1: "?auth a s = ?auth b t"
    using eq unfolding enc by (simp_all del: append_assoc)
  have auth: "tx_auth a = tx_auth b" and 2: "?modes a s = ?modes b t"
    using auth [OF 1 fit1] by simp_all
  have modes: "tx_anchor_mode a = tx_anchor_mode b" "tx_post_condition_mode a = tx_post_condition_mode b"
    and "?count a = ?count b" and 3: "?tail a s = ?tail b t"
    using 2 by (simp_all del: append_assoc)
  then have count: "length (tx_post_conditions a) = length (tx_post_conditions b)"
    using ok unfolding tx_body_ok_def by (metis u32_from_to_be unat_of_length_u32)
  have pcs: "tx_post_conditions a = tx_post_conditions b"
    and 4: "encode_payload (tp_data (tx_payload a)) @ s = encode_payload (tp_data (tx_payload b)) @ t"
    using post_condition_entry.times_enc_unique [OF _ _ count 3] fit1 ok by (simp_all add: tx_body_ok_def)
  have "tp_data (tx_payload a) = tp_data (tx_payload b)" and st: "s = t"
    using payload.enc_unique [of vrf_ok, OF _ _ 4] fit1 ok by (simp_all add: tx_body_ok_def)
  then have "tx_payload a = tx_payload b"
    using ok unfolding tx_body_ok_def by simp
  moreover have "tx_chain_id a = tx_chain_id b"
    using chain(2) by (metis u32_from_to_be)
  ultimately show ?thesis
    using chain(1) auth modes pcs st by simp
qed

lemma encode_transaction_unique:
  assumes ok: "tx_ok vrf_ok a" "tx_ok vrf_ok b"
    and eq: "encode_transaction a @ s = encode_transaction b @ t"
    and fit: "length (encode_transaction a @ s) \<le> usize_max"
  shows "a = b \<and> s = t"
proof -
  have "s = t" "a\<lparr>tx_bytes := []\<rparr> = b\<lparr>tx_bytes := []\<rparr>"
    using encode_transaction_parts [OF ok [THEN tx_ok_body] eq fit] auth_span.enc_unique ok
    unfolding tx_ok_def by blast+
  moreover from this eq ok have "tx_bytes a = tx_bytes b" by (simp add: tx_ok_def)
  moreover have "x = x\<lparr>tx_bytes := []\<rparr>\<lparr>tx_bytes := tx_bytes x\<rparr>" for x :: transaction by simp
  ultimately show ?thesis by metis
qed

text \<open>C34: the transaction id commits to the whole transaction. Two different well-formed transactions
  with the same id are two different byte strings with the same hash.\<close>

theorem txid_binds:
  assumes "tx_ok vrf_ok a" "tx_ok vrf_ok b" "length (encode_transaction a) \<le> usize_max"
    and "txid sha512_256 a = txid sha512_256 b" and "a \<noteq> b"
  shows "encode_transaction a \<noteq> encode_transaction b \<and>
    sha512_256 (encode_transaction a) = sha512_256 (encode_transaction b)"
proof -
  have "encode_transaction a \<noteq> encode_transaction b"
    using encode_transaction_unique [of vrf_ok a b "[]" "[]"] assms by auto
  moreover have "txid sha512_256 x = sha512_256 (encode_transaction x)" if "tx_ok vrf_ok x" for x
    using that by (simp add: txid_def tx_ok_def)
  ultimately show ?thesis using assms by simp
qed

section \<open>Concrete transactions\<close>

text \<open>A coinbase of a single-signature account, with a chain id and a list of post-conditions.\<close>

definition sample_transaction :: "u32 \<Rightarrow> post_condition_data list \<Rightarrow> transaction" where
  "sample_transaction chain_id pcs =
     (let tx = \<lparr>tx_bytes = [], tx_version = TxMainnet, tx_chain_id = chain_id,
            tx_auth = AuthStandard (Singlesig \<lparr>ss_hash_mode = SsP2pkh, ss_signer = replicate 20 1, ss_nonce = 0,
              ss_fee = 180, ss_key_encoding = Compressed, ss_signature = replicate 65 0\<rparr>),
            tx_anchor_mode = OnChainOnly, tx_post_condition_mode = PcmDeny,
            tx_post_conditions = map (\<lambda>d. \<lparr>pc_data = d, pc_bytes = encode_post_condition d\<rparr>) pcs,
            tx_payload = payload_new (Coinbase (replicate 32 0))\<rparr>
      in tx \<lparr>tx_bytes := encode_transaction tx\<rparr>)"

lemma encode_transaction_bytes [simp]: "encode_transaction (tx \<lparr>tx_bytes := bs\<rparr>) = encode_transaction tx"
  by (simp add: encode_transaction_def)

lemma sample_transaction_simps [simp]:
  "tx_version (sample_transaction c pcs) = TxMainnet"
  "tx_chain_id (sample_transaction c pcs) = c"
  "length (tx_post_conditions (sample_transaction c pcs)) = length pcs"
  "set (tx_post_conditions (sample_transaction c pcs)) =
     (\<lambda>d. \<lparr>pc_data = d, pc_bytes = encode_post_condition d\<rparr>) ` set pcs"
  by (simp_all add: sample_transaction_def Let_def)

lemma sample_transaction_ok:
  "length pcs < 2 ^ 32 \<Longrightarrow> list_all post_condition_ok pcs \<Longrightarrow> tx_ok vrf_ok (sample_transaction c pcs)"
  by (auto simp: sample_transaction_def Let_def tx_ok_def auth_ok_def condition_ok_def payload_ok_def
      payload_new_def must_be_anchored_def list_all_iff encode_transaction_def)

lemma length_sample_transaction:
  "length (encode_transaction (sample_transaction c pcs)) = 148 + length (concat (map encode_post_condition pcs))"
  by (simp add: sample_transaction_def Let_def encode_transaction_def encode_auth_def encode_condition_def
      w_byte_def payload_new_def encode_payload_def comp_def)

lemma sample_transaction_guard:
  "count_guard (sample_transaction c pcs) t \<longleftrightarrow>
     11 * length pcs \<le> length (concat (map encode_post_condition pcs)) + (33 + length t)"
  by (simp add: count_guard_def encode_tail_def sample_transaction_def Let_def payload_new_def
      encode_payload_def w_byte_def comp_def)

lemma decode_sample_transaction:
  assumes "length pcs < 2 ^ 32" "list_all post_condition_ok pcs"
    and "148 + length (concat (map encode_post_condition pcs)) + length t \<le> usize_max"
  shows "decode_transaction vrf_ok (encode_transaction (sample_transaction c pcs) @ t) =
    (if 11 * length pcs \<le> length (concat (map encode_post_condition pcs)) + (33 + length t)
     then Inr (sample_transaction c pcs, 148 + length (concat (map encode_post_condition pcs)))
     else Inl InvalidLength)"
  using decode_encode_transaction_guarded [OF sample_transaction_ok [OF assms(1,2)], of c t] assms(3)
  by (simp add: length_sample_transaction sample_transaction_guard)

theorem decode_transaction_sound_witness:
  "decode_transaction (\<lambda>_. True) (encode_transaction (sample_transaction 1 []) @ [7]) =
     Inr (sample_transaction 1 [], 148) \<and>
   tx_bytes (sample_transaction 1 []) =
     (take 148 (encode_transaction (sample_transaction 1 []) @ [7]))[0 := version_byte TxMainnet]"
proof -
  have *: "decode_transaction (\<lambda>_. True) (encode_transaction (sample_transaction 1 []) @ [7]) =
     Inr (sample_transaction 1 [], 148)"
    by (simp add: decode_sample_transaction usize_max_def)
  show ?thesis using decode_transaction_sound [OF *] * unfolding sample_transaction_simps by blast
qed

theorem decode_transaction_iff_witness:
  "length (5 # tl (encode_transaction (sample_transaction 1 []))) \<le> usize_max \<and>
   decode_transaction (\<lambda>_. True) (5 # tl (encode_transaction (sample_transaction 1 []))) =
     Inr (sample_transaction 1 [], 148)"
proof -
  let ?bs = "5 # tl (encode_transaction (sample_transaction 1 []))"
  have fit: "length ?bs \<le> usize_max"
    by (simp add: length_sample_transaction usize_max_def)
  have v: "version_parse 5 = tx_version (sample_transaction 1 [])"
    by (simp add: version_parse_def)
  have "tx_ok (\<lambda>_. True) (sample_transaction 1 [])" "count_guard (sample_transaction 1 []) []"
    by (simp_all add: sample_transaction_ok sample_transaction_guard)
  then show ?thesis
    using decode_transaction_iff [OF fit, of "\<lambda>_. True" "sample_transaction 1 []" 148] fit v
    by (metis append_Nil2 length_sample_transaction list.map(1) concat.simps(1) list.size(3) add_0_right)
qed


theorem transaction_roundtrip_witness:
  "decode_transaction (\<lambda>_. True) (encode_transaction (sample_transaction 1 [PcdStx PcOrigin SentEqual 9]) @ [7])
     = Inr (sample_transaction 1 [PcdStx PcOrigin SentEqual 9],
        length (encode_transaction (sample_transaction 1 [PcdStx PcOrigin SentEqual 9])))"
  by (rule transaction_roundtrip)
     (simp_all add: sample_transaction_ok length_sample_transaction usize_max_def post_condition_ok_def
       pc_principal_ok_def encode_post_condition_def encode_post_condition_principal_def w_byte_def
       encode_fungible_condition_def)

theorem txid_binds_witness:
  "encode_transaction (sample_transaction 1 []) \<noteq> encode_transaction (sample_transaction 2 []) \<and>
   txid (\<lambda>_. replicate 32 0) (sample_transaction 1 []) = txid (\<lambda>_. replicate 32 0) (sample_transaction 2 [])"
proof -
  have "sample_transaction 1 [] \<noteq> sample_transaction 2 []"
  proof
    assume "sample_transaction 1 [] = sample_transaction 2 []"
    then have "tx_chain_id (sample_transaction 1 []) = tx_chain_id (sample_transaction 2 [])" by simp
    then show False by simp
  qed
  moreover have "txid (\<lambda>_. replicate 32 0) x = replicate 32 0" for x
    by (simp add: txid_def)
  ultimately show ?thesis
    using txid_binds [of "\<lambda>_. True" "sample_transaction 1 []" "sample_transaction 2 []" "\<lambda>_. replicate 32 0"]
    by (simp add: sample_transaction_ok length_sample_transaction usize_max_def)
qed


end
