(* ===== verification/Merkle.thy ===== *)
theory Merkle
  imports Transaction
begin

text \<open>
  The tagged Merkle root that a block header commits to (\<open>transaction_merkle_root\<close> of the crate
  \<open>nano-codec\<close>). The hash is a parameter. Besides the root, the inputs given to the hash are collected,
  so that two different transaction lists with one root yield a collision among the inputs that were
  really hashed.
\<close>

section \<open>The root\<close>

definition tagged_hash :: "(bytes \<Rightarrow> bytes) \<Rightarrow> byte \<Rightarrow> bytes \<Rightarrow> bytes" where
  "tagged_hash sha512_256 tag data = sha512_256 (tag # data)"

text \<open>An odd level repeats its last hash.\<close>

definition pad_level :: "'a list \<Rightarrow> 'a list" where
  "pad_level level = (if odd (length level) then level @ [last level] else level)"

text \<open>\<open>chunks_exact(2)\<close> and the hash of each pair.\<close>

fun hash_pairs :: "(bytes \<Rightarrow> bytes) \<Rightarrow> bytes list \<Rightarrow> bytes list" where
  "hash_pairs h (a # b # level) = tagged_hash h 1 (a @ b) # hash_pairs h level"
| "hash_pairs h level = []"

lemma length_hash_pairs [simp]: "length (hash_pairs h level) = length level div 2"
  by (induction h level rule: hash_pairs.induct) simp_all

lemma length_pad_level [simp]: "length (pad_level level) = 2 * ((length level + 1) div 2)"
  by (auto simp: pad_level_def elim!: oddE)

function merkle_levels :: "(bytes \<Rightarrow> bytes) \<Rightarrow> bytes list \<Rightarrow> bytes" where
  "merkle_levels h level = (if 1 < length level then merkle_levels h (hash_pairs h (pad_level level)) else level ! 0)"
  by pat_completeness auto

termination
  by (relation "measure (\<lambda>(_, level). length level)") auto

declare merkle_levels.simps [simp del]

definition transaction_merkle_root :: "(bytes \<Rightarrow> bytes) \<Rightarrow> transaction list \<Rightarrow> bytes" where
  "transaction_merkle_root sha512_256 transactions = (if transactions = [] then replicate 32 0
     else merkle_levels sha512_256
       (pad_level (map (\<lambda>tx. tagged_hash sha512_256 0 (txid sha512_256 tx)) transactions)))"

section \<open>Repeating the last transaction\<close>

lemma pad_level_snoc: "odd (length level) \<Longrightarrow> pad_level (level @ [last level]) = pad_level level"
  by (auto simp: pad_level_def)

text \<open>The root does not determine the number of transactions. For an odd number of transactions,
  repeating the last one leaves the root unchanged.\<close>

theorem merkle_root_repeats_last:
  assumes "odd (length transactions)"
  shows "transaction_merkle_root h (transactions @ [last transactions]) = transaction_merkle_root h transactions"
proof -
  let ?leaf = "\<lambda>tx. tagged_hash h 0 (txid h tx)"
  from assms have "transactions \<noteq> []" by auto
  with pad_level_snoc [of "map ?leaf transactions"] assms show ?thesis
    by (simp add: transaction_merkle_root_def last_map)
qed

theorem merkle_root_repeats_last_witness:
  "transaction_merkle_root (\<lambda>bs. replicate 32 0) [sample_transaction 1 [], sample_transaction 1 []] =
   transaction_merkle_root (\<lambda>bs. replicate 32 0) [sample_transaction 1 []]"
  using merkle_root_repeats_last [of "[sample_transaction 1 []]"] by simp

section \<open>Binding\<close>

text \<open>The inputs hashed for a level and everything above it, and for a block's transactions.\<close>

fun pair_inputs :: "bytes list \<Rightarrow> bytes list" where
  "pair_inputs (a # b # level) = (1 # a @ b) # pair_inputs level"
| "pair_inputs level = []"

function level_inputs :: "(bytes \<Rightarrow> bytes) \<Rightarrow> bytes list \<Rightarrow> bytes list" where
  "level_inputs h level = (if 1 < length level
     then pair_inputs (pad_level level) @ level_inputs h (hash_pairs h (pad_level level)) else [])"
  by pat_completeness auto

termination
  by (relation "measure (\<lambda>(_, level). length level)") auto

declare level_inputs.simps [simp del]

definition merkle_inputs :: "(bytes \<Rightarrow> bytes) \<Rightarrow> transaction list \<Rightarrow> bytes list" where
  "merkle_inputs h transactions = map (\<lambda>tx. 0 # txid h tx) transactions @
     level_inputs h (pad_level (map (\<lambda>tx. tagged_hash h 0 (txid h tx)) transactions))"

definition collision :: "('a \<Rightarrow> 'b) \<Rightarrow> 'a set \<Rightarrow> bool" where
  "collision h X \<longleftrightarrow> (\<exists>x \<in> X. \<exists>y \<in> X. x \<noteq> y \<and> h x = h y)"

lemma collision_mono: "collision h X \<Longrightarrow> X \<subseteq> Y \<Longrightarrow> collision h Y"
  by (auto simp: collision_def)

lemma hash_pairs_binds:
  assumes "length l = length m" "even (length l)" "\<forall>x \<in> set l \<union> set m. length x = 32"
    and "hash_pairs h l = hash_pairs h m" "l \<noteq> m"
  shows "collision h (set (pair_inputs l) \<union> set (pair_inputs m))"
  using assms
proof (induction h l arbitrary: m rule: hash_pairs.induct)
  case (1 h a b l)
  then obtain c d m' where m: "m = c # d # m'"
    by (cases m; cases "tl m") auto
  show ?case
  proof (cases "l = m'")
    case True
    with 1 m have "h (1 # a @ b) = h (1 # c @ d)" "a @ b \<noteq> c @ d"
      by (auto simp: tagged_hash_def)
    then show ?thesis by (auto simp: m collision_def)
  next
    case False
    with 1 m have "collision h (set (pair_inputs l) \<union> set (pair_inputs m'))"
      by (intro 1(1)) auto
    then show ?thesis by (rule collision_mono) (auto simp: m)
  qed
qed auto

lemma hash_pairs_digests:
  "\<forall>x. length (h x) = 32 \<Longrightarrow> x \<in> set (hash_pairs h l) \<Longrightarrow> length x = 32"
  by (induction h l rule: hash_pairs.induct) (auto simp: tagged_hash_def)

lemma set_pad_level: "level \<noteq> [] \<Longrightarrow> set (pad_level level) = set level"
  by (auto simp: pad_level_def)

lemma pad_level_inject: "length l = length m \<Longrightarrow> pad_level l = pad_level m \<Longrightarrow> l = m"
  by (auto simp: pad_level_def split: if_splits)

lemma merkle_levels_binds:
  assumes "\<forall>x. length (h x) = 32" "length l = length m" "l \<noteq> []" "\<forall>x \<in> set l \<union> set m. length x = 32"
    and "merkle_levels h l = merkle_levels h m" "l \<noteq> m"
  shows "collision h (set (level_inputs h l) \<union> set (level_inputs h m))"
  using assms
proof (induction h l arbitrary: m rule: merkle_levels.induct)
  case (1 h l)
  show ?case
  proof (cases "1 < length l")
    case True
    let ?pl = "pad_level l" and ?pm = "pad_level m"
    have inputs: "level_inputs h l = pair_inputs ?pl @ level_inputs h (hash_pairs h ?pl)"
      "level_inputs h m = pair_inputs ?pm @ level_inputs h (hash_pairs h ?pm)"
      using True 1(3) by (simp_all add: level_inputs.simps [of h l] level_inputs.simps [of h m])
    have sets: "\<forall>x \<in> set ?pl \<union> set ?pm. length x = 32"
      using 1(3,4,5) set_pad_level by (metis length_0_conv)
    show ?thesis
    proof (cases "hash_pairs h ?pl = hash_pairs h ?pm")
      case eq: True
      have "collision h (set (pair_inputs ?pl) \<union> set (pair_inputs ?pm))"
        using 1(3,7) sets eq pad_level_inject by (intro hash_pairs_binds) auto
      then show ?thesis by (rule collision_mono) (auto simp: inputs)
    next
      case False
      have "collision h (set (level_inputs h (hash_pairs h ?pl)) \<union> set (level_inputs h (hash_pairs h ?pm)))"
        using 1(2,3,6) True False hash_pairs_digests
        by (intro 1(1)) (auto simp: merkle_levels.simps [of h l] merkle_levels.simps [of h m] simp flip: length_greater_0_conv)
      then show ?thesis by (rule collision_mono) (auto simp: inputs)
    qed
  next
    case False
    with 1 show ?thesis
      by (cases l; cases m) (auto simp: merkle_levels.simps)
  qed
qed

lemma collisionI: "x \<in> X \<Longrightarrow> y \<in> X \<Longrightarrow> x \<noteq> y \<Longrightarrow> h x = h y \<Longrightarrow> collision h X"
  by (auto simp: collision_def)

lemma leaves_distinct:
  assumes "distinct (map (txid h) txs)"
  shows "distinct (map (\<lambda>tx. tagged_hash h 0 (txid h tx)) txs) \<or> collision h (set (map (\<lambda>tx. 0 # txid h tx) txs))"
  using assms
proof (induction txs)
  case (Cons tx txs)
  show ?case
  proof (cases "tagged_hash h 0 (txid h tx) \<in> (\<lambda>tx. tagged_hash h 0 (txid h tx)) ` set txs")
    case True
    then obtain tx' where "tx' \<in> set txs" "h (0 # txid h tx) = h (0 # txid h tx')"
      by (auto simp: tagged_hash_def)
    with Cons show ?thesis by (intro disjI2 collisionI [of "0 # txid h tx" _ "0 # txid h tx'"]) auto
  next
    case False
    with Cons collision_mono [of h "set (map (\<lambda>tx. 0 # txid h tx) txs)"] show ?thesis by auto
  qed
qed simp

lemma leaves_inject:
  assumes "map (\<lambda>tx. tagged_hash h 0 (txid h tx)) txs = map (\<lambda>tx. tagged_hash h 0 (txid h tx)) txs'"
    and "map (txid h) txs \<noteq> map (txid h) txs'"
  shows "collision h (set (map (\<lambda>tx. 0 # txid h tx) txs) \<union> set (map (\<lambda>tx. 0 # txid h tx) txs'))"
  using assms
proof (induction txs txs' rule: list_induct2')
  case (4 tx txs tx' txs')
  show ?case
  proof (cases "txid h tx = txid h tx'")
    case True
    with 4 have "collision h (set (map (\<lambda>tx. 0 # txid h tx) txs) \<union> set (map (\<lambda>tx. 0 # txid h tx) txs'))" by simp
    then show ?thesis by (rule collision_mono) auto
  next
    case False
    with 4(2) show ?thesis
      by (intro collisionI [of "0 # txid h tx" _ "0 # txid h tx'"]) (auto simp: tagged_hash_def)
  qed
qed auto

text \<open>For a fixed number of transactions the root commits to every transaction id. Two lists of
  equal length with one root and different ids make two different inputs with the same hash, both among
  the inputs hashed for the two roots.\<close>

theorem merkle_root_binds:
  assumes digest: "\<forall>x. length (h x) = 32" and len: "length txs = length txs'"
    and root: "transaction_merkle_root h txs = transaction_merkle_root h txs'"
    and neq: "map (txid h) txs \<noteq> map (txid h) txs'"
  shows "collision h (set (merkle_inputs h txs) \<union> set (merkle_inputs h txs'))"
proof -
  let ?leaf = "\<lambda>tx. tagged_hash h 0 (txid h tx)"
  from neq len have ne: "txs \<noteq> []" "txs' \<noteq> []" by auto
  show ?thesis
  proof (cases "map ?leaf txs = map ?leaf txs'")
    case True
    from leaves_inject [OF this neq] show ?thesis by (rule collision_mono) (auto simp: merkle_inputs_def)
  next
    case False
    have "collision h (set (level_inputs h (pad_level (map ?leaf txs))) \<union>
        set (level_inputs h (pad_level (map ?leaf txs'))))"
    proof (rule merkle_levels_binds [OF digest])
      show "pad_level (map ?leaf txs) \<noteq> pad_level (map ?leaf txs')"
        using False len pad_level_inject by (metis length_map)
      show "merkle_levels h (pad_level (map ?leaf txs)) = merkle_levels h (pad_level (map ?leaf txs'))"
        using root ne by (simp add: transaction_merkle_root_def)
      show "pad_level (map ?leaf txs) \<noteq> []"
        using ne by (simp add: pad_level_def)
      show "\<forall>x \<in> set (pad_level (map ?leaf txs)) \<union> set (pad_level (map ?leaf txs')). length x = 32"
        using digest ne by (auto simp: set_pad_level tagged_hash_def)
    qed (simp add: len)
    then show ?thesis by (rule collision_mono) (auto simp: merkle_inputs_def)
  qed
qed

text \<open>A hash that keeps a byte of the chain id of a transaction and maps everything else to one digest.\<close>

definition chain_id_hash :: "bytes \<Rightarrow> bytes" where
  "chain_id_hash bs = (if length bs = 148 then replicate 32 (bs ! 4) else replicate 32 0)"

lemma be_bytes_last: "be_bytes (Suc n) v ! n = word_of_nat (v mod 256)"
  by (simp add: nth_append)

lemma Suc_3_eq_4: "Suc 3 = 4"
  by simp

lemma txid_chain_id_hash:
  "txid chain_id_hash (sample_transaction c []) = replicate 32 (word_of_nat (unat c mod 256))"
proof -
  have bytes: "tx_bytes (sample_transaction c []) = encode_transaction (sample_transaction c [])"
    using sample_transaction_ok [of "[]" "\<lambda>_. True" c] by (simp add: tx_ok_def)
  have "encode_transaction (sample_transaction c []) ! 4 = u32_to_be c ! 3"
    by (simp add: encode_transaction_def w_byte_def nth_append)
  moreover have "u32_to_be c ! 3 = word_of_nat (unat c mod 256)"
    using be_bytes_last [of 3 "unat c"] unfolding u32_to_be_def Suc_3_eq_4 .
  ultimately show ?thesis
    unfolding txid_def bytes by (simp add: chain_id_hash_def length_sample_transaction)
qed

theorem merkle_root_binds_witness:
  "collision chain_id_hash (set (merkle_inputs chain_id_hash [sample_transaction 1 []]) \<union>
      set (merkle_inputs chain_id_hash [sample_transaction 2 []]))"
proof -
  have "map (txid chain_id_hash) [sample_transaction 1 []] \<noteq> map (txid chain_id_hash) [sample_transaction 2 []]"
    by (simp add: txid_chain_id_hash)
  moreover have "transaction_merkle_root chain_id_hash [sample_transaction 1 []] =
      transaction_merkle_root chain_id_hash [sample_transaction 2 []]"
    by (simp add: transaction_merkle_root_def tagged_hash_def txid_chain_id_hash chain_id_hash_def)
  ultimately show ?thesis
    by (intro merkle_root_binds) (simp_all add: chain_id_hash_def)
qed

section \<open>Blocks without repeated transactions\<close>

text \<open>A block decoder that refuses repeated transactions closes the gap. For lists of distinct ids the
  root determines the number of transactions as well. One round of the loop and the number of rounds:\<close>

definition merkle_step :: "(bytes \<Rightarrow> bytes) \<Rightarrow> bytes list \<Rightarrow> bytes list" where
  "merkle_step h level = hash_pairs h (pad_level level)"

lemma length_merkle_step [simp]: "length (merkle_step h level) = (length level + 1) div 2"
  by (simp add: merkle_step_def)

function merkle_depth :: "(bytes \<Rightarrow> bytes) \<Rightarrow> bytes list \<Rightarrow> nat" where
  "merkle_depth h level = (if 1 < length level then Suc (merkle_depth h (merkle_step h level)) else 0)"
  by pat_completeness auto

termination
  by (relation "measure (\<lambda>(_, level). length level)") auto

declare merkle_depth.simps [simp del]

lemma merkle_levels_step: "1 < length level \<Longrightarrow> merkle_levels h level = merkle_levels h (merkle_step h level)"
  by (simp add: merkle_levels.simps [of h level] merkle_step_def)

lemma merkle_step_nonempty: "level \<noteq> [] \<Longrightarrow> merkle_step h level \<noteq> []"
  by (simp flip: length_greater_0_conv)

fun evens :: "'a list \<Rightarrow> 'a list" where
  "evens (a # b # xs) = a # evens xs"
| "evens xs = xs"

lemma set_evens: "set (evens xs) \<subseteq> set xs"
  by (induction xs rule: evens.induct) auto

lemma distinct_evens: "distinct xs \<Longrightarrow> distinct (evens xs)"
  by (induction xs rule: evens.induct) (auto dest: subsetD [OF set_evens])

lemma evens_snoc: "odd (length xs) \<Longrightarrow> evens (xs @ [x]) = evens xs"
  by (induction xs rule: evens.induct) auto

lemma evens_pad_level: "distinct level \<Longrightarrow> distinct (evens (pad_level level))"
  by (simp add: pad_level_def evens_snoc distinct_evens)

lemma pair_inputs_hash: "set (hash_pairs h l) = h ` set (pair_inputs l)"
  by (induction h l rule: hash_pairs.induct) (auto simp: tagged_hash_def)

lemma pair_inputs_fst: "even (length l) \<Longrightarrow> 1 # a @ b \<in> set (pair_inputs l) \<Longrightarrow> \<forall>x \<in> set l. length x = length a \<Longrightarrow>
    a \<in> set (evens l)"
  by (induction l rule: pair_inputs.induct) auto

lemma pair_inputs_split: "x \<in> set (pair_inputs l) \<Longrightarrow> \<exists>a b. x = 1 # a @ b \<and> a \<in> set l \<and> b \<in> set l"
  by (induction l rule: pair_inputs.induct) auto

lemma hash_pairs_distinct:
  assumes "even (length l)" "\<forall>x \<in> set l. length x = 32" "distinct (evens l)"
  shows "distinct (hash_pairs h l) \<or> collision h (set (pair_inputs l))"
  using assms
proof (induction h l rule: hash_pairs.induct)
  case (1 h a b l)
  then have IH: "distinct (hash_pairs h l) \<or> collision h (set (pair_inputs l))" by auto
  show ?case
  proof (cases "tagged_hash h 1 (a @ b) \<in> set (hash_pairs h l)")
    case True
    then obtain x where x: "x \<in> set (pair_inputs l)" "h x = h (1 # a @ b)"
      by (auto simp: pair_inputs_hash tagged_hash_def)
    then obtain c d where "x = 1 # c @ d" "c \<in> set l" "d \<in> set l"
      using pair_inputs_split by blast
    with x 1(2-4) pair_inputs_fst [of l c d] have "x \<noteq> 1 # a @ b" by auto
    with x show ?thesis by (auto simp: collision_def)
  next
    case False
    with IH show ?thesis by (auto simp: collision_def)
  qed
qed auto

abbreviation digests :: "bytes list \<Rightarrow> bool" where
  "digests level \<equiv> (\<forall>x \<in> set level. length x = 32)"

definition step_inputs :: "bytes list \<Rightarrow> bytes set" where
  "step_inputs level = set (pair_inputs (pad_level level))"

lemma step_distinct:
  assumes "distinct level" "digests level" "level \<noteq> []"
  shows "distinct (merkle_step h level) \<or> collision h (step_inputs level)"
  using assms hash_pairs_distinct [of "pad_level level" h] evens_pad_level [OF assms(1)]
  by (simp add: merkle_step_def step_inputs_def set_pad_level)

lemma step_digests: "\<forall>x. length (h x) = 32 \<Longrightarrow> digests (merkle_step h level)"
  using hash_pairs_digests by (simp add: merkle_step_def)

lemma pad_level_distinct_inject:
  assumes "distinct l" "distinct m" "l \<noteq> []" "m \<noteq> []" "pad_level l = pad_level m"
  shows "l = m"
  using assms by (auto simp: pad_level_def split: if_splits)

lemma step_inject:
  assumes "distinct l" "distinct m" "l \<noteq> []" "m \<noteq> []" "digests l" "digests m"
    and "merkle_step h l = merkle_step h m" "l \<noteq> m"
  shows "collision h (step_inputs l \<union> step_inputs m)"
proof -
  have "length (merkle_step h l) = length (merkle_step h m)" using assms(7) by simp
  then have "length (pad_level l) = length (pad_level m)" by simp
  moreover have "pad_level l \<noteq> pad_level m" using assms pad_level_distinct_inject by blast
  ultimately show ?thesis
    using assms(3-7) hash_pairs_binds [of "pad_level l" "pad_level m" h]
    by (simp add: merkle_step_def step_inputs_def set_pad_level ball_Un)
qed

lemma level_inputs_step:
  "1 < length level \<Longrightarrow> set (level_inputs h level) = step_inputs level \<union> set (level_inputs h (merkle_step h level))"
  by (subst level_inputs.simps) (simp add: step_inputs_def merkle_step_def)

text \<open>Levels of equal depth with one root agree, or the hash collides.\<close>

lemma equal_depth_binds:
  assumes "\<forall>x. length (h x) = 32" "merkle_depth h l = merkle_depth h m" "l \<noteq> []" "m \<noteq> []" "distinct l" "distinct m"
    "digests l" "digests m" "merkle_levels h l = merkle_levels h m"
  shows "l = m \<or> collision h (set (level_inputs h l) \<union> set (level_inputs h m))"
  using assms
proof (induction "merkle_depth h l" arbitrary: l m)
  case 0
  then have "\<not> 1 < length l" "\<not> 1 < length m"
    by (auto simp: merkle_depth.simps split: if_splits)
  with 0 obtain a b where "l = [a]" "m = [b]" by (cases l; cases m) auto
  with 0 show ?case by (simp add: merkle_levels.simps)
next
  case (Suc d)
  let ?l = "merkle_step h l" and ?m = "merkle_step h m"
  have len: "1 < length l" "1 < length m"
    using Suc by (auto simp: merkle_depth.simps [of h l] merkle_depth.simps [of h m] split: if_splits)
  note inputs = level_inputs_step [OF len(1)] level_inputs_step [OF len(2)]
  have depth: "d = merkle_depth h ?l" "merkle_depth h ?l = merkle_depth h ?m"
    using Suc(2,4) len by (simp_all add: merkle_depth.simps [of h l] merkle_depth.simps [of h m])
  show ?case
  proof (cases "distinct ?l \<and> distinct ?m")
    case True
    with Suc depth len have "?l = ?m \<or> collision h (set (level_inputs h ?l) \<union> set (level_inputs h ?m))"
      using merkle_levels_step merkle_step_nonempty step_digests by (intro Suc(1)) auto
    moreover have "?l = ?m \<Longrightarrow> l = m \<or> collision h (step_inputs l \<union> step_inputs m)"
      using Suc step_inject by blast
    ultimately show ?thesis
      using collision_mono [of h _ "set (level_inputs h l) \<union> set (level_inputs h m)"] inputs by blast
  next
    case False
    then have "collision h (step_inputs l) \<or> collision h (step_inputs m)"
      using Suc step_distinct by blast
    then show ?thesis
      using collision_mono [of h _ "set (level_inputs h l) \<union> set (level_inputs h m)"] inputs by blast
  qed
qed

text \<open>A level some rounds above a deeper one.\<close>

lemma merkle_steps_up:
  assumes digest: "\<forall>x. length (h x) = 32" and "merkle_depth h m = d + k" "m \<noteq> []" "digests m"
  defines "m' \<equiv> (merkle_step h ^^ k) m"
  shows "merkle_depth h m' = d \<and> merkle_levels h m' = merkle_levels h m \<and> m' \<noteq> [] \<and> digests m' \<and>
    set (level_inputs h m') \<subseteq> set (level_inputs h m) \<and>
    (0 < k \<longrightarrow> (\<forall>x \<in> set m'. \<exists>y. 1 # y \<in> set (level_inputs h m) \<and> x = h (1 # y)))"
  using assms(2-4) unfolding m'_def
proof (induction k arbitrary: m)
  case (Suc k)
  let ?m = "merkle_step h m" and ?m' = "(merkle_step h ^^ k) (merkle_step h m)"
  have len: "1 < length m"
    using Suc(2) by (auto simp: merkle_depth.simps [of h m] split: if_splits)
  note inputs = level_inputs_step [OF len, of h]
  have depth: "merkle_depth h ?m = d + k"
    using Suc(2) len by (simp add: merkle_depth.simps [of h m])
  note IH = Suc.IH [OF depth merkle_step_nonempty [OF Suc(3)] step_digests [OF digest]]
  have "k = 0 \<Longrightarrow> \<forall>x \<in> set ?m'. \<exists>y. 1 # y \<in> set (level_inputs h m) \<and> x = h (1 # y)"
    using pair_inputs_split inputs by (fastforce simp: merkle_step_def pair_inputs_hash step_inputs_def)
  moreover have "0 < k \<Longrightarrow> \<forall>x \<in> set ?m'. \<exists>y. 1 # y \<in> set (level_inputs h m) \<and> x = h (1 # y)"
    using IH inputs by fastforce
  ultimately have "\<forall>x \<in> set ?m'. \<exists>y. 1 # y \<in> set (level_inputs h m) \<and> x = h (1 # y)" by blast
  moreover have "(merkle_step h ^^ Suc k) m = ?m'" by (simp add: funpow_swap1)
  ultimately show ?case
    using IH inputs merkle_levels_step [OF len, of h] by auto
qed auto

lemma merkle_steps_distinct:
  assumes "\<forall>x. length (h x) = 32" "merkle_depth h m = d + k" "m \<noteq> []" "digests m" "distinct m"
  shows "distinct ((merkle_step h ^^ k) m) \<or> collision h (set (level_inputs h m))"
  using assms
proof (induction k arbitrary: m)
  case (Suc k)
  have len: "1 < length m"
    using Suc(3) by (auto simp: merkle_depth.simps [of h m] split: if_splits)
  have sub: "step_inputs m \<subseteq> set (level_inputs h m)"
    "set (level_inputs h (merkle_step h m)) \<subseteq> set (level_inputs h m)"
    using level_inputs_step [OF len, of h] by auto
  have depth: "merkle_depth h (merkle_step h m) = d + k"
    using Suc(3) len by (simp add: merkle_depth.simps [of h m])
  consider "distinct (merkle_step h m)" | "collision h (step_inputs m)"
    using Suc step_distinct by blast
  then show ?case
  proof cases
    case 1
    from Suc.IH [OF Suc(2) depth merkle_step_nonempty [OF Suc(4)] step_digests [OF Suc(2)] 1] show ?thesis
      using collision_mono sub(2) by (auto simp: funpow_swap1)
  qed (use collision_mono sub(1) in blast)
qed auto

text \<open>The inputs hashed above a list of leaves, the leaves' own inputs excepted.\<close>

definition tree_inputs :: "(bytes \<Rightarrow> bytes) \<Rightarrow> bytes list \<Rightarrow> bytes set" where
  "tree_inputs h leaves = step_inputs leaves \<union> set (level_inputs h (merkle_step h leaves))"

lemma pad_level_idem [simp]: "pad_level (pad_level level) = pad_level level"
  by (simp add: pad_level_def)

lemma merkle_step_pad [simp]: "merkle_step h (pad_level level) = merkle_step h level"
  by (simp add: merkle_step_def)

lemma length_pad_level_gt: "level \<noteq> [] \<Longrightarrow> 1 < length (pad_level level)"
  by (cases level) auto

lemma tree_inputs_pad: "leaves \<noteq> [] \<Longrightarrow> set (level_inputs h (pad_level leaves)) = tree_inputs h leaves"
  using level_inputs_step [OF length_pad_level_gt, of leaves h] by (simp add: tree_inputs_def step_inputs_def)

lemma tree_inputs_levels: "1 < length leaves \<Longrightarrow> tree_inputs h leaves = set (level_inputs h leaves)"
  by (simp add: tree_inputs_def level_inputs_step)

lemma merkle_root_tree:
  "leaves \<noteq> [] \<Longrightarrow> merkle_levels h (pad_level leaves) = merkle_levels h (merkle_step h leaves)"
  using merkle_levels_step [OF length_pad_level_gt, of leaves h] by simp

text \<open>The level of a deep tree that has the height of a shallow one.\<close>

lemma deep_level:
  assumes digest: "\<forall>x. length (h x) = 32" and m: "m \<noteq> []" "digests m" "distinct m"
    and depth: "merkle_depth h (merkle_step h m) = d + k"
  defines "m' \<equiv> (merkle_step h ^^ k) m"
  shows "m' \<noteq> [] \<and> digests m' \<and> step_inputs m' \<subseteq> tree_inputs h m \<and>
    (distinct m' \<or> collision h (tree_inputs h m)) \<and>
    (0 < k \<longrightarrow> (\<forall>x \<in> set m'. \<exists>y. 1 # y \<in> tree_inputs h m \<and> x = h (1 # y)))"
proof (cases "k = 0")
  case True
  with m show ?thesis by (simp add: m'_def tree_inputs_def)
next
  case False
  then have "1 < length (merkle_step h m)"
    using depth by (auto simp: merkle_depth.simps [of h "merkle_step h m"] split: if_splits)
  then have len: "1 < length m" by simp
  have depth': "merkle_depth h m = Suc d + k"
    using depth len by (simp add: merkle_depth.simps [of h m])
  note up = merkle_steps_up [OF digest depth' m(1,2), folded m'_def]
  have "1 < length m'"
    using up by (auto simp: merkle_depth.simps [of h m'] split: if_splits)
  then have "step_inputs m' \<subseteq> tree_inputs h m"
    using up level_inputs_step [of m' h] tree_inputs_levels [OF len, of h] by auto
  moreover have "distinct m' \<or> collision h (tree_inputs h m)"
    using merkle_steps_distinct [OF digest depth' m] tree_inputs_levels [OF len, of h] by (simp add: m'_def)
  ultimately show ?thesis
    using up tree_inputs_levels [OF len, of h] by blast
qed

lemma deep_step:
  assumes digest: "\<forall>x. length (h x) = 32" and m: "m \<noteq> []" "digests m" "distinct m"
    and depth: "merkle_depth h (merkle_step h m) = d + k"
  defines "m' \<equiv> merkle_step h ((merkle_step h ^^ k) m)"
  shows "merkle_depth h m' = d \<and> merkle_levels h m' = merkle_levels h (merkle_step h m) \<and> m' \<noteq> [] \<and> digests m' \<and>
    set (level_inputs h m') \<subseteq> tree_inputs h m \<and> (distinct m' \<or> collision h (tree_inputs h m))"
proof -
  have m': "m' = (merkle_step h ^^ k) (merkle_step h m)" by (simp add: m'_def funpow_swap1)
  note up = merkle_steps_up [OF digest depth merkle_step_nonempty [OF m(1)] step_digests [OF digest], folded m']
  consider "distinct (merkle_step h m)" | "collision h (step_inputs m)"
    using step_distinct m by blast
  then have "distinct m' \<or> collision h (tree_inputs h m)"
  proof cases
    case 1
    from merkle_steps_distinct [OF digest depth merkle_step_nonempty [OF m(1)] step_digests [OF digest] 1]
    show ?thesis unfolding m' tree_inputs_def using collision_mono by blast
  qed (auto simp: tree_inputs_def intro: collision_mono)
  with up show ?thesis by (auto simp: tree_inputs_def)
qed

lemma shallow_deep_binds:
  assumes digest: "\<forall>x. length (h x) = 32" and l: "l \<noteq> []" "digests l" "distinct l"
    and m: "m \<noteq> []" "digests m" "distinct m"
    and root: "merkle_levels h (merkle_step h l) = merkle_levels h (merkle_step h m)"
    and depth: "merkle_depth h (merkle_step h m) = merkle_depth h (merkle_step h l) + k"
    and leaves: "\<forall>x \<in> set l. \<exists>y. 0 # y \<in> X \<and> x = h (0 # y)"
  shows "l = m \<or> collision h (X \<union> tree_inputs h l \<union> tree_inputs h m)"
proof (rule ccontr)
  let ?T = "X \<union> tree_inputs h l \<union> tree_inputs h m"
  let ?l = "merkle_step h l" and ?n = "(merkle_step h ^^ k) m"
  assume "\<not> (l = m \<or> collision h ?T)"
  then have neq: "l \<noteq> m" and free: "\<not> collision h Y" if "Y \<subseteq> ?T" for Y
    using collision_mono that by blast+
  note lev = deep_level [OF digest m depth] and st = deep_step [OF digest m depth]
  have dn: "distinct ?n" "distinct (merkle_step h ?n)"
    using lev st free [of "tree_inputs h m"] by blast+
  have dl: "distinct ?l"
    using step_distinct [of l h] l free [of "step_inputs l"] by (auto simp: tree_inputs_def)
  have "?l = merkle_step h ?n"
    using equal_depth_binds [OF digest _ merkle_step_nonempty [OF l(1)] _ dl dn(2) step_digests [OF digest]] st root
      free [of "set (level_inputs h ?l) \<union> set (level_inputs h (merkle_step h ?n))"]
    by (auto simp: tree_inputs_def)
  then have eq: "l = ?n"
    using step_inject [OF l(3) dn(1) l(1) _ l(2)] lev free [of "step_inputs l \<union> step_inputs ?n"]
    by (auto simp: tree_inputs_def)
  have "0 < k" using eq neq by (cases k) auto
  moreover have "hd l \<in> set l" "hd l \<in> set ?n" using l(1) eq by auto
  ultimately obtain y z where "0 # y \<in> X" "hd l = h (0 # y)" "1 # z \<in> tree_inputs h m" "hd l = h (1 # z)"
    using lev leaves by metis
  then have "collision h ?T" by (intro collisionI [of "0 # y" _ "1 # z"]) auto
  with free [of ?T] show False by blast
qed

lemma distinct_leaves_bind:
  assumes "\<forall>x. length (h x) = 32" and "l \<noteq> []" "digests l" "distinct l" and "m \<noteq> []" "digests m" "distinct m"
    and root: "merkle_levels h (pad_level l) = merkle_levels h (pad_level m)"
    and "\<forall>x \<in> set l. \<exists>y. 0 # y \<in> X \<and> x = h (0 # y)" "\<forall>x \<in> set m. \<exists>y. 0 # y \<in> X \<and> x = h (0 # y)"
  shows "l = m \<or> collision h (X \<union> tree_inputs h l \<union> tree_inputs h m)"
proof -
  let ?d = "\<lambda>x. merkle_depth h (merkle_step h x)"
  have root': "merkle_levels h (merkle_step h l) = merkle_levels h (merkle_step h m)"
    using root assms(2,5) by (simp add: merkle_root_tree)
  consider k where "?d m = ?d l + k" | k where "?d l = ?d m + k"
    using nat_le_linear le_Suc_ex by metis
  then show ?thesis
  proof cases
    case 1
    from shallow_deep_binds [OF assms(1-7) root' 1 assms(9)] show ?thesis .
  next
    case 2
    from shallow_deep_binds [OF assms(1,5-7,2-4) root' [symmetric] 2 assms(10)] show ?thesis
      by (auto simp: Un_ac)
  qed
qed

text \<open>C24: the root commits to the whole list of transactions of a block without repeated transactions.
  Two nonempty lists of distinct ids with one root, whatever their lengths, are equal or make two
  different inputs with the same hash, both among the inputs hashed for the two roots.\<close>

theorem merkle_root_binds_distinct:
  assumes digest: "\<forall>x. length (h x) = 32" and ne: "txs \<noteq> []" "txs' \<noteq> []"
    and dist: "distinct (map (txid h) txs)" "distinct (map (txid h) txs')"
    and root: "transaction_merkle_root h txs = transaction_merkle_root h txs'"
    and neq: "map (txid h) txs \<noteq> map (txid h) txs'"
  shows "collision h (set (merkle_inputs h txs) \<union> set (merkle_inputs h txs'))"
proof -
  let ?leaf = "\<lambda>tx. tagged_hash h 0 (txid h tx)" and ?in = "\<lambda>tx. 0 # txid h tx"
  let ?l = "map ?leaf txs" and ?m = "map ?leaf txs'"
  let ?X = "set (map ?in txs) \<union> set (map ?in txs')"
  have inputs: "set (merkle_inputs h x) = set (map ?in x) \<union> tree_inputs h (map ?leaf x)" if "x \<noteq> []" for x
    using that by (simp add: merkle_inputs_def tree_inputs_pad)
  consider "collision h ?X" | "distinct ?l" "distinct ?m" "?l \<noteq> ?m"
    using leaves_distinct [OF dist(1)] leaves_distinct [OF dist(2)] leaves_inject [OF _ neq] collision_mono by blast
  then show ?thesis
  proof cases
    case 1
    then show ?thesis by (rule collision_mono) (auto simp: inputs ne)
  next
    case 2
    have "?l = ?m \<or> collision h (?X \<union> tree_inputs h ?l \<union> tree_inputs h ?m)"
      using digest 2 ne root
      by (intro distinct_leaves_bind) (auto simp: tagged_hash_def transaction_merkle_root_def)
    with 2 have "collision h (?X \<union> tree_inputs h ?l \<union> tree_inputs h ?m)" by blast
    then show ?thesis by (rule collision_mono) (auto simp: inputs ne)
  qed
qed

theorem merkle_root_binds_distinct_witness:
  "transaction_merkle_root chain_id_hash [sample_transaction 1 [], sample_transaction 2 []] =
     transaction_merkle_root chain_id_hash [sample_transaction 3 []] \<and>
   collision chain_id_hash (set (merkle_inputs chain_id_hash [sample_transaction 1 [], sample_transaction 2 []]) \<union>
     set (merkle_inputs chain_id_hash [sample_transaction 3 []]))"
proof -
  have "transaction_merkle_root chain_id_hash [sample_transaction 1 [], sample_transaction 2 []] = replicate 32 0"
    "transaction_merkle_root chain_id_hash [sample_transaction 3 []] = replicate 32 0"
    by (simp_all add: transaction_merkle_root_def pad_level_def merkle_levels.simps tagged_hash_def chain_id_hash_def)
  moreover have "distinct (map (txid chain_id_hash) [sample_transaction 1 [], sample_transaction 2 []])"
    by (simp add: txid_chain_id_hash)
  ultimately show ?thesis
    using merkle_root_binds_distinct [of chain_id_hash "[sample_transaction 1 [], sample_transaction 2 []]"
      "[sample_transaction 3 []]"] by (simp add: chain_id_hash_def)
qed

end
