(* ===== verification/Crypto.thy ===== *)
theory Crypto
  imports Prelude
begin

text \<open>
  The crate \<open>nano-crypto\<close>: recoverable secp256k1 signatures and the edwards25519 verifiable random
  function. The curve libraries are not part of the repository. They enter as the records \<open>secp\<close> and
  \<open>curve\<close> of the functions the crate calls, and every definition takes the record it needs as its
  first argument. What the crate relies on is stated in \<open>secp_laws\<close> and \<open>curve_laws\<close>.
\<close>

unbundle bit_operations_syntax

section \<open>secp256k1\<close>

text \<open>The calls into the \<open>secp256k1\<close> library. A public key, a secret key and the two signature types
  are opaque.\<close>

record ('rsig, 'sig, 'pk, 'sk) secp =
  recovery_id_try_from :: "int \<Rightarrow> int option"
  rsig_from_compact :: "bytes \<Rightarrow> int \<Rightarrow> 'rsig option"
  rsig_to_standard :: "'rsig \<Rightarrow> 'sig"
  sig_normalize_s :: "'sig \<Rightarrow> 'sig"
  recover_ecdsa :: "bytes \<Rightarrow> 'rsig \<Rightarrow> 'pk option"
  pk_from_slice :: "bytes \<Rightarrow> 'pk option"
  pk_serialize :: "'pk \<Rightarrow> bytes"
  pk_serialize_uncompressed :: "'pk \<Rightarrow> bytes"
  sk_from_byte_array :: "bytes \<Rightarrow> 'sk option"
  pk_from_secret_key :: "'sk \<Rightarrow> 'pk"
  sign_ecdsa_recoverable :: "bytes \<Rightarrow> 'sk \<Rightarrow> 'rsig"
  rsig_serialize_compact :: "'rsig \<Rightarrow> int \<times> bytes"

datatype crypto_error =
    InvalidDigest | InvalidRecoveryId | InvalidSignature | InvalidPublicKey | InvalidPrivateKey
  | HighS | SignatureMismatch

text \<open>\<open>Option::ok_or\<close> and \<open>Result::map_err\<close> with a constant.\<close>

definition ok_or :: "'e \<Rightarrow> 'a option \<Rightarrow> 'e + 'a" where
  "ok_or e x = (case x of None \<Rightarrow> Inl e | Some a \<Rightarrow> Inr a)"

definition map_err :: "'f \<Rightarrow> 'e + 'a \<Rightarrow> 'f + 'a" where
  "map_err f x = (case x of Inl _ \<Rightarrow> Inl f | Inr a \<Rightarrow> Inr a)"

subsection \<open>Message signatures\<close>

text \<open>A \<open>MessageSignature\<close> is its 65 bytes: the recovery id and the compact signature.\<close>

definition recoverable_signature :: "('r, 's, 'p, 'k) secp \<Rightarrow> bytes \<Rightarrow> crypto_error + 'r" where
  "recoverable_signature api signature =
     bind_e (ok_or InvalidRecoveryId (recovery_id_try_from api (uint (hd signature)))) (\<lambda>recovery_id.
     ok_or InvalidSignature (rsig_from_compact api (tl signature) recovery_id))"

definition recover :: "('r, 's, 'p, 'k) secp \<Rightarrow> bytes \<Rightarrow> bytes \<Rightarrow> crypto_error + 'p" where
  "recover api signature digest = bind_e (recoverable_signature api signature) (\<lambda>s.
     ok_or InvalidSignature (recover_ecdsa api digest s))"

definition is_low_s :: "('r, 's, 'p, 'k) secp \<Rightarrow> bytes \<Rightarrow> crypto_error + bool" where
  "is_low_s api signature = bind_e (recoverable_signature api signature) (\<lambda>s.
     let standard = rsig_to_standard api s in Inr (sig_normalize_s api standard = standard))"

subsection \<open>Public keys\<close>

definition public_key_from_bytes :: "('r, 's, 'p, 'k) secp \<Rightarrow> bytes \<Rightarrow> crypto_error + 'p" where
  "public_key_from_bytes api bs = ok_or InvalidPublicKey (pk_from_slice api bs)"

definition verify_signer ::
  "('r, 's, 'p, 'k) secp \<Rightarrow> 'p \<Rightarrow> bytes \<Rightarrow> bytes \<Rightarrow> crypto_error + unit" where
  "verify_signer api key digest signature = bind_e (recover api signature digest) (\<lambda>recovered.
     if recovered \<noteq> key then Inl SignatureMismatch else Inr ())"

definition verify_transaction ::
  "('r, 's, 'p, 'k) secp \<Rightarrow> 'p \<Rightarrow> bytes \<Rightarrow> bytes \<Rightarrow> crypto_error + unit" where
  "verify_transaction api key digest signature = bind_e (is_low_s api signature) (\<lambda>low.
     if \<not> low then Inl HighS
     else bind_e (recover api signature digest) (\<lambda>recovered.
       if recovered \<noteq> key then Inl SignatureMismatch else Inr ()))"

subsection \<open>Private keys\<close>

definition private_key_from_bytes :: "('r, 's, 'p, 'k) secp \<Rightarrow> bytes \<Rightarrow> crypto_error + 'k" where
  "private_key_from_bytes api bs = ok_or InvalidPrivateKey (sk_from_byte_array api bs)"

text \<open>The loop that hashes a seed until it is a key. Nothing bounds it, so running forever is \<open>None\<close>.\<close>

partial_function (option) from_seed ::
  "(bytes \<Rightarrow> bytes) \<Rightarrow> ('r, 's, 'p, 'k) secp \<Rightarrow> bytes \<Rightarrow> 'k option" where
  "from_seed sha256 api candidate =
     (case (if length candidate = 32 then private_key_from_bytes api candidate else Inl InvalidPrivateKey) of
        Inr key \<Rightarrow> Some key
      | Inl _ \<Rightarrow> from_seed sha256 api (sha256 candidate))"

text \<open>A recovery id the library returns lies in \<open>0..4\<close>, which the source states with \<open>expect\<close>.\<close>

definition sign :: "('r, 's, 'p, 'k) secp \<Rightarrow> 'k \<Rightarrow> bytes \<Rightarrow> bytes" where
  "sign api key digest =
     (let (recovery_id, compact) = rsig_serialize_compact api (sign_ecdsa_recoverable api digest key)
      in word_of_int recovery_id # compact)"

subsection \<open>What the crate relies on\<close>

text \<open>The documented behaviour of the library: it signs with normalized signatures from which the
  public key recovers, and the compact form of a signature reads back as that signature.\<close>

definition secp_laws :: "('r, 's, 'p, 'k) secp \<Rightarrow> bool" where
  "secp_laws api \<longleftrightarrow>
     (\<forall>digest key. recover_ecdsa api digest (sign_ecdsa_recoverable api digest key) = Some (pk_from_secret_key api key)) \<and>
     (\<forall>digest key. let s = rsig_to_standard api (sign_ecdsa_recoverable api digest key) in sig_normalize_s api s = s) \<and>
     (\<forall>r i c. rsig_serialize_compact api r = (i, c) \<longrightarrow>
        0 \<le> i \<and> i < 4 \<and> recovery_id_try_from api i = Some i \<and> length c = 64 \<and> rsig_from_compact api c i = Some r) \<and>
     (\<forall>key. length (pk_serialize api key) = 33)"

lemma ok_or_Inr_iff [simp]: "ok_or e x = Inr a \<longleftrightarrow> x = Some a"
  by (auto simp: ok_or_def split: option.splits)

lemma ok_or_simps [simp]: "ok_or e None = Inl e" "ok_or e (Some a) = Inr a"
  by (simp_all add: ok_or_def)

lemma map_err_Inr_iff [simp]: "map_err f x = Inr a \<longleftrightarrow> x = Inr a"
  by (auto simp: map_err_def split: sum.splits)

lemma map_err_simps [simp]: "map_err f (Inl e) = Inl f" "map_err f (Inr a) = Inr a"
  by (simp_all add: map_err_def)

lemma recoverable_signature_sign:
  assumes "secp_laws api"
  shows "recoverable_signature api (sign api key digest) = Inr (sign_ecdsa_recoverable api digest key)"
proof -
  obtain i c where ic: "rsig_serialize_compact api (sign_ecdsa_recoverable api digest key) = (i, c)"
    by (cases "rsig_serialize_compact api (sign_ecdsa_recoverable api digest key)")
  with assms have "0 \<le> i" "i < 4" "recovery_id_try_from api i = Some i"
    "rsig_from_compact api c i = Some (sign_ecdsa_recoverable api digest key)"
    unfolding secp_laws_def by blast+
  with ic show ?thesis
    by (simp add: recoverable_signature_def sign_def uint_word_of_int)
qed

lemma length_sign: "secp_laws api \<Longrightarrow> length (sign api key digest) = 65"
  by (fastforce simp: secp_laws_def sign_def split: prod.splits)

lemma recover_sign: "secp_laws api \<Longrightarrow> recover api (sign api key digest) digest = Inr (pk_from_secret_key api key)"
  by (simp add: recover_def recoverable_signature_sign secp_laws_def)

lemma is_low_s_sign: "secp_laws api \<Longrightarrow> is_low_s api (sign api key digest) = Inr True"
  by (simp add: is_low_s_def recoverable_signature_sign secp_laws_def Let_def)

text \<open>The seed loop returns as soon as some iterate of the hash is a valid key, and returns the first
  such key.\<close>

definition seed_key :: "('r, 's, 'p, 'k) secp \<Rightarrow> bytes \<Rightarrow> 'k option" where
  "seed_key api candidate = (if length candidate = 32 then sk_from_byte_array api candidate else None)"

lemma from_seed_step:
  "from_seed sha256 api candidate =
     (case seed_key api candidate of Some key \<Rightarrow> Some key | None \<Rightarrow> from_seed sha256 api (sha256 candidate))"
  by (subst from_seed.simps)
     (auto simp: seed_key_def private_key_from_bytes_def ok_or_def split: option.splits)

text \<open>C40: the key derivation loop returns whenever some iterate of the hash is a valid secret key, and
  what it returns is the key of the first such iterate.\<close>

theorem from_seed_first_key:
  assumes "seed_key api ((sha256 ^^ n) seed) = Some key"
    and "\<forall>m < n. seed_key api ((sha256 ^^ m) seed) = None"
  shows "from_seed sha256 api seed = Some key"
  using assms
proof (induction n arbitrary: seed)
  case (Suc n)
  then have "seed_key api seed = None" by force
  moreover have "from_seed sha256 api (sha256 seed) = Some key"
    using Suc by (intro Suc.IH) (auto simp: funpow_swap1 funpow_Suc_right simp del: funpow.simps)
  ultimately show ?case by (simp add: from_seed_step [of _ _ seed])
qed (simp add: from_seed_step)

text \<open>A concrete library with the required behaviour: keys are bytes, a signature is the key and the
  first byte of the digest.\<close>

definition byte_secp :: "(byte \<times> byte, byte \<times> byte, byte, byte) secp" where
  "byte_secp = \<lparr>recovery_id_try_from = (\<lambda>i. if 0 \<le> i \<and> i < 4 then Some i else None),
     rsig_from_compact = (\<lambda>bs i. Some (bs ! 0, bs ! 1)),
     rsig_to_standard = id, sig_normalize_s = id,
     recover_ecdsa = (\<lambda>digest s. if snd s = digest ! 0 then Some (fst s) else None),
     pk_from_slice = (\<lambda>bs. if length bs = 33 then Some (bs ! 0) else None),
     pk_serialize = (\<lambda>k. k # replicate 32 0), pk_serialize_uncompressed = (\<lambda>k. k # replicate 64 0),
     sk_from_byte_array = (\<lambda>bs. if bs ! 0 = 0 then None else Some (bs ! 0)),
     pk_from_secret_key = id, sign_ecdsa_recoverable = (\<lambda>digest k. (k, digest ! 0)),
     rsig_serialize_compact = (\<lambda>s. (0, fst s # snd s # replicate 62 0))\<rparr>"

lemma byte_secp_laws: "secp_laws byte_secp"
  by (auto simp: secp_laws_def byte_secp_def)

theorem from_seed_first_key_witness:
  "from_seed (\<lambda>bs. replicate 32 (hd bs + 1)) byte_secp [4] = Some (5 :: byte)"
  by (rule from_seed_first_key [where n = 1])
     (simp_all add: seed_key_def byte_secp_def)

section \<open>The verifiable random function\<close>

text \<open>The calls into the curve and hash libraries, with opaque points and scalars. A signing key is its
  seed and a verifying key its 32 bytes.\<close>

record ('pt, 'sc) curve =
  decompress :: "bytes \<Rightarrow> 'pt option"
  compress :: "'pt \<Rightarrow> bytes"
  is_small_order :: "'pt \<Rightarrow> bool"
  mul_by_cofactor :: "'pt \<Rightarrow> 'pt"
  base_point :: 'pt
  scale :: "'sc \<Rightarrow> 'pt \<Rightarrow> 'pt"
  point_sub :: "'pt \<Rightarrow> 'pt \<Rightarrow> 'pt"
  scalar_add :: "'sc \<Rightarrow> 'sc \<Rightarrow> 'sc"
  scalar_mul :: "'sc \<Rightarrow> 'sc \<Rightarrow> 'sc"
  from_canonical_bytes :: "bytes \<Rightarrow> 'sc option"
  scalar_to_bytes :: "'sc \<Rightarrow> bytes"
  from_bytes_mod_order :: "bytes \<Rightarrow> 'sc"
  from_bytes_mod_order_wide :: "bytes \<Rightarrow> 'sc"
  clamp_integer :: "bytes \<Rightarrow> bytes"
  verifying_key_valid :: "bytes \<Rightarrow> bool"
  verifying_key :: "bytes \<Rightarrow> bytes"
  sha512 :: "bytes \<Rightarrow> bytes"

datatype vrf_error = VrfInvalidPublicKey | VrfInvalidProof | VrfInvalidChallenge

record ('pt, 'sc) vrf_proof =
  vp_gamma :: 'pt
  vp_challenge :: 'sc
  vp_response :: 'sc

definition vrf_suite :: byte where
  "vrf_suite = 3"

definition vrf_public_key_from_bytes :: "('pt, 'sc) curve \<Rightarrow> bytes \<Rightarrow> vrf_error + bytes" where
  "vrf_public_key_from_bytes api bs =
     bind_e (ok_or VrfInvalidPublicKey (decompress api bs)) (\<lambda>point.
     if is_small_order api point then Inl VrfInvalidPublicKey
     else if verifying_key_valid api bs then Inr bs else Inl VrfInvalidPublicKey)"

definition vrf_proof_from_bytes :: "('pt, 'sc) curve \<Rightarrow> bytes \<Rightarrow> vrf_error + ('pt, 'sc) vrf_proof" where
  "vrf_proof_from_bytes api bs =
     (if length bs \<noteq> 80 then Inl VrfInvalidProof
      else bind_e (ok_or VrfInvalidProof
             (case decompress api (take 32 bs) of
                None \<Rightarrow> None | Some point \<Rightarrow> if \<not> is_small_order api point then Some point else None)) (\<lambda>gamma.
           bind_e (ok_or VrfInvalidProof
             (from_canonical_bytes api (take 16 (drop 32 bs) @ replicate 16 0))) (\<lambda>challenge.
           bind_e (ok_or VrfInvalidProof (from_canonical_bytes api (drop 48 bs))) (\<lambda>response.
           Inr \<lparr>vp_gamma = gamma, vp_challenge = challenge, vp_response = response\<rparr>))))"

definition vrf_proof_to_bytes :: "('pt, 'sc) curve \<Rightarrow> ('pt, 'sc) vrf_proof \<Rightarrow> bytes" where
  "vrf_proof_to_bytes api p = compress api (vp_gamma p) @
     take 16 (scalar_to_bytes api (vp_challenge p)) @ scalar_to_bytes api (vp_response p)"

text \<open>The bytes of a counter that the hash-to-curve loop appends.\<close>

definition u64_to_le :: "u64 \<Rightarrow> bytes" where
  "u64_to_le v = rev (u64_to_be v)"

definition counter_bytes :: "u64 \<Rightarrow> bytes" where
  "counter_bytes counter = (if counter = 0 then [0]
     else map snd (filter (\<lambda>(index, byte). 2 ^ (index * 8) < unat counter) (enumerate 0 (u64_to_le counter))))"

lemma unat_succ_u64:
  assumes "counter \<noteq> (- 1 :: u64)"
  shows "unat (counter + 1) = Suc (unat counter)"
proof -
  have "unat counter \<noteq> unat (- 1 :: u64)"
    using assms by (simp add: word_unat_eq_iff)
  then have "Suc (unat counter) < 2 ^ 64"
    using unat_bound [of counter] by (simp add: unsigned_minus_1_eq_mask mask_eq_exp_minus_1)
  then show ?thesis
    by (simp add: unat_word_ariths)
qed

text \<open>The hash-to-curve loop. The counter is checked, so the loop either finds a point or panics at the
  last counter, which is \<open>None\<close>.\<close>

function hash_to_curve_from :: "('pt, 'sc) curve \<Rightarrow> bytes \<Rightarrow> bytes \<Rightarrow> u64 \<Rightarrow> 'pt option" where
  "hash_to_curve_from api public_key message counter =
     (case decompress api (take 32 (sha512 api
         ([vrf_suite, 1] @ public_key @ message @ counter_bytes counter))) of
        Some point \<Rightarrow> Some (mul_by_cofactor api point)
      | None \<Rightarrow> if counter = - 1 then None else hash_to_curve_from api public_key message (counter + 1))"
  by pat_completeness auto

termination
proof (relation "measure (\<lambda>(_, _, _, counter). 2 ^ 64 - unat counter)")
  fix api :: "('pt, 'sc) curve" and public_key message :: bytes and counter :: u64
  assume "counter \<noteq> - 1"
  then show "((api, public_key, message, counter + 1), (api, public_key, message, counter))
      \<in> measure (\<lambda>(_, _, _, counter). 2 ^ 64 - unat counter)"
    using unat_bound [of counter] unat_succ_u64 by simp
qed simp

declare hash_to_curve_from.simps [simp del]

definition hash_to_curve :: "('pt, 'sc) curve \<Rightarrow> bytes \<Rightarrow> bytes \<Rightarrow> 'pt option" where
  "hash_to_curve api public_key message = hash_to_curve_from api public_key message 0"

definition vrf_challenge :: "('pt, 'sc) curve \<Rightarrow> 'pt \<Rightarrow> 'pt \<Rightarrow> 'pt \<Rightarrow> 'pt \<Rightarrow> vrf_error + 'sc" where
  "vrf_challenge api first second third fourth =
     (let digest = sha512 api ([vrf_suite, 2] @ concat (map (compress api) [first, second, third, fourth]))
      in ok_or VrfInvalidChallenge (from_canonical_bytes api (take 16 digest @ replicate 16 0)))"

definition expand_private_key :: "('pt, 'sc) curve \<Rightarrow> bytes \<Rightarrow> bytes \<times> 'sc \<times> bytes" where
  "expand_private_key api key =
     (let digest = sha512 api key;
          scalar_bytes = take 32 digest;
          scalar_bytes = scalar_bytes[0 := scalar_bytes ! 0 AND 0xf8];
          scalar_bytes = scalar_bytes[31 := scalar_bytes ! 31 AND 0x7f];
          scalar_bytes = scalar_bytes[31 := scalar_bytes ! 31 OR 0x40]
      in (verifying_key api key, from_bytes_mod_order api (clamp_integer api scalar_bytes), drop 32 digest))"

definition vrf_nonce :: "('pt, 'sc) curve \<Rightarrow> bytes \<Rightarrow> 'pt \<Rightarrow> 'sc" where
  "vrf_nonce api prefix hash_point =
     from_bytes_mod_order_wide api (sha512 api (prefix @ compress api hash_point))"

text \<open>Proving and verifying; the outer \<open>None\<close> is the panic of the hash-to-curve loop.\<close>

definition vrf_prove ::
  "('pt, 'sc) curve \<Rightarrow> bytes \<Rightarrow> bytes \<Rightarrow> (vrf_error + ('pt, 'sc) vrf_proof) option" where
  "vrf_prove api private_key message =
     (let (public_key, scalar, nonce_prefix) = expand_private_key api private_key in
      case hash_to_curve api public_key message of
        None \<Rightarrow> None
      | Some hash_point \<Rightarrow>
          let gamma = scale api scalar hash_point;
              nonce = vrf_nonce api nonce_prefix hash_point
          in Some (bind_e (vrf_challenge api hash_point gamma
                (scale api nonce (base_point api)) (scale api nonce hash_point)) (\<lambda>challenge.
              Inr \<lparr>vp_gamma = gamma, vp_challenge = challenge,
                   vp_response = scalar_add api nonce (scalar_mul api challenge scalar)\<rparr>)))"

definition vrf_verify ::
  "('pt, 'sc) curve \<Rightarrow> bytes \<Rightarrow> ('pt, 'sc) vrf_proof \<Rightarrow> bytes \<Rightarrow> (vrf_error + bool) option" where
  "vrf_verify api public_key proof message =
     (if is_small_order api (vp_gamma proof) then Some (Inl VrfInvalidPublicKey)
      else case hash_to_curve api public_key message of
        None \<Rightarrow> None
      | Some hash_point \<Rightarrow> Some (
          bind_e (ok_or VrfInvalidPublicKey (decompress api public_key)) (\<lambda>public_point.
          let first = point_sub api (scale api (vp_response proof) (base_point api))
                (scale api (vp_challenge proof) public_point);
              second = point_sub api (scale api (vp_response proof) hash_point)
                (scale api (vp_challenge proof) (vp_gamma proof))
          in bind_e (vrf_challenge api hash_point (vp_gamma proof) first second) (\<lambda>c.
             Inr (c = vp_challenge proof)))))"

subsection \<open>What the function relies on\<close>

text \<open>Clamping: the three lowest bits of a scalar are cleared, the highest is cleared and the second
  highest set.\<close>

definition clamp_bits :: "bytes \<Rightarrow> bytes" where
  "clamp_bits bs = bs[0 := bs ! 0 AND 0xf8, 31 := (bs ! 31 AND 0x7f) OR 0x40]"

text \<open>The documented behaviour of the libraries: scalar multiplication is an action that distributes
  over scalar addition, compression and canonical scalar encodings are inverted by their readers, and
  the verifying key of a seed is the clamped lower half of its hash times the base point.\<close>

definition curve_laws :: "('pt, 'sc) curve \<Rightarrow> bool" where
  "curve_laws api \<longleftrightarrow>
     (\<forall>a b p. scale api (scalar_mul api a b) p = scale api a (scale api b p)) \<and>
     (\<forall>a b p. point_sub api (scale api (scalar_add api a b) p) (scale api b p) = scale api a p) \<and>
     (\<forall>p. decompress api (compress api p) = Some p \<and> length (compress api p) = 32) \<and>
     (\<forall>s. from_canonical_bytes api (scalar_to_bytes api s) = Some s \<and> length (scalar_to_bytes api s) = 32) \<and>
     (\<forall>bs s. length bs = 32 \<longrightarrow> from_canonical_bytes api bs = Some s \<longrightarrow> scalar_to_bytes api s = bs) \<and>
     (\<forall>bs. clamp_integer api bs = clamp_bits bs) \<and>
     (\<forall>bs. length (sha512 api bs) = 64) \<and>
     (\<forall>key. decompress api (verifying_key api key) = Some (scale api
        (from_bytes_mod_order api (clamp_integer api (take 32 (sha512 api key)))) (base_point api)))"

lemma clamp_byte_idem [simp]:
  "(b :: byte) AND 0xf8 AND 0xf8 = b AND 0xf8"
  "((b AND 0x7f OR 0x40) AND 0x7f) OR 0x40 = (b AND 0x7f) OR 0x40"
  by (simp_all add: bit_eq_iff bit_simps) (auto simp: bit_simps)

lemma clamp_bits_masked:
  assumes "length bs = 32"
  shows "clamp_bits (let bs = bs[0 := bs ! 0 AND 0xf8]; bs = bs[31 := bs ! 31 AND 0x7f]
      in bs[31 := bs ! 31 OR 0x40]) = clamp_bits bs"
  using assms by (simp add: clamp_bits_def Let_def list_update_swap [of 0 31])

lemma expand_private_key_point:
  assumes "curve_laws api" and "expand_private_key api key = (public_key, scalar, prefix)"
  shows "public_key = verifying_key api key"
    and "decompress api public_key = Some (scale api scalar (base_point api))"
proof -
  have len: "length (take 32 (sha512 api key)) = 32"
    using assms(1) by (simp add: curve_laws_def)
  have "scalar = from_bytes_mod_order api (clamp_bits (take 32 (sha512 api key)))"
    using assms clamp_bits_masked [OF len] by (simp add: expand_private_key_def curve_laws_def Let_def)
  moreover show "public_key = verifying_key api key"
    using assms(2) by (simp add: expand_private_key_def Let_def)
  ultimately show "decompress api public_key = Some (scale api scalar (base_point api))"
    using assms(1) by (simp add: curve_laws_def)
qed

text \<open>The verification equation: the two points the verifier computes are the prover's commitments.\<close>

lemma response_cancels:
  assumes "curve_laws api"
  shows "point_sub api (scale api (scalar_add api nonce (scalar_mul api c x)) p) (scale api c (scale api x p))
    = scale api nonce p"
  using assms unfolding curve_laws_def by metis

lemma vrf_challenge_bytes:
  assumes "curve_laws api" and "vrf_challenge api p q r s = Inr c"
  shows "drop 16 (scalar_to_bytes api c) = replicate 16 0"
proof -
  define d where "d = take 16 (sha512 api ([vrf_suite, 2] @ concat (map (compress api) [p, q, r, s])))"
  have d: "length d = 16" "from_canonical_bytes api (d @ replicate 16 0) = Some c"
    using assms by (simp_all add: d_def vrf_challenge_def Let_def curve_laws_def)
  then have "length (d @ replicate 16 0) = 32" by simp
  with d assms(1) have "scalar_to_bytes api c = d @ replicate 16 0"
    unfolding curve_laws_def by blast
  with d show ?thesis by simp
qed

lemma vrf_proof_roundtrip:
  assumes laws: "curve_laws api" and "\<not> is_small_order api (vp_gamma p)"
    and "drop 16 (scalar_to_bytes api (vp_challenge p)) = replicate 16 0"
  shows "vrf_proof_from_bytes api (vrf_proof_to_bytes api p) = Inr p"
proof -
  have len: "length (compress api (vp_gamma p)) = 32" "length (scalar_to_bytes api (vp_challenge p)) = 32"
    "length (scalar_to_bytes api (vp_response p)) = 32"
    and inv: "decompress api (compress api (vp_gamma p)) = Some (vp_gamma p)"
      "from_canonical_bytes api (scalar_to_bytes api (vp_challenge p)) = Some (vp_challenge p)"
      "from_canonical_bytes api (scalar_to_bytes api (vp_response p)) = Some (vp_response p)"
    using laws unfolding curve_laws_def by blast+
  have "take 16 (scalar_to_bytes api (vp_challenge p)) @ replicate 16 0 = scalar_to_bytes api (vp_challenge p)"
    using assms(3) by (metis append_take_drop_id)
  with assms(2) len inv show ?thesis
    by (simp add: vrf_proof_from_bytes_def vrf_proof_to_bytes_def)
qed


text \<open>A concrete library with the required behaviour, over the ring of bytes.\<close>

definition byte_curve :: "(byte, byte) curve" where
  "byte_curve = \<lparr>decompress = (\<lambda>bs. Some (hd bs)), compress = (\<lambda>p. p # replicate 31 0),
     is_small_order = (\<lambda>p. p = 0), mul_by_cofactor = id, base_point = 1, scale = (*), point_sub = (-),
     scalar_add = (+), scalar_mul = (*),
     from_canonical_bytes = (\<lambda>bs. if tl bs = replicate 31 0 then Some (hd bs) else None),
     scalar_to_bytes = (\<lambda>s. s # replicate 31 0), from_bytes_mod_order = hd,
     from_bytes_mod_order_wide = hd, clamp_integer = clamp_bits, verifying_key_valid = (\<lambda>_. True),
     verifying_key = (\<lambda>key. (hd key AND 0xf8) # replicate 31 0), sha512 = (\<lambda>bs. hd bs # replicate 63 0)\<rparr>"

lemma byte_curve_laws: "curve_laws byte_curve"
proof -
  have "tl bs = replicate 31 0 \<Longrightarrow> length bs = 32 \<Longrightarrow> hd bs # replicate 31 0 = bs" for bs :: bytes
    by (metis list.collapse list.size(3) zero_neq_numeral)
  then show ?thesis
    by (simp add: curve_laws_def byte_curve_def clamp_bits_def mult.assoc distrib_right)
qed


end
