(* ===== verification/Nakamoto.thy ===== *)
theory Nakamoto
  imports Merkle Primitives Crypto
begin

text \<open>
  Nakamoto blocks (\<open>nakamoto.rs\<close> of the crate \<open>nano-chainstate\<close>): the header and its hashes, the block
  codec with its validation, and the linkage of a block to its parent. The hash and the check of a VRF
  proof are parameters, as in the transaction codec.
\<close>

unbundle bit_operations_syntax

section \<open>Reader\<close>

datatype nakamoto_codec_error =
    NkEndOfInput
  | NkLength
  | NkTrailingBytes
  | NkBitVec bit_vec_error
  | NkTransaction codec_error
  | NkDuplicateTransaction
  | NkTransactionMerkleRoot

type_synonym 'a block_decoder = "(nakamoto_codec_error, 'a) rdr"

definition nk_take :: "nat \<Rightarrow> bytes block_decoder" where
  "nk_take = take_r NkLength NkEndOfInput"

definition nk_byte :: "byte block_decoder" where
  "nk_byte = byte_r nk_take"

definition nk_u16 :: "u16 block_decoder" where
  "nk_u16 = u16_r nk_take"

definition nk_u32 :: "u32 block_decoder" where
  "nk_u32 = u32_r nk_take"

definition nk_u64 :: "u64 block_decoder" where
  "nk_u64 = u64_r nk_take"

definition nk_signature :: "bytes block_decoder" where
  "nk_signature = nk_take 65"

definition nk_signatures :: "bytes list block_decoder" where
  "nk_signatures = counted_r nk_u32 65 NkLength nk_signature"

text \<open>The header admits at most 4000 reward slots.\<close>

definition pox_treatment_max :: u16 where
  "pox_treatment_max = 4000"

definition nk_bit_vec :: "bit_vec block_decoder" where
  "nk_bit_vec = bind_r nk_u16 (\<lambda>len. bind_r nk_u32 (\<lambda>n.
     bind_r (check_r (\<lambda>_. n = word_of_nat (bv_data_len len)) NkLength) (\<lambda>_.
     bind_r (nk_take (bv_data_len len)) (\<lambda>data.
     lift_r (case bv_from_wire_bytes pox_treatment_max
         (u16_to_be len @ u32_to_be (word_of_nat (length data)) @ data) of
       Inl e \<Rightarrow> Inl (NkBitVec e) | Inr bv \<Rightarrow> Inr bv)))))"

record problematic_transaction =
  pt_index :: u32
  pt_category :: byte

definition nk_problematic_transaction :: "problematic_transaction block_decoder" where
  "nk_problematic_transaction = bind_r nk_u32 (\<lambda>index. bind_r nk_byte (\<lambda>category.
     ret_r \<lparr>pt_index = index, pt_category = category\<rparr>))"

definition nk_problematic_transactions :: "problematic_transaction list block_decoder" where
  "nk_problematic_transactions = counted_r nk_u32 5 NkLength nk_problematic_transaction"

section \<open>Headers\<close>

record nakamoto_block_header =
  nh_version :: byte
  nh_chain_length :: u64
  nh_bitcoin_spent :: u64
  nh_consensus_hash :: bytes
  nh_parent_block_id :: bytes
  nh_transaction_merkle_root :: bytes
  nh_state_index_root :: bytes
  nh_timestamp :: u64
  nh_miner_signature :: bytes
  nh_signer_signatures :: "bytes list"
  nh_pox_treatment :: bit_vec
  nh_problematic_transactions :: "problematic_transaction list"

definition has_problematic :: "byte \<Rightarrow> bool" where
  "has_problematic version \<longleftrightarrow> 1 \<le> version AND 0x7f"

definition encode_without_signatures :: "nakamoto_block_header \<Rightarrow> bytes" where
  "encode_without_signatures h = [nh_version h] @ u64_to_be (nh_chain_length h) @ u64_to_be (nh_bitcoin_spent h) @
     nh_consensus_hash h @ nh_parent_block_id h @ nh_transaction_merkle_root h @ nh_state_index_root h @
     u64_to_be (nh_timestamp h)"

definition w_signatures :: "bytes list \<Rightarrow> bytes" where
  "w_signatures = w_counted (\<lambda>signature. signature)"

definition w_problematic_transaction :: "problematic_transaction \<Rightarrow> bytes" where
  "w_problematic_transaction t = u32_to_be (pt_index t) @ [pt_category t]"

definition w_problematic_transactions :: "problematic_transaction list \<Rightarrow> bytes" where
  "w_problematic_transactions = w_counted w_problematic_transaction"

definition encode_problematic_transactions :: "nakamoto_block_header \<Rightarrow> bytes" where
  "encode_problematic_transactions h = (if has_problematic (nh_version h)
     then w_problematic_transactions (nh_problematic_transactions h) else [])"

definition encode_header :: "nakamoto_block_header \<Rightarrow> bytes" where
  "encode_header h = encode_without_signatures h @ nh_miner_signature h @
     w_signatures (nh_signer_signatures h) @ bv_wire_bytes (nh_pox_treatment h) @
     encode_problematic_transactions h"

definition signing_bytes :: "nakamoto_block_header \<Rightarrow> bool \<Rightarrow> bytes" where
  "signing_bytes h include_miner_signature = encode_without_signatures h @
     (if include_miner_signature then nh_miner_signature h else []) @
     bv_wire_bytes (nh_pox_treatment h) @ encode_problematic_transactions h"

definition miner_signature_hash :: "(bytes \<Rightarrow> bytes) \<Rightarrow> nakamoto_block_header \<Rightarrow> bytes" where
  "miner_signature_hash sha512_256 h = sha512_256 (signing_bytes h False)"

definition signer_signature_hash :: "(bytes \<Rightarrow> bytes) \<Rightarrow> nakamoto_block_header \<Rightarrow> bytes" where
  "signer_signature_hash sha512_256 h = sha512_256 (signing_bytes h True)"

definition block_hash :: "(bytes \<Rightarrow> bytes) \<Rightarrow> nakamoto_block_header \<Rightarrow> bytes" where
  "block_hash = signer_signature_hash"

definition header_block_id :: "(bytes \<Rightarrow> bytes) \<Rightarrow> nakamoto_block_header \<Rightarrow> bytes" where
  "header_block_id sha512_256 h = sha512_256 (block_hash sha512_256 h @ nh_consensus_hash h)"

definition read_header :: "nakamoto_block_header block_decoder" where
  "read_header = bind_r nk_byte (\<lambda>version. bind_r nk_u64 (\<lambda>chain_length. bind_r nk_u64 (\<lambda>bitcoin_spent.
     bind_r (nk_take 20) (\<lambda>consensus_hash. bind_r (nk_take 32) (\<lambda>parent. bind_r (nk_take 32) (\<lambda>merkle_root.
     bind_r (nk_take 32) (\<lambda>state_root. bind_r nk_u64 (\<lambda>timestamp. bind_r nk_signature (\<lambda>miner_signature.
     bind_r nk_signatures (\<lambda>signer_signatures. bind_r nk_bit_vec (\<lambda>pox_treatment.
     bind_r (if has_problematic version then nk_problematic_transactions else ret_r []) (\<lambda>problematic.
     ret_r \<lparr>nh_version = version, nh_chain_length = chain_length, nh_bitcoin_spent = bitcoin_spent,
       nh_consensus_hash = consensus_hash, nh_parent_block_id = parent,
       nh_transaction_merkle_root = merkle_root, nh_state_index_root = state_root, nh_timestamp = timestamp,
       nh_miner_signature = miner_signature, nh_signer_signatures = signer_signatures,
       nh_pox_treatment = pox_treatment, nh_problematic_transactions = problematic\<rparr>))))))))))))"

definition header_ok :: "nakamoto_block_header \<Rightarrow> bool" where
  "header_ok h \<longleftrightarrow> length (nh_consensus_hash h) = 20 \<and> length (nh_parent_block_id h) = 32 \<and>
     length (nh_transaction_merkle_root h) = 32 \<and> length (nh_state_index_root h) = 32 \<and>
     length (nh_miner_signature h) = 65 \<and> length (nh_signer_signatures h) < 2 ^ 32 \<and>
     (\<forall>s \<in> set (nh_signer_signatures h). length s = 65) \<and> bv_ok pox_treatment_max (nh_pox_treatment h) \<and>
     length (nh_problematic_transactions h) < 2 ^ 32 \<and>
     (\<not> has_problematic (nh_version h) \<longrightarrow> nh_problematic_transactions h = [])"

section \<open>Blocks\<close>

record nakamoto_block =
  nb_header :: nakamoto_block_header
  nb_transactions :: "transaction list"

definition nk_transaction :: "(bytes \<Rightarrow> bool) \<Rightarrow> transaction block_decoder" where
  "nk_transaction vrf_ok r = (case decode_transaction vrf_ok (drop (rd_offset r) (rd_bytes r)) of
       Inl e \<Rightarrow> Inl (NkTransaction e)
     | Inr (tx, consumed) \<Rightarrow> bind_r (nk_take consumed) (\<lambda>_. ret_r tx) r)"

definition validate_block ::
  "(bytes \<Rightarrow> bytes) \<Rightarrow> nakamoto_block_header \<Rightarrow> transaction list \<Rightarrow> nakamoto_codec_error + nakamoto_block" where
  "validate_block sha512_256 header transactions =
     (if card (set (map (txid sha512_256) transactions)) \<noteq> length transactions then Inl NkDuplicateTransaction
      else if transaction_merkle_root sha512_256 transactions \<noteq> nh_transaction_merkle_root header
      then Inl NkTransactionMerkleRoot
      else Inr \<lparr>nb_header = header, nb_transactions = transactions\<rparr>)"

definition read_block_parts :: "(bytes \<Rightarrow> bool) \<Rightarrow> (nakamoto_block_header \<times> transaction list) block_decoder" where
  "read_block_parts vrf_ok = bind_r read_header (\<lambda>header. bind_r nk_u32 (\<lambda>count.
     bind_r (check_r (\<lambda>r. unat count \<le> rd_remaining r) NkLength) (\<lambda>_.
     bind_r (times_r (unat count) (nk_transaction vrf_ok)) (\<lambda>transactions.
     ret_r (header, transactions)))))"

definition decode_prefix ::
  "(bytes \<Rightarrow> bytes) \<Rightarrow> (bytes \<Rightarrow> bool) \<Rightarrow> bytes \<Rightarrow> nakamoto_codec_error + nakamoto_block \<times> nat" where
  "decode_prefix sha512_256 vrf_ok bs = (case read_block_parts vrf_ok (rd_new bs) of
       Inl e \<Rightarrow> Inl e
     | Inr ((header, transactions), r) \<Rightarrow>
         bind_e (validate_block sha512_256 header transactions) (\<lambda>block. Inr (block, rd_offset r)))"

definition decode_block ::
  "(bytes \<Rightarrow> bytes) \<Rightarrow> (bytes \<Rightarrow> bool) \<Rightarrow> bytes \<Rightarrow> nakamoto_codec_error + nakamoto_block" where
  "decode_block sha512_256 vrf_ok bs = bind_e (decode_prefix sha512_256 vrf_ok bs) (\<lambda>(block, consumed).
     if consumed \<noteq> length bs then Inl NkTrailingBytes else Inr block)"

definition encode_block :: "nakamoto_block \<Rightarrow> bytes" where
  "encode_block b = encode_header (nb_header b) @ u32_to_be (word_of_nat (length (nb_transactions b))) @
     concat (map encode_transaction (nb_transactions b))"

definition block_id :: "(bytes \<Rightarrow> bytes) \<Rightarrow> nakamoto_block \<Rightarrow> bytes" where
  "block_id sha512_256 b = header_block_id sha512_256 (nb_header b)"

definition block_view_consensus_hash :: "nakamoto_block \<Rightarrow> bytes option" where
  "block_view_consensus_hash b = find_map (\<lambda>tx. case tp_data (tx_payload tx) of
       TenureChange payload \<Rightarrow> Some (tc_bitcoin_view_consensus_hash payload) | _ \<Rightarrow> None) (nb_transactions b)"

section \<open>Linkage\<close>

datatype tenure_error = ParentBlockId | ChainLength | Timestamp | MissingTenureChange

definition saturating_succ :: "u64 \<Rightarrow> u64" where
  "saturating_succ n = (if n = - 1 then n else n + 1)"

definition validate_successor ::
  "(bytes \<Rightarrow> bytes) \<Rightarrow> nakamoto_block \<Rightarrow> nakamoto_block_header \<Rightarrow> tenure_error + unit" where
  "validate_successor sha512_256 b parent =
     (if nh_parent_block_id (nb_header b) \<noteq> header_block_id sha512_256 parent then Inl ParentBlockId
      else if nh_chain_length (nb_header b) \<noteq> saturating_succ (nh_chain_length parent) then Inl ChainLength
      else if nh_timestamp (nb_header b) \<le> nh_timestamp parent then Inl Timestamp
      else if nh_consensus_hash (nb_header b) \<noteq> nh_consensus_hash parent \<and>
              \<not> (\<exists>tx \<in> set (nb_transactions b). payload_kind (tp_data (tx_payload tx)) = PtTenureChange)
      then Inl MissingTenureChange
      else Inr ())"

section \<open>The header codec\<close>

interpretation nk_slices: slice_reader nk_take
  unfolding nk_take_def by (rule slices.slice_reader_axioms)

interpretation nk_array: wire_codec "nk_take n" "\<lambda>x. x" "\<lambda>x. length x = n" for n
  by (rule nk_slices.array_codec)

interpretation nk_byte: wire_codec nk_byte "\<lambda>b. [b]" "\<lambda>_. True"
  unfolding nk_byte_def by (rule nk_slices.byte_codec)

interpretation nk_u16: wire_codec nk_u16 u16_to_be "\<lambda>_. True"
  unfolding nk_u16_def by (rule nk_slices.u16_codec)

interpretation nk_u32: wire_codec nk_u32 u32_to_be "\<lambda>_. True"
  unfolding nk_u32_def by (rule nk_slices.u32_codec)

interpretation nk_u64: wire_codec nk_u64 u64_to_be "\<lambda>_. True"
  unfolding nk_u64_def by (rule nk_slices.u64_codec)

interpretation nk_signature: wire_codec nk_signature "\<lambda>x. x" "\<lambda>x. length x = 65"
  unfolding nk_signature_def by (rule nk_slices.array_codec)

lemmas nk_forward = nk_array.dec_enc_len nk_byte.dec_enc_len nk_u16.dec_enc_len nk_u32.dec_enc_len
  nk_u64.dec_enc_len nk_signature.dec_enc_len
lemmas nk_backward = nk_array.bind_enc_decE nk_byte.bind_enc_decE nk_u16.bind_enc_decE nk_u32.bind_enc_decE
  nk_u64.bind_enc_decE nk_signature.bind_enc_decE bind_lift_rE bind_check_rE

lemma nk_byte_Cons [simp]:
  "length pre + length t < usize_max \<Longrightarrow> nk_byte (At pre (b # t)) = Inr (b, At (pre @ [b]) t)"
  using nk_byte.dec_enc_len [where a = b and pre = pre and t = t] by simp

interpretation nk_signatures: wire_codec nk_signatures w_signatures
  "\<lambda>ss. length ss < 2 ^ 32 \<and> (\<forall>s \<in> set ss. length s = 65)"
  unfolding nk_signatures_def w_signatures_def
  by (rule nk_signature.counted_codec [OF nk_u32.wire_codec_axioms]) simp_all

interpretation nk_problematic_transaction: wire_codec nk_problematic_transaction w_problematic_transaction
  "\<lambda>_. True"
proof
  fix a :: problematic_transaction and pre t
  assume "fits pre (w_problematic_transaction a @ t)"
  then show "nk_problematic_transaction (At pre (w_problematic_transaction a @ t)) =
      Inr (a, At (pre @ w_problematic_transaction a) t)"
    by (simp add: fits_def nk_problematic_transaction_def w_problematic_transaction_def nk_forward)
next
  fix pre suf a r'
  assume "nk_problematic_transaction (At pre suf) = Inr (a, r')"
  then show "True \<and> (\<exists>t. suf = w_problematic_transaction a @ t \<and> r' = At (pre @ w_problematic_transaction a) t)"
    unfolding nk_problematic_transaction_def
    by (elim nk_backward) (auto simp: w_problematic_transaction_def)
qed

interpretation nk_problematic_transactions: wire_codec nk_problematic_transactions w_problematic_transactions
  "\<lambda>ts. length ts < 2 ^ 32 \<and> (\<forall>t \<in> set ts. True)"
  unfolding nk_problematic_transactions_def w_problematic_transactions_def
  by (rule nk_problematic_transaction.counted_codec [OF nk_u32.wire_codec_axioms])
     (simp_all add: w_problematic_transaction_def)

interpretation nk_bit_vec: wire_codec nk_bit_vec bv_wire_bytes "bv_ok pox_treatment_max"
proof
  fix a pre t
  assume ok: "bv_ok pox_treatment_max a" and fit: "fits pre (bv_wire_bytes a @ t)"
  have data: "length (bv_data a) = bv_data_len (bv_len a)" using ok by (simp add: bv_ok_def)
  have "bv_from_wire_bytes pox_treatment_max (u16_to_be (bv_len a) @
      u32_to_be (word_of_nat (bv_data_len (bv_len a))) @ bv_data a) = Inr a"
    using bv_wire_roundtrip [OF ok] by (simp add: bv_wire_bytes_def data)
  then show "nk_bit_vec (At pre (bv_wire_bytes a @ t)) = Inr (a, At (pre @ bv_wire_bytes a) t)"
    using fit by (simp add: fits_def nk_bit_vec_def bv_wire_bytes_def nk_forward data)
next
  fix pre suf a r'
  assume "nk_bit_vec (At pre suf) = Inr (a, r')"
  then obtain len data t where suf: "suf = u16_to_be len @ u32_to_be (word_of_nat (bv_data_len len)) @ data @ t"
    and r': "r' = At (pre @ u16_to_be len @ u32_to_be (word_of_nat (bv_data_len len)) @ data) t"
    and data: "length data = bv_data_len len"
    and wire: "bv_from_wire_bytes pox_treatment_max
      (u16_to_be len @ u32_to_be (word_of_nat (length data)) @ data) = Inr a"
    unfolding nk_bit_vec_def by (elim nk_backward) (auto split: sum.splits)
  from bv_from_wire_bytes_sound [OF wire] suf r' data
  show "bv_ok pox_treatment_max a \<and> (\<exists>t. suf = bv_wire_bytes a @ t \<and> r' = At (pre @ bv_wire_bytes a) t)"
    by auto
qed

interpretation header: wire_codec read_header encode_header header_ok
proof
  fix h :: nakamoto_block_header and pre t
  assume ok: "header_ok h" and fit: "fits pre (encode_header h @ t)"
  show "read_header (At pre (encode_header h @ t)) = Inr (h, At (pre @ encode_header h) t)"
  proof (cases "has_problematic (nh_version h)")
    case True
    then show ?thesis
      using ok fit
      by (simp add: fits_def read_header_def encode_header_def encode_without_signatures_def header_ok_def
          encode_problematic_transactions_def nk_forward nk_signatures.dec_enc_len nk_bit_vec.dec_enc_len
          nk_problematic_transactions.dec_enc_len)
  next
    case False
    then show ?thesis
      using ok fit
      by (simp add: fits_def read_header_def encode_header_def encode_without_signatures_def header_ok_def
          encode_problematic_transactions_def nk_forward nk_signatures.dec_enc_len nk_bit_vec.dec_enc_len)
  qed
next
  fix pre suf h r'
  assume "read_header (At pre suf) = Inr (h, r')"
  then show "header_ok h \<and> (\<exists>t. suf = encode_header h @ t \<and> r' = At (pre @ encode_header h) t)"
    unfolding read_header_def
    by (elim nk_backward nk_signatures.bind_enc_decE nk_bit_vec.bind_enc_decE)
       (auto simp: header_ok_def encode_header_def encode_without_signatures_def encode_problematic_transactions_def
         split: if_splits elim!: nk_problematic_transactions.enc_decE)
qed

section \<open>The block codec\<close>

definition block_ok :: "(bytes \<Rightarrow> bytes) \<Rightarrow> (bytes \<Rightarrow> bool) \<Rightarrow> nakamoto_block \<Rightarrow> bool" where
  "block_ok sha512_256 vrf_ok b \<longleftrightarrow> header_ok (nb_header b) \<and> length (nb_transactions b) < 2 ^ 32 \<and>
     (\<forall>tx \<in> set (nb_transactions b). tx_ok vrf_ok tx) \<and> distinct (map (txid sha512_256) (nb_transactions b)) \<and>
     transaction_merkle_root sha512_256 (nb_transactions b) = nh_transaction_merkle_root (nb_header b)"

text \<open>A transaction on the wire, with whatever version byte it carried.\<close>

definition wire_transaction :: "byte \<times> transaction \<Rightarrow> bytes" where
  "wire_transaction = (\<lambda>(v, tx). v # tl (encode_transaction tx))"

lemma length_wire_transaction: "length (wire_transaction x) = length (encode_transaction (snd x))"
  by (cases x; cases "encode_transaction (snd x)") (simp_all add: wire_transaction_def)

lemma drop_At: "drop (rd_offset (At pre suf)) (rd_bytes (At pre suf)) = suf"
  by simp

lemma nk_transaction_forward:
  assumes "tx_ok vrf_ok tx" "\<forall>pc \<in> set (tx_post_conditions tx). \<forall>c. pc_data pc \<noteq> PcdPox PcOrigin c"
    and "length pre + length (encode_transaction tx) + length t \<le> usize_max"
  shows "nk_transaction vrf_ok (At pre (encode_transaction tx @ t)) = Inr (tx, At (pre @ encode_transaction tx) t)"
  using decode_encode_transaction_guarded [OF assms(1), of t] count_guard_no_pox [OF assms(1,2), of t] assms(3)
  unfolding nk_transaction_def drop_At by (simp add: nk_slices.slice_append)

lemma nk_transaction_backward:
  assumes "nk_transaction vrf_ok (At pre suf) = Inr (tx, r')"
  shows "\<exists>x t. (snd x = tx \<and> tx_ok vrf_ok tx \<and> version_parse (fst x) = tx_version tx) \<and>
    suf = wire_transaction x @ t \<and> r' = At (pre @ wire_transaction x) t"
proof -
  from assms obtain n where dec: "decode_transaction vrf_ok suf = Inr (tx, n)"
    and take: "bind_r (nk_take n) (\<lambda>_. ret_r tx) (At pre suf) = Inr (tx, r')"
    unfolding nk_transaction_def drop_At by (auto split: sum.splits)
  from dec obtain v t where v: "suf = wire_transaction (v, tx) @ t" "version_parse v = tx_version tx"
    "n = length (encode_transaction tx)" "tx_ok vrf_ok tx"
    by (rule decode_transactionE) (simp add: wire_transaction_def)
  have len: "length (wire_transaction (v, tx)) = n"
    using v(3) length_wire_transaction [of "(v, tx)"] by simp
  from take obtain x t' where "suf = x @ t'" "length x = n" "r' = At (pre @ x) t'"
    by (auto elim!: nk_slices.sliceE)
  with v(1) len have "r' = At (pre @ wire_transaction (v, tx)) t" by simp
  with v show ?thesis by (intro exI [of _ "(v, tx)"] exI [of _ t]) simp
qed

lemma read_block_parts_backward:
  assumes "read_block_parts vrf_ok (At [] bs) = Inr ((header, txs), r')"
  shows "header_ok header \<and> length txs < 2 ^ 32 \<and> (\<forall>tx \<in> set txs. tx_ok vrf_ok tx) \<and>
    (\<exists>xs t. map snd xs = txs \<and> (\<forall>(v, tx) \<in> set xs. version_parse v = tx_version tx) \<and>
      bs = encode_header header @ u32_to_be (word_of_nat (length txs)) @ concat (map wire_transaction xs) @ t \<and>
      rd_offset r' + length t = length bs)"
proof -
  from assms obtain n t where bs: "bs = encode_header header @ u32_to_be n @ t" and ok: "header_ok header"
    and run: "times_r (unat n) (nk_transaction vrf_ok) (At (encode_header header @ u32_to_be n) t) = Inr (txs, r')"
    unfolding read_block_parts_def by (elim nk_backward header.bind_enc_decE) auto
  let ?P = "\<lambda>tx x. snd x = tx \<and> tx_ok vrf_ok tx \<and> version_parse (fst x) = tx_version tx"
  from times_r_backward [of "nk_transaction vrf_ok" ?P wire_transaction, OF nk_transaction_backward run]
  obtain xs t' where xs: "list_all2 ?P txs xs"
    "length xs = unat n" "t = concat (map wire_transaction xs) @ t'"
    "r' = At ((encode_header header @ u32_to_be n) @ concat (map wire_transaction xs)) t'"
    by blast
  have "map snd xs = txs \<and> (\<forall>tx \<in> set txs. tx_ok vrf_ok tx) \<and> (\<forall>(v, tx) \<in> set xs. version_parse v = tx_version tx)"
    using xs(1) by (induction rule: list_all2_induct) auto
  moreover from this xs(2) have "length txs = unat n" by (metis length_map)
  moreover from this have "word_of_nat (length txs) = n" "length txs < 2 ^ 32"
    using unat_bound [of n] by simp_all
  ultimately show ?thesis using bs ok xs(3,4) by auto
qed

lemma validate_block_Inr_iff:
  "validate_block h header txs = Inr b \<longleftrightarrow> b = \<lparr>nb_header = header, nb_transactions = txs\<rparr> \<and>
     distinct (map (txid h) txs) \<and> transaction_merkle_root h txs = nh_transaction_merkle_root header"
proof -
  have "card (set (map (txid h) txs)) = length txs \<longleftrightarrow> distinct (map (txid h) txs)"
    by (metis card_distinct distinct_card length_map)
  then show ?thesis by (auto simp: validate_block_def)
qed

text \<open>C5: a block that \<open>NakamotoBlock::decode\<close> accepts has a well-formed header, well-formed transactions with
  distinct ids and the Merkle root its header commits to, and the input is the block's encoding except for
  the unused bits of the transactions' version bytes.\<close>

theorem decode_block_sound:
  assumes "decode_block h vrf_ok bs = Inr b"
  shows "block_ok h vrf_ok b \<and> length bs = length (encode_block b) \<and>
    (\<exists>xs. map snd xs = nb_transactions b \<and> (\<forall>(v, tx) \<in> set xs. version_parse v = tx_version tx) \<and>
      bs = encode_header (nb_header b) @ u32_to_be (word_of_nat (length (nb_transactions b))) @
        concat (map wire_transaction xs))"
proof -
  from assms obtain header txs r' where parts: "read_block_parts vrf_ok (At [] bs) = Inr ((header, txs), r')"
    and valid: "validate_block h header txs = Inr b" and "rd_offset r' = length bs"
    by (auto simp: decode_block_def decode_prefix_def rd_new_At bind_e_Inr_iff split: sum.splits if_splits)
  with read_block_parts_backward [OF parts] obtain xs where xs: "map snd xs = txs"
    "\<forall>(v, tx) \<in> set xs. version_parse v = tx_version tx" "header_ok header" "length txs < 2 ^ 32"
    "\<forall>tx \<in> set txs. tx_ok vrf_ok tx"
    "bs = encode_header header @ u32_to_be (word_of_nat (length txs)) @ concat (map wire_transaction xs)"
    by auto
  have "length (concat (map wire_transaction xs)) = length (concat (map encode_transaction (map snd xs)))"
    by (simp add: length_concat comp_def length_wire_transaction)
  with xs valid show ?thesis
    by (auto simp: validate_block_Inr_iff block_ok_def encode_block_def)
qed

lemma decode_encode_block:
  assumes ok: "block_ok h vrf_ok b" and fit: "length (encode_block b) \<le> usize_max"
    and pox: "\<forall>tx \<in> set (nb_transactions b). \<forall>pc \<in> set (tx_post_conditions tx). \<forall>c. pc_data pc \<noteq> PcdPox PcOrigin c"
  shows "decode_block h vrf_ok (encode_block b) = Inr b"
proof -
  let ?txs = "nb_transactions b" and ?head = "encode_header (nb_header b) @ u32_to_be (word_of_nat (length (nb_transactions b)))"
  let ?body = "concat (map encode_transaction ?txs)"
  have "1 * length ?txs \<le> length ?body"
    by (intro length_concat_ge) (simp add: Suc_le_eq)
  moreover have "times_r (length ?txs) (nk_transaction vrf_ok) (At ?head ?body) = Inr (map id ?txs, At (?head @ ?body) [])"
    using times_r_forward [of ?txs encode_transaction "nk_transaction vrf_ok" id ?head "[]"] ok fit pox
    by (simp add: nk_transaction_forward block_ok_def encode_block_def)
  ultimately have "read_block_parts vrf_ok (At [] (encode_block b)) = Inr ((nb_header b, ?txs), At (?head @ ?body) [])"
    using ok fit
    by (simp add: read_block_parts_def encode_block_def block_ok_def header.dec_enc_len nk_forward unat_of_length_u32)
  moreover have "validate_block h (nb_header b) ?txs = Inr b"
    using ok by (simp add: validate_block_Inr_iff block_ok_def)
  ultimately show ?thesis
    by (simp add: decode_block_def decode_prefix_def rd_new_At encode_block_def)
qed

text \<open>C30: decoding the encoding of a well-formed block gives back the block, unless one of its transactions
  has a proof-of-transfer post-condition on its origin.\<close>

theorem block_roundtrip:
  assumes "block_ok h vrf_ok b" and "length (encode_block b) \<le> usize_max"
    and "\<forall>tx \<in> set (nb_transactions b). \<forall>pc \<in> set (tx_post_conditions tx). \<forall>c. pc_data pc \<noteq> PcdPox PcOrigin c"
  shows "decode_block h vrf_ok (encode_block b) = Inr b"
  using assms by (rule decode_encode_block)

section \<open>Block identifiers\<close>

text \<open>Everything a block hash covers: the header without the signer signatures.\<close>

definition hashed_part :: "nakamoto_block_header \<Rightarrow> nakamoto_block_header" where
  "hashed_part h = h\<lparr>nh_signer_signatures := []\<rparr>"

lemma u64_to_be_inject [simp]: "u64_to_be a = u64_to_be b \<longleftrightarrow> a = b"
  by (metis u64_from_to_be)

lemma encode_without_signatures_inject:
  assumes "header_ok a" "header_ok b" "encode_without_signatures a @ s = encode_without_signatures b @ t"
  shows "nh_version a = nh_version b \<and> nh_chain_length a = nh_chain_length b \<and>
    nh_bitcoin_spent a = nh_bitcoin_spent b \<and> nh_consensus_hash a = nh_consensus_hash b \<and>
    nh_parent_block_id a = nh_parent_block_id b \<and> nh_transaction_merkle_root a = nh_transaction_merkle_root b \<and>
    nh_state_index_root a = nh_state_index_root b \<and> nh_timestamp a = nh_timestamp b \<and> s = t"
  using assms by (simp add: encode_without_signatures_def header_ok_def)

lemma signing_bytes_inject:
  assumes ok: "header_ok a" "header_ok b" and fit: "length (signing_bytes a True) \<le> usize_max"
    and eq: "signing_bytes a True = signing_bytes b True"
  shows "hashed_part a = hashed_part b"
proof -
  let ?p = encode_problematic_transactions
  have 1: "encode_without_signatures a @ nh_miner_signature a @ bv_wire_bytes (nh_pox_treatment a) @ ?p a =
      encode_without_signatures b @ nh_miner_signature b @ bv_wire_bytes (nh_pox_treatment b) @ ?p b"
    using eq by (simp add: signing_bytes_def)
  note fixed = encode_without_signatures_inject [OF ok 1]
  have miner: "nh_miner_signature a = nh_miner_signature b"
    and 2: "bv_wire_bytes (nh_pox_treatment a) @ ?p a = bv_wire_bytes (nh_pox_treatment b) @ ?p b"
    using fixed ok by (simp_all add: header_ok_def)
  have pox: "nh_pox_treatment a = nh_pox_treatment b" and 3: "?p a = ?p b"
    using nk_bit_vec.enc_unique [OF _ _ 2] ok fit by (simp_all add: header_ok_def signing_bytes_def)
  have "nh_problematic_transactions a = nh_problematic_transactions b"
  proof (cases "has_problematic (nh_version a)")
    case True
    with 3 fixed have "w_problematic_transactions (nh_problematic_transactions a) =
        w_problematic_transactions (nh_problematic_transactions b)"
      by (simp add: encode_problematic_transactions_def)
    moreover have "length (w_problematic_transactions (nh_problematic_transactions a)) \<le> usize_max"
      using fit True by (simp add: signing_bytes_def encode_problematic_transactions_def)
    ultimately show ?thesis
      using ok nk_problematic_transactions.enc_inject
        [where a = "nh_problematic_transactions a" and b = "nh_problematic_transactions b"]
      by (simp add: header_ok_def)
  next
    case False
    then show ?thesis using fixed ok by (simp add: header_ok_def)
  qed
  with fixed miner pox show ?thesis by (simp add: hashed_part_def)
qed

text \<open>C31: a block id commits to the header except for the signer signatures. Two well-formed headers with one
  id that differ elsewhere make two different inputs with the same hash.\<close>

theorem block_id_binds:
  assumes ok: "header_ok a" "header_ok b" and fit: "length (signing_bytes a True) \<le> usize_max"
    and id: "header_block_id h a = header_block_id h b" and neq: "hashed_part a \<noteq> hashed_part b"
  shows "collision h {signing_bytes a True, signing_bytes b True,
    block_hash h a @ nh_consensus_hash a, block_hash h b @ nh_consensus_hash b}"
proof (cases "block_hash h a @ nh_consensus_hash a = block_hash h b @ nh_consensus_hash b")
  case True
  with ok have "block_hash h a = block_hash h b" by (simp add: header_ok_def)
  moreover have "signing_bytes a True \<noteq> signing_bytes b True"
    using signing_bytes_inject [OF ok fit] neq by blast
  ultimately show ?thesis
    by (intro collisionI [of "signing_bytes a True" _ "signing_bytes b True"])
       (simp_all add: block_hash_def signer_signature_hash_def)
next
  case False
  with id show ?thesis
    by (intro collisionI [of "block_hash h a @ nh_consensus_hash a" _ "block_hash h b @ nh_consensus_hash b"])
       (simp_all add: header_block_id_def)
qed

section \<open>Chains of blocks\<close>

text \<open>Headers linked by \<open>validate_successor\<close>, from the oldest. The relation is the reachability of a chain that
  starts at a given header.\<close>

inductive linked :: "(bytes \<Rightarrow> bytes) \<Rightarrow> nakamoto_block_header \<Rightarrow> nakamoto_block list \<Rightarrow> nakamoto_block_header \<Rightarrow> bool"
  for h where
  start: "linked h anchor [] anchor"
| extend: "linked h anchor blocks tip \<Longrightarrow> validate_successor h b tip = Inr () \<Longrightarrow>
     linked h anchor (blocks @ [b]) (nb_header b)"

inductive_cases linked_emptyE: "linked h anchor [] tip"
inductive_cases linked_snocE: "linked h anchor (blocks @ [b]) tip"

lemma validate_successor_Inr_iff:
  "validate_successor h b parent = Inr () \<longleftrightarrow>
     nh_parent_block_id (nb_header b) = header_block_id h parent \<and>
     nh_chain_length (nb_header b) = saturating_succ (nh_chain_length parent) \<and>
     nh_timestamp parent < nh_timestamp (nb_header b) \<and>
     (nh_consensus_hash (nb_header b) = nh_consensus_hash parent \<or>
      (\<exists>tx \<in> set (nb_transactions b). payload_kind (tp_data (tx_payload tx)) = PtTenureChange))"
  by (auto simp: validate_successor_def not_le)

lemma saturating_succ_unat: "unat (saturating_succ n) = min (Suc (unat n)) (2 ^ 64 - 1)"
proof (cases "n = - 1")
  case True
  then show ?thesis
    by (simp add: saturating_succ_def unsigned_minus_1_eq_mask mask_eq_exp_minus_1)
next
  case False
  then show ?thesis
    using unat_succ_u64 [OF False] unat_bound [of "n + 1"] by (simp add: saturating_succ_def)
qed

lemma linked_counts:
  assumes "linked h anchor blocks tip"
  shows "unat (nh_chain_length tip) = min (unat (nh_chain_length anchor) + length blocks) (2 ^ 64 - 1) \<and>
    unat (nh_timestamp anchor) + length blocks \<le> unat (nh_timestamp tip)"
  using assms
proof induction
  case (start anchor)
  then show ?case using unat_bound [of "nh_chain_length anchor"] by simp
next
  case (extend anchor blocks tip b)
  then have "unat (nh_timestamp tip) < unat (nh_timestamp (nb_header b))"
    by (simp add: validate_successor_Inr_iff word_less_nat_alt)
  with extend show ?case
    by (auto simp: validate_successor_Inr_iff saturating_succ_unat)
qed

text \<open>C32: in a chain of blocks each accepted by \<open>validate_successor\<close>, the tip's chain length is the anchor's
  length plus the number of blocks, up to the largest 64-bit value, and the timestamps grow by at least one
  per block, which bounds the number of blocks by the 64-bit range.\<close>

theorem linked_chain_lengths:
  assumes "linked h anchor blocks tip"
  shows "unat (nh_chain_length tip) = min (unat (nh_chain_length anchor) + length blocks) (2 ^ 64 - 1) \<and>
    unat (nh_timestamp anchor) + length blocks \<le> unat (nh_timestamp tip) \<and> length blocks < 2 ^ 64"
  using linked_counts [OF assms] unat_bound [of "nh_timestamp tip"] by auto

section \<open>Concrete blocks\<close>

definition sample_header :: "bytes \<Rightarrow> u64 \<Rightarrow> nakamoto_block_header" where
  "sample_header root n = \<lparr>nh_version = 1, nh_chain_length = n, nh_bitcoin_spent = 7,
     nh_consensus_hash = replicate 20 1, nh_parent_block_id = replicate 32 0, nh_transaction_merkle_root = root,
     nh_state_index_root = replicate 32 3, nh_timestamp = n, nh_miner_signature = replicate 65 0,
     nh_signer_signatures = [replicate 65 1], nh_pox_treatment = \<lparr>bv_data = [255], bv_len = 8\<rparr>,
     nh_problematic_transactions = [\<lparr>pt_index = 0, pt_category = 1\<rparr>]\<rparr>"

definition sample_block :: nakamoto_block where
  "sample_block = \<lparr>nb_header = sample_header (replicate 32 0) 5, nb_transactions = [sample_transaction 1 []]\<rparr>"

lemma sample_header_ok: "length root = 32 \<Longrightarrow> header_ok (sample_header root n)"
  by (simp add: header_ok_def sample_header_def has_problematic_def bv_ok_def bv_data_len_def pox_treatment_max_def)

lemma sample_block_ok: "block_ok (\<lambda>_. replicate 32 0) (\<lambda>_. True) sample_block"
  using sample_transaction_ok [of "[]" "\<lambda>_. True" 1]
  by (simp add: block_ok_def sample_block_def sample_header_ok transaction_merkle_root_def pad_level_def
      tagged_hash_def merkle_levels.simps) (simp add: sample_header_def)

lemma sample_block_fits: "length (encode_block sample_block) \<le> usize_max"
  by (simp add: encode_block_def sample_block_def encode_header_def encode_without_signatures_def sample_header_def
      w_signatures_def w_counted_def bv_wire_bytes_def encode_problematic_transactions_def w_problematic_transactions_def
      w_problematic_transaction_def length_sample_transaction usize_max_def)

theorem block_roundtrip_witness:
  "decode_block (\<lambda>_. replicate 32 0) (\<lambda>_. True) (encode_block sample_block) = Inr sample_block"
  by (rule block_roundtrip [OF sample_block_ok sample_block_fits]) (simp add: sample_block_def)

theorem decode_block_sound_witness:
  "decode_block (\<lambda>_. replicate 32 0) (\<lambda>_. True) (encode_block sample_block) = Inr sample_block \<and>
   block_ok (\<lambda>_. replicate 32 0) (\<lambda>_. True) sample_block"
proof -
  have "decode_block (\<lambda>_. replicate 32 0) (\<lambda>_. True) (encode_block sample_block) = Inr sample_block"
    by (rule decode_encode_block [OF sample_block_ok sample_block_fits]) (simp add: sample_block_def)
  with decode_block_sound [OF this] show ?thesis by blast
qed

theorem block_id_binds_witness:
  "collision (\<lambda>_. replicate 32 0 :: bytes)
     {signing_bytes (sample_header (replicate 32 0) 1) True, signing_bytes (sample_header (replicate 32 0) 2) True,
      block_hash (\<lambda>_. replicate 32 0) (sample_header (replicate 32 0) 1) @ replicate 20 1,
      block_hash (\<lambda>_. replicate 32 0) (sample_header (replicate 32 0) 2) @ replicate 20 1}"
proof -
  have "length (signing_bytes (sample_header (replicate 32 0) 1) True) \<le> usize_max"
    by (simp add: signing_bytes_def encode_without_signatures_def sample_header_def w_counted_def bv_wire_bytes_def
        encode_problematic_transactions_def w_problematic_transactions_def w_problematic_transaction_def usize_max_def)
  moreover have "nh_chain_length (hashed_part (sample_header (replicate 32 0) 1)) \<noteq>
      nh_chain_length (hashed_part (sample_header (replicate 32 0) 2))"
    by (simp add: hashed_part_def sample_header_def)
  then have "hashed_part (sample_header (replicate 32 0) 1) \<noteq> hashed_part (sample_header (replicate 32 0) 2)"
    by metis
  moreover have "nh_consensus_hash (sample_header (replicate 32 0) n) = replicate 20 1" for n
    by (simp add: sample_header_def)
  ultimately show ?thesis
    using block_id_binds [of "sample_header (replicate 32 0) 1" "sample_header (replicate 32 0) 2" "\<lambda>_. replicate 32 0"]
    by (simp add: sample_header_ok header_block_id_def)
qed

theorem linked_chain_lengths_witness:
  "linked (\<lambda>_. replicate 32 0) (sample_header (replicate 32 9) 4) [sample_block] (nb_header sample_block) \<and>
   unat (nh_chain_length (nb_header sample_block)) = 5"
proof -
  have "validate_successor (\<lambda>_. replicate 32 0) sample_block (sample_header (replicate 32 9) 4) = Inr ()"
    by (simp add: validate_successor_Inr_iff sample_block_def sample_header_def header_block_id_def saturating_succ_def)
  with linked.extend [OF linked.start] have link:
    "linked (\<lambda>_. replicate 32 0) (sample_header (replicate 32 9) 4) [sample_block] (nb_header sample_block)"
    by fastforce
  with linked_chain_lengths [OF link] show ?thesis
    by (simp add: sample_header_def)
qed

end
