(* ===== verification/Auth_Verify.thy ===== *)
theory Auth_Verify
  imports Transaction Crypto
begin

text \<open>
  Authorization checks of the crate \<open>nano-codec\<close>: the signature chain over a transaction, the address
  hash of the recovered keys, and \<open>verify_authorization\<close>. The hash functions and the secp256k1
  library are the fields of \<open>auth_api\<close>, the first argument of every definition that calls them.
\<close>

record ('rsig, 'sig, 'pk, 'sk) auth_api =
  au_secp :: "('rsig, 'sig, 'pk, 'sk) secp"
  sha512_256 :: "bytes \<Rightarrow> bytes"
  sha256 :: "bytes \<Rightarrow> bytes"
  hash160 :: "bytes \<Rightarrow> bytes"

section \<open>The signature chain\<close>

definition origin_auth_flag :: byte where
  "origin_auth_flag = 0x04"

definition sponsor_auth_flag :: byte where
  "sponsor_auth_flag = 0x05"

definition encoded_key :: "('r, 's, 'p, 'k) auth_api \<Rightarrow> 'p \<Rightarrow> key_encoding \<Rightarrow> bytes" where
  "encoded_key api key encoding = (case encoding of
       Compressed \<Rightarrow> pk_serialize (au_secp api) key
     | Uncompressed \<Rightarrow> pk_serialize_uncompressed (au_secp api) key)"

definition presign_sighash ::
  "('r, 's, 'p, 'k) auth_api \<Rightarrow> bytes \<Rightarrow> byte \<Rightarrow> u64 \<Rightarrow> u64 \<Rightarrow> bytes" where
  "presign_sighash api current auth_flag fee nonce =
     sha512_256 api (current @ [auth_flag] @ u64_to_be fee @ u64_to_be nonce)"

definition postsign_sighash ::
  "('r, 's, 'p, 'k) auth_api \<Rightarrow> bytes \<Rightarrow> key_encoding \<Rightarrow> bytes \<Rightarrow> bytes" where
  "postsign_sighash api current encoding signature =
     sha512_256 api (current @ [key_encoding_byte encoding] @ signature)"

definition recover_key ::
  "('r, 's, 'p, 'k) auth_api \<Rightarrow> bytes \<Rightarrow> byte \<Rightarrow> u64 \<Rightarrow> u64 \<Rightarrow> key_encoding \<Rightarrow> bytes
    \<Rightarrow> codec_error + bytes \<times> bytes" where
  "recover_key api current auth_flag fee nonce encoding signature =
     bind_e (map_err InvalidAuth (is_low_s (au_secp api) signature)) (\<lambda>low.
     if \<not> low then Inl InvalidAuth
     else let presign = presign_sighash api current auth_flag fee nonce in
       bind_e (map_err InvalidAuth (recover (au_secp api) signature presign)) (\<lambda>key.
       Inr (encoded_key api key encoding, postsign_sighash api presign encoding signature)))"

section \<open>Address hashes\<close>

definition script_small_int :: "nat \<Rightarrow> codec_error + byte" where
  "script_small_int v = (if v < 256 \<and> 1 \<le> v \<and> v \<le> 16 then Inr (0x50 + word_of_nat v) else Inl InvalidAuth)"

primrec push_keys :: "bytes list \<Rightarrow> codec_error + bytes" where
  "push_keys [] = Inr []"
| "push_keys (key # keys) = (if length key < 256
     then bind_e (push_keys keys) (\<lambda>script. Inr (word_of_nat (length key) # key @ script))
     else Inl InvalidAuth)"

definition multisig_script :: "nat \<Rightarrow> bytes list \<Rightarrow> codec_error + bytes" where
  "multisig_script signatures_required keys =
     bind_e (script_small_int signatures_required) (\<lambda>required.
     bind_e (script_small_int (length keys)) (\<lambda>key_count.
     bind_e (push_keys keys) (\<lambda>pushes. Inr (required # pushes @ [key_count, 0xae]))))"

definition address_hash ::
  "('r, 's, 'p, 'k) auth_api \<Rightarrow> address_hash_mode \<Rightarrow> u16 \<Rightarrow> bytes list \<Rightarrow> codec_error + bytes" where
  "address_hash api mode signatures_required keys =
     (let required = unat signatures_required in
      if required = 0 \<or> length keys < required \<or> 16 < length keys then Inl InvalidAuth
      else case mode of
        AhmP2pkh \<Rightarrow>
          if required \<noteq> 1 \<or> length keys \<noteq> 1 then Inl InvalidAuth else Inr (hash160 api (keys ! 0))
      | AhmP2wpkh \<Rightarrow>
          if required \<noteq> 1 \<or> length keys \<noteq> 1 \<or> length (keys ! 0) \<noteq> 33 then Inl InvalidAuth
          else Inr (hash160 api ([0, 20] @ hash160 api (keys ! 0)))
      | AhmP2sh \<Rightarrow> bind_e (multisig_script required keys) (\<lambda>script. Inr (hash160 api script))
      | AhmP2wsh \<Rightarrow>
          if \<exists>key \<in> set keys. length key \<noteq> 33 then Inl InvalidAuth
          else bind_e (multisig_script required keys) (\<lambda>script.
            Inr (hash160 api ([0, 32] @ sha256 api script))))"

section \<open>Conditions\<close>

record multisig_verification =
  mv_signer :: bytes
  mv_fee :: u64
  mv_nonce :: u64
  mv_fields :: "auth_field list"
  mv_signatures_required :: u16
  mv_mode :: address_hash_mode
  mv_order_independent :: bool

text \<open>The loop over the fields: the keys so far, the current hash and the signatures counted.\<close>

primrec verify_fields ::
  "('r, 's, 'p, 'k) auth_api \<Rightarrow> byte \<Rightarrow> multisig_verification \<Rightarrow> auth_field list \<Rightarrow> bytes list \<Rightarrow> bytes
    \<Rightarrow> u16 \<Rightarrow> codec_error + bytes list \<times> bytes \<times> u16" where
  "verify_fields api auth_flag v [] keys current signatures = Inr (keys, current, signatures)"
| "verify_fields api auth_flag v (field # flds) keys current signatures =
     (case field of
        FieldPublicKey encoding bs \<Rightarrow>
          bind_e (map_err InvalidAuth (public_key_from_bytes (au_secp api) bs)) (\<lambda>key.
          if encoded_key api key encoding \<noteq> bs then Inl InvalidAuth
          else verify_fields api auth_flag v flds (keys @ [bs]) current signatures)
      | FieldSignature encoding signature \<Rightarrow>
          bind_e (recover_key api current auth_flag (mv_fee v) (mv_nonce v) encoding signature) (\<lambda>(key, next).
          if signatures = - 1 then Inl InvalidAuth
          else verify_fields api auth_flag v flds (keys @ [key])
            (if mv_order_independent v then current else next) (signatures + 1)))"

definition verify_multisig ::
  "('r, 's, 'p, 'k) auth_api \<Rightarrow> bytes \<Rightarrow> byte \<Rightarrow> multisig_verification \<Rightarrow> codec_error + bytes" where
  "verify_multisig api initial_sighash auth_flag v =
     bind_e (verify_fields api auth_flag v (mv_fields v) [] initial_sighash 0) (\<lambda>(keys, current, signatures).
     let signatures_match = (if mv_order_independent v then mv_signatures_required v \<le> signatures
                             else signatures = mv_signatures_required v) in
     if \<not> signatures_match then Inl InvalidAuth
     else bind_e (address_hash api (mv_mode v) (mv_signatures_required v) keys) (\<lambda>h.
       if h \<noteq> mv_signer v then Inl InvalidAuth
       else Inr (if mv_order_independent v then initial_sighash else current)))"

definition verify_condition ::
  "('r, 's, 'p, 'k) auth_api \<Rightarrow> spending_condition \<Rightarrow> bytes \<Rightarrow> byte \<Rightarrow> codec_error + bytes" where
  "verify_condition api condition initial_sighash auth_flag = (case condition of
       Singlesig c \<Rightarrow>
         bind_e (recover_key api initial_sighash auth_flag (ss_fee c) (ss_nonce c) (ss_key_encoding c) (ss_signature c))
           (\<lambda>(key, next_sighash).
         bind_e (address_hash api (case ss_hash_mode c of SsP2pkh \<Rightarrow> AhmP2pkh | SsP2wpkh \<Rightarrow> AhmP2wpkh) 1 [key]) (\<lambda>h.
         if h \<noteq> ss_signer c then Inl InvalidAuth else Inr next_sighash))
     | Multisig c \<Rightarrow> verify_multisig api initial_sighash auth_flag
         \<lparr>mv_signer = ms_signer c, mv_fee = ms_fee c, mv_nonce = ms_nonce c, mv_fields = ms_fields c,
          mv_signatures_required = ms_signatures_required c,
          mv_mode = (case ms_hash_mode c of MsP2sh \<Rightarrow> AhmP2sh | MsP2wsh \<Rightarrow> AhmP2wsh),
          mv_order_independent = False\<rparr>
     | OrderIndependentMultisig c \<Rightarrow> verify_multisig api initial_sighash auth_flag
         \<lparr>mv_signer = oi_signer c, mv_fee = oi_fee c, mv_nonce = oi_nonce c, mv_fields = oi_fields c,
          mv_signatures_required = oi_signatures_required c,
          mv_mode = (case oi_hash_mode c of OiP2sh \<Rightarrow> AhmP2sh | OiP2wsh \<Rightarrow> AhmP2wsh),
          mv_order_independent = True\<rparr>)"

definition verify_auth ::
  "('r, 's, 'p, 'k) auth_api \<Rightarrow> transaction_auth \<Rightarrow> bytes \<Rightarrow> codec_error + unit" where
  "verify_auth api auth initial_sighash =
     bind_e (verify_condition api (auth_origin auth) initial_sighash origin_auth_flag) (\<lambda>origin_sighash.
     case auth_sponsor auth of
       None \<Rightarrow> Inr ()
     | Some sponsor \<Rightarrow> bind_e (verify_condition api sponsor origin_sighash sponsor_auth_flag) (\<lambda>_. Inr ()))"

section \<open>Transactions\<close>

definition initial_sighash :: "('r, 's, 'p, 'k) auth_api \<Rightarrow> transaction \<Rightarrow> bytes" where
  "initial_sighash api tx =
     txid (sha512_256 api) (tx\<lparr>tx_auth := initial_sighash_auth (tx_auth tx), tx_bytes := []\<rparr>)"

definition verify_authorization :: "('r, 's, 'p, 'k) auth_api \<Rightarrow> transaction \<Rightarrow> codec_error + unit" where
  "verify_authorization api tx = verify_auth api (tx_auth tx) (initial_sighash api tx)"

definition sign_standard ::
  "('r, 's, 'p, 'k) auth_api \<Rightarrow> transaction_version \<Rightarrow> u32 \<Rightarrow> anchor_mode \<Rightarrow> 'k \<Rightarrow> u64 \<Rightarrow> u64
    \<Rightarrow> transaction_payload_data \<Rightarrow> codec_error + transaction" where
  "sign_standard api version chain_id anchor_mode key nonce fee payload =
     (let public_key = pk_serialize (au_secp api) (pk_from_secret_key (au_secp api) key) in
      bind_e (address_hash api AhmP2pkh 1 [public_key]) (\<lambda>signer.
      let condition = (\<lambda>signature. \<lparr>ss_hash_mode = SsP2pkh, ss_signer = signer, ss_nonce = nonce, ss_fee = fee,
            ss_key_encoding = Compressed, ss_signature = signature\<rparr>);
          tx = \<lparr>tx_bytes = [], tx_version = version, tx_chain_id = chain_id,
            tx_auth = AuthStandard (Singlesig (condition (replicate 65 0))), tx_anchor_mode = anchor_mode,
            tx_post_condition_mode = PcmDeny, tx_post_conditions = [], tx_payload = payload_new payload\<rparr>;
          cleared_tx = tx\<lparr>tx_auth := initial_sighash_auth (tx_auth tx)\<rparr>;
          presign = presign_sighash api (txid (sha512_256 api) cleared_tx) origin_auth_flag fee nonce;
          signature = sign (au_secp api) key presign;
          tx = tx\<lparr>tx_auth := AuthStandard (Singlesig (condition signature))\<rparr>;
          tx = tx\<lparr>tx_bytes := encode_transaction tx\<rparr>
      in bind_e (verify_authorization api tx) (\<lambda>_. Inr tx)))"

section \<open>What a verified multi-signature condition means\<close>

text \<open>The specification: the hash the next signature extends after a prefix of the fields, and the key
  a field stands for.\<close>

primrec chain_sighash ::
  "('r, 's, 'p, 'k) auth_api \<Rightarrow> byte \<Rightarrow> multisig_verification \<Rightarrow> bytes \<Rightarrow> auth_field list \<Rightarrow> bytes" where
  "chain_sighash api auth_flag v current [] = current"
| "chain_sighash api auth_flag v current (f # flds) = chain_sighash api auth_flag v (case f of
       FieldPublicKey _ _ \<Rightarrow> current
     | FieldSignature encoding signature \<Rightarrow> if mv_order_independent v then current
         else postsign_sighash api (presign_sighash api current auth_flag (mv_fee v) (mv_nonce v)) encoding signature) flds"

definition field_yields ::
  "('r, 's, 'p, 'k) auth_api \<Rightarrow> byte \<Rightarrow> multisig_verification \<Rightarrow> bytes \<Rightarrow> auth_field \<Rightarrow> bytes \<Rightarrow> bool" where
  "field_yields api auth_flag v current f key = (case f of
       FieldPublicKey encoding bs \<Rightarrow> key = bs \<and>
         (\<exists>pk. public_key_from_bytes (au_secp api) bs = Inr pk \<and> encoded_key api pk encoding = bs)
     | FieldSignature encoding signature \<Rightarrow> is_low_s (au_secp api) signature = Inr True \<and>
         (\<exists>pk. recover (au_secp api) signature (presign_sighash api current auth_flag (mv_fee v) (mv_nonce v)) = Inr pk \<and>
            key = encoded_key api pk encoding))"

fun fields_yield ::
  "('r, 's, 'p, 'k) auth_api \<Rightarrow> byte \<Rightarrow> multisig_verification \<Rightarrow> bytes \<Rightarrow> auth_field list \<Rightarrow> bytes list \<Rightarrow> bool" where
  "fields_yield api auth_flag v current [] keys \<longleftrightarrow> keys = []"
| "fields_yield api auth_flag v current (f # flds) [] \<longleftrightarrow> False"
| "fields_yield api auth_flag v current (f # flds) (key # keys) \<longleftrightarrow>
     field_yields api auth_flag v current f key \<and>
     fields_yield api auth_flag v (chain_sighash api auth_flag v current [f]) flds keys"

declare fields_yield.simps(2,3) [simp del]

lemma recover_key_Inr_iff:
  "recover_key api current auth_flag fee nonce encoding signature = Inr (key, next) \<longleftrightarrow>
     is_low_s (au_secp api) signature = Inr True \<and>
     (\<exists>pk. recover (au_secp api) signature (presign_sighash api current auth_flag fee nonce) = Inr pk \<and>
        key = encoded_key api pk encoding) \<and>
     next = postsign_sighash api (presign_sighash api current auth_flag fee nonce) encoding signature"
  by (auto simp: recover_key_def bind_e_Inr_iff Let_def)

lemma u16_succ:
  assumes "n \<noteq> (- 1 :: u16)"
  shows "unat (n + 1) = Suc (unat n)" "unat n < 65535"
proof -
  have "unat n \<noteq> unat (- 1 :: u16)"
    using assms by (simp add: word_unat_eq_iff)
  then show "unat n < 65535"
    using unat_bound [of n] by (simp add: unsigned_minus_1_eq_mask mask_eq_exp_minus_1)
  then show "unat (n + 1) = Suc (unat n)" by (simp add: unat_word_ariths)
qed

lemma u16_max_iff: "n = (- 1 :: u16) \<longleftrightarrow> unat n = 65535"
  by (simp add: word_unat_eq_iff unsigned_minus_1_eq_mask mask_eq_exp_minus_1)

lemma fields_yield_Cons:
  "fields_yield api auth_flag v current (f # flds) ks \<longleftrightarrow> (\<exists>k ks'. ks = k # ks' \<and>
     field_yields api auth_flag v current f k \<and>
     fields_yield api auth_flag v (chain_sighash api auth_flag v current [f]) flds ks')"
  by (cases ks) (auto simp: fields_yield.simps)

lemma signature_count_simps [simp]:
  "signature_count [] = 0"
  "signature_count (FieldPublicKey e bs # flds) = signature_count flds"
  "signature_count (FieldSignature e s # flds) = Suc (signature_count flds)"
  by (simp_all add: signature_count_def is_signature_field_def)

lemma verify_fields_iff:
  "verify_fields api auth_flag v flds keys0 current n0 = Inr (keys, final, n) \<longleftrightarrow>
     (\<exists>ks. keys = keys0 @ ks \<and> fields_yield api auth_flag v current flds ks) \<and>
     final = chain_sighash api auth_flag v current flds \<and>
     unat n0 + signature_count flds < 65536 \<and> unat n = unat n0 + signature_count flds"
proof (induction flds arbitrary: keys0 current n0)
  case Nil
  then show ?case using unat_bound [of n0]
    by (auto simp: word_unat_eq_iff)
next
  case (Cons f flds)
  show ?case
  proof (cases f)
    case (FieldPublicKey encoding bs)
    have "(\<exists>ks. keys = keys0 @ ks \<and> fields_yield api auth_flag v current (f # flds) ks) \<longleftrightarrow>
        (\<exists>pk. public_key_from_bytes (au_secp api) bs = Inr pk \<and> encoded_key api pk encoding = bs) \<and>
        (\<exists>ks. keys = (keys0 @ [bs]) @ ks \<and> fields_yield api auth_flag v current flds ks)"
      by (simp add: fields_yield_Cons field_yields_def FieldPublicKey) blast
    then show ?thesis
      by (simp add: FieldPublicKey bind_e_Inr_iff Cons.IH if_distrib [of "\<lambda>x. x = Inr _"]) blast
  next
    case (FieldSignature encoding signature)
    let ?pre = "presign_sighash api current auth_flag (mv_fee v) (mv_nonce v)"
    let ?next = "if mv_order_independent v then current else postsign_sighash api ?pre encoding signature"
    have "(\<exists>ks. keys = keys0 @ ks \<and> fields_yield api auth_flag v current (f # flds) ks) \<longleftrightarrow>
        (\<exists>pk. is_low_s (au_secp api) signature = Inr True \<and> recover (au_secp api) signature ?pre = Inr pk \<and>
          (\<exists>ks. keys = (keys0 @ [encoded_key api pk encoding]) @ ks \<and> fields_yield api auth_flag v ?next flds ks))"
      by (simp add: fields_yield_Cons field_yields_def FieldSignature) blast
    moreover have "n0 = - 1 \<longleftrightarrow> unat n0 = 65535" by (rule u16_max_iff)
    moreover have "n0 \<noteq> - 1 \<Longrightarrow> unat (n0 + 1) = Suc (unat n0)" by (rule u16_succ)
    ultimately show ?thesis
      by (cases "n0 = - 1")
         (simp_all add: FieldSignature bind_e_Inr_iff recover_key_Inr_iff Cons.IH split_paired_Ex, blast)
  qed
qed

lemma unat_of_nat_u16: "n < 65536 \<Longrightarrow> unat (word_of_nat n :: u16) = n"
  by (simp add: unat_of_nat)

text \<open>C4: \<open>verify_multisig\<close> accepts exactly when every field yields a key, a signature field by a
  normalized signature that recovers the key from the hash the chain has reached (the same hash for all
  of them in the order-independent mode), the number of signatures is the required one (at least the
  required one in the order-independent mode), and the address hash of all the keys is the signer. It
  then returns the end of the chain.\<close>

theorem verify_multisig_iff:
  "verify_multisig api init auth_flag v = Inr h \<longleftrightarrow>
     (\<exists>keys. fields_yield api auth_flag v init (mv_fields v) keys \<and>
        address_hash api (mv_mode v) (mv_signatures_required v) keys = Inr (mv_signer v)) \<and>
     signature_count (mv_fields v) < 65536 \<and>
     (if mv_order_independent v then unat (mv_signatures_required v) \<le> signature_count (mv_fields v)
      else signature_count (mv_fields v) = unat (mv_signatures_required v)) \<and>
     h = chain_sighash api auth_flag v init (mv_fields v)"
proof -
  have chain: "mv_order_independent v \<Longrightarrow> chain_sighash api auth_flag v current flds = current" for current flds
    by (induction flds) (simp_all split: auth_field.splits)
  have unfold: "verify_multisig api init auth_flag v = Inr h \<longleftrightarrow>
      (\<exists>keys current n. verify_fields api auth_flag v (mv_fields v) [] init 0 = Inr (keys, current, n) \<and>
        (if mv_order_independent v then unat (mv_signatures_required v) \<le> unat n
         else unat n = unat (mv_signatures_required v)) \<and>
        address_hash api (mv_mode v) (mv_signatures_required v) keys = Inr (mv_signer v) \<and>
        h = (if mv_order_independent v then init else current))"
    by (auto simp: verify_multisig_def bind_e_Inr_iff Let_def word_le_nat_alt word_unat_eq_iff split: if_splits)
  show ?thesis (is "?l \<longleftrightarrow> ?r")
  proof
    assume ?l
    then show ?r unfolding unfold verify_fields_iff using chain by (elim exE conjE) auto
  next
    assume r: ?r
    then obtain keys where "fields_yield api auth_flag v init (mv_fields v) keys"
      "address_hash api (mv_mode v) (mv_signatures_required v) keys = Inr (mv_signer v)"
      by blast
    moreover from this r have "verify_fields api auth_flag v (mv_fields v) [] init 0 =
        Inr (keys, h, word_of_nat (signature_count (mv_fields v)))"
      by (simp add: verify_fields_iff unat_of_nat_u16)
    ultimately show ?l unfolding unfold using r chain
      by (intro exI [of _ keys] exI [of _ h] exI [of _ "word_of_nat (signature_count (mv_fields v))"])
         (auto simp: unat_of_nat_u16)
  qed
qed

text \<open>Every accepted condition has at least one signature and at most sixteen keys.\<close>

lemma fields_yield_length: "fields_yield api auth_flag v current flds keys \<Longrightarrow> length keys = length flds"
  by (induction flds arbitrary: current keys) (auto simp: fields_yield_Cons)

section \<open>The redeem script\<close>

lemma unat_of_nat_byte: "n < 256 \<Longrightarrow> unat (word_of_nat n :: byte) = n"
  by (simp add: unat_of_nat)

lemma script_small_int_Inr_iff: "script_small_int n = Inr b \<longleftrightarrow> 1 \<le> n \<and> n \<le> 16 \<and> b = 0x50 + word_of_nat n"
  by (auto simp: script_small_int_def)

lemma script_small_int_inject:
  assumes "script_small_int m = Inr b" "script_small_int n = Inr b"
  shows "m = n"
proof -
  have "(word_of_nat m :: byte) = word_of_nat n" "m < 256" "n < 256"
    using assms by (auto simp: script_small_int_Inr_iff)
  then show ?thesis
    by (metis unat_of_nat_byte)
qed

lemma push_keys_inject:
  assumes "push_keys ks = Inr s" "push_keys ls = Inr t" "length ks = length ls" "s @ x = t @ y"
  shows "ks = ls \<and> x = y"
  using assms
proof (induction ks arbitrary: ls s t)
  case (Cons k ks)
  then obtain l ls' where ls: "ls = l # ls'" by (cases ls) auto
  with Cons.prems obtain s' t' where "push_keys ks = Inr s'" "push_keys ls' = Inr t'"
    and k: "length k < 256" "length l < 256"
    and eq: "word_of_nat (length k) # k @ s' @ x = (word_of_nat (length l) # l @ t' @ y :: bytes)"
    by (auto simp: bind_e_Inr_iff split: if_splits)
  moreover from eq k have "length k = length l"
    by (metis list.inject unat_of_nat_byte)
  ultimately show ?case
    using Cons.IH [of s' ls' t'] Cons.prems(3) ls by simp
qed auto

text \<open>A redeem script determines the threshold and the keys it was built from.\<close>

theorem multisig_script_inject:
  assumes "multisig_script m ks = Inr script" and "multisig_script n ls = Inr script"
  shows "m = n \<and> ks = ls"
proof -
  from assms(1) obtain a c s where 1: "script_small_int m = Inr a" "script_small_int (length ks) = Inr c"
    "push_keys ks = Inr s" "script = a # s @ [c, 0xae]"
    by (auto simp: multisig_script_def bind_e_Inr_iff)
  from assms(2) obtain b d t where 2: "script_small_int n = Inr b" "script_small_int (length ls) = Inr d"
    "push_keys ls = Inr t" "script = b # t @ [d, 0xae]"
    by (auto simp: multisig_script_def bind_e_Inr_iff)
  from 1(4) 2(4) have eq: "a = b" "s = t" "c = d" by simp_all
  then have "length ks = length ls"
    using 1 2 script_small_int_inject by blast
  then show ?thesis
    using push_keys_inject [OF 1(3) 2(3), of "[]" "[]"] script_small_int_inject 1(1) 2(1) eq by auto
qed

theorem multisig_script_inject_witness:
  "\<exists>!x. multisig_script (fst x) (snd x) = Inr [0x51, 2, 7, 8, 0x51, 0xae]"
proof (rule ex1I [of _ "(1, [[7, 8]])"])
  show script: "multisig_script (fst (1, [[7, 8]])) (snd (1, [[7, 8]])) = Inr [0x51, 2, 7, 8, 0x51, 0xae]"
    by (simp add: multisig_script_def script_small_int_def)
  show "x = (1, [[7, 8]])" if "multisig_script (fst x) (snd x) = Inr [0x51, 2, 7, 8, 0x51, 0xae]" for x
    using multisig_script_inject [OF that script] by (simp add: prod_eq_iff)
qed

section \<open>Signing\<close>

lemma recover_key_sign:
  assumes "secp_laws (au_secp api)"
  shows "recover_key api current auth_flag fee nonce Compressed
      (sign (au_secp api) key (presign_sighash api current auth_flag fee nonce)) =
    Inr (pk_serialize (au_secp api) (pk_from_secret_key (au_secp api) key),
      postsign_sighash api (presign_sighash api current auth_flag fee nonce) Compressed
        (sign (au_secp api) key (presign_sighash api current auth_flag fee nonce)))"
  using assms by (simp add: recover_key_def is_low_s_sign recover_sign encoded_key_def Let_def)

lemma address_hash_p2pkh [simp]: "address_hash api AhmP2pkh 1 [key] = Inr (hash160 api key)"
  by (simp add: address_hash_def)


section \<open>What a signature covers\<close>

text \<open>The transaction that the first signature covers: the authorization is cleared.\<close>

definition unsigned_part :: "transaction \<Rightarrow> transaction" where
  "unsigned_part tx = tx\<lparr>tx_auth := initial_sighash_auth (tx_auth tx), tx_bytes := []\<rparr>"

lemma mode_byte_inject [simp]:
  "singlesig_byte m = singlesig_byte n \<longleftrightarrow> m = n"
  "multisig_byte m' = multisig_byte n' \<longleftrightarrow> m' = n'"
  "order_independent_byte m'' = order_independent_byte n'' \<longleftrightarrow> m'' = n''"
  "key_encoding_byte e = key_encoding_byte f \<longleftrightarrow> e = f"
  by (metis hash_mode_bytes(2) hash_mode_bytes(4) hash_mode_bytes(6) key_encoding_parse_byte sum.inject(2))+

lemma mode_byte_distinct [simp]:
  "singlesig_byte m \<noteq> multisig_byte m'" "multisig_byte m' \<noteq> singlesig_byte m"
  "singlesig_byte m \<noteq> order_independent_byte m''" "order_independent_byte m'' \<noteq> singlesig_byte m"
  "multisig_byte m' \<noteq> order_independent_byte m''" "order_independent_byte m'' \<noteq> multisig_byte m'"
  by (cases m; cases m'; cases m'';
      simp add: singlesig_byte_def multisig_byte_def order_independent_byte_def)+

lemma u16_to_be_inject [simp]: "u16_to_be m = u16_to_be n \<longleftrightarrow> m = n"
  by (metis u16_from_to_be)

lemma cleared_unique:
  assumes "condition_ok c" "condition_ok d" "encode_condition (cleared c) @ x = encode_condition (cleared d) @ y"
  shows "cleared c = cleared d \<and> x = y"
  using assms
  by (cases c; cases d)
     (auto simp: condition_ok_def cleared_def encode_condition_def encode_fields_def fields_ok_def w_byte_def
       intro!: singlesig_condition.equality multisig_condition.equality order_independent_condition.equality)

lemma initial_sighash_auth_unique:
  assumes "auth_ok a" "auth_ok b" "encode_auth (initial_sighash_auth a) @ x = encode_auth (initial_sighash_auth b) @ y"
  shows "initial_sighash_auth a = initial_sighash_auth b \<and> x = y"
proof (cases a; cases b)
  fix c d
  assume "a = AuthStandard c" "b = AuthStandard d"
  with assms cleared_unique [of c d x y] show ?thesis
    by (simp add: auth_ok_def encode_auth_def initial_sighash_auth_def w_byte_def)
next
  fix c c' d d'
  let ?s = "Singlesig \<lparr>ss_hash_mode = SsP2pkh, ss_signer = replicate 20 0, ss_nonce = 0, ss_fee = 0,
    ss_key_encoding = Compressed, ss_signature = replicate 65 0\<rparr>"
  assume "a = AuthSponsored c c'" "b = AuthSponsored d d'"
  with assms cleared_unique [of c d "encode_condition ?s @ x" "encode_condition ?s @ y"] show ?thesis
    by (simp add: auth_ok_def encode_auth_def initial_sighash_auth_def w_byte_def)
qed (use assms in \<open>simp_all add: encode_auth_def initial_sighash_auth_def w_byte_def\<close>)


section \<open>Concrete authorizations\<close>

definition byte_api :: "(byte \<times> byte, byte \<times> byte, byte, byte) auth_api" where
  "byte_api = \<lparr>au_secp = byte_secp, sha512_256 = (\<lambda>bs. replicate 32 0), sha256 = (\<lambda>bs. replicate 32 (bs ! 0)),
     hash160 = (\<lambda>bs. replicate 20 (bs ! 0))\<rparr>"



end
