(* ===== verification/Sorted_Map.thy ===== *)
theory Sorted_Map
  imports Prelude "HOL-Library.Multiset"
begin

text \<open>
  Rust's \<open>BTreeMap\<close>, as the code uses it: insertion, lookup and iteration in key order. A map is its list
  of entries in increasing key order. The locale \<open>ordered_map\<close> is what the clients rely on.
\<close>

type_synonym ('k, 'v) sorted_map = "('k \<times> 'v) list"

fun sm_insert :: "'k::linorder \<Rightarrow> 'v \<Rightarrow> ('k, 'v) sorted_map \<Rightarrow> ('k, 'v) sorted_map" where
  "sm_insert k v [] = [(k, v)]"
| "sm_insert k v ((k', v') # m) = (if k < k' then (k, v) # (k', v') # m
     else if k = k' then (k, v) # m else (k', v') # sm_insert k v m)"

definition sm_lookup :: "('k, 'v) sorted_map \<Rightarrow> 'k \<Rightarrow> 'v option" where
  "sm_lookup = map_of"

definition sm_inv :: "('k::linorder, 'v) sorted_map \<Rightarrow> bool" where
  "sm_inv m \<longleftrightarrow> sorted_wrt (<) (map fst m)"

section \<open>The interface\<close>

locale ordered_map =
  fixes update :: "'k::linorder \<Rightarrow> 'v \<Rightarrow> 'm \<Rightarrow> 'm"
    and lookup :: "'m \<Rightarrow> 'k \<Rightarrow> 'v option"
    and entries :: "'m \<Rightarrow> ('k \<times> 'v) list"
    and new_map :: 'm
    and inv :: "'m \<Rightarrow> bool"
  assumes new_inv: "inv new_map" and lookup_new: "lookup new_map k = None"
    and update_inv: "inv m \<Longrightarrow> inv (update k v m)"
    and lookup_update: "inv m \<Longrightarrow> lookup (update k v m) = (lookup m)(k \<mapsto> v)"
    and entries_sorted: "inv m \<Longrightarrow> sorted_wrt (<) (map fst (entries m))"
    and map_of_entries: "inv m \<Longrightarrow> map_of (entries m) = lookup m"
begin

lemma entries_distinct: "inv m \<Longrightarrow> distinct (map fst (entries m))"
  using entries_sorted strict_sorted_iff by blast

lemma set_entries: "inv m \<Longrightarrow> (k, v) \<in> set (entries m) \<longleftrightarrow> lookup m k = Some v"
  using entries_distinct map_of_entries by (metis map_of_eq_Some_iff)

text \<open>The entries of a map are determined by its lookups.\<close>

lemma entries_unique:
  assumes "inv m" "inv n" "lookup m = lookup n"
  shows "entries m = entries n"
proof -
  have "set (entries m) = set (entries n)"
    using assms set_entries by auto
  moreover have "sorted_wrt (\<lambda>x y. fst x < fst y) (entries m)" "sorted_wrt (\<lambda>x y. fst x < fst y) (entries n)"
    using entries_sorted assms by (simp_all add: sorted_wrt_map)
  ultimately have "map fst (entries m) = map fst (entries n)"
    using entries_sorted assms strict_sorted_equal by (metis set_map)
  moreover have "snd x = snd y" if "x \<in> set (entries m)" "y \<in> set (entries n)" "fst x = fst y" for x y
    using that assms by (metis prod.collapse set_entries option.inject)
  ultimately show ?thesis
    by (intro nth_equalityI) (metis length_map, metis length_map nth_map nth_mem prod_eqI)
qed

lemma entries_update:
  assumes "inv m" "lookup m k = None"
  shows "mset (entries (update k v m)) = add_mset (k, v) (mset (entries m))"
proof -
  have "distinct (entries (update k v m))" "distinct ((k, v) # entries m)"
    using assms entries_distinct update_inv set_entries [of m k v] by (auto simp: distinct_map)
  moreover have "set (entries (update k v m)) = set ((k, v) # entries m)"
    using assms set_entries update_inv lookup_update by (auto split: if_splits)
  ultimately show ?thesis
    by (metis mset.simps(2) set_eq_iff_mset_eq_distinct)
qed

end

lemma sm_insert_keys: "set (map fst (sm_insert k v m)) = insert k (set (map fst m))"
  by (induction k v m rule: sm_insert.induct) auto

lemma sm_insert_inv: "sm_inv m \<Longrightarrow> sm_inv (sm_insert k v m)"
proof (induction k v m rule: sm_insert.induct)
  case (2 k v k' v' m)
  then show ?case using sm_insert_keys [of k v m] by (auto simp: sm_inv_def)
qed (simp add: sm_inv_def)

lemma sm_lookup_insert: "sm_inv m \<Longrightarrow> sm_lookup (sm_insert k v m) = (sm_lookup m)(k \<mapsto> v)"
  by (induction k v m rule: sm_insert.induct) (auto simp: sm_inv_def sm_lookup_def fun_eq_iff)

interpretation sm: ordered_map sm_insert sm_lookup "\<lambda>m. m" "[]" sm_inv
  by unfold_locales
     (simp_all add: sm_insert_inv sm_lookup_insert, simp_all add: sm_inv_def sm_lookup_def)

end
