(* ===== verification/Signer_Set.thy ===== *)
theory Signer_Set
  imports Nakamoto Auth_Verify Sorted_Map "HOL-Library.List_Lexorder" "HOL-Library.Product_Lexorder"
begin

text \<open>
  The reward-set signers of a Nakamoto block (\<open>SignerSet\<close> and \<open>SignerWeights\<close> of \<open>nakamoto.rs\<close>): how weights
  are checked, the approval threshold, and the verification and the ordering of
  signer signatures. Signatures, key serialization and hashes are the functions of \<open>auth_api\<close>.
\<close>

datatype signer_set_error =
    SignersEmpty
  | DuplicateSigner
  | ZeroThreshold
  | ZeroRewardSlots
  | StackedAmountOverflow
  | WeightOverflow
  | SignerSignature crypto_error
  | UnknownOrUnorderedSigner
  | InsufficientWeight

section \<open>Weights by signing-key hash\<close>

type_synonym signer_weights = "(bytes \<times> u32) list"

definition weights_new :: "(bytes \<times> u32) list \<Rightarrow> signer_set_error + signer_weights" where
  "weights_new entries = (if entries = [] then Inl SignersEmpty
     else if card (set (map fst entries)) \<noteq> length entries then Inl DuplicateSigner else Inr entries)"

definition total_weight :: "signer_weights \<Rightarrow> signer_set_error + u32" where
  "total_weight entries = sum_checked WeightOverflow 0 (map snd entries)"

text \<open>Seven tenths, rounded up. The product is taken in 64 bits.\<close>

definition seven_tenths :: "u32 \<Rightarrow> signer_set_error + u32" where
  "seven_tenths weight = (let w = (unat weight * 7 + 9) div 10 in
     if w < 2 ^ 32 then Inr (word_of_nat w) else Inl WeightOverflow)"

definition weights_threshold :: "signer_weights \<Rightarrow> signer_set_error + u32" where
  "weights_threshold entries = bind_e (total_weight entries) seven_tenths"

definition recover_signer ::
  "('r, 's, 'p, 'k) auth_api \<Rightarrow> bytes \<Rightarrow> bytes \<Rightarrow> signer_set_error + bytes" where
  "recover_signer api digest signature = (case recover (au_secp api) signature digest of
       Inl e \<Rightarrow> Inl (SignerSignature e)
     | Inr public_key \<Rightarrow> Inr (hash160 api (pk_serialize (au_secp api) public_key)))"

text \<open>\<open>entries.iter().enumerate().skip(next_index).find(..)\<close>\<close>

definition find_signer :: "signer_weights \<Rightarrow> nat \<Rightarrow> bytes \<Rightarrow> (nat \<times> bytes \<times> u32) option" where
  "find_signer entries next_index signing_hash =
     List.find (\<lambda>(_, hash, _). hash = signing_hash) (drop next_index (enumerate 0 entries))"

primrec verify_signatures ::
  "('r, 's, 'p, 'k) auth_api \<Rightarrow> signer_weights \<Rightarrow> bytes \<Rightarrow> nat \<Rightarrow> u32 \<Rightarrow> bytes list \<Rightarrow> signer_set_error + u32" where
  "verify_signatures api entries digest next_index signed_weight [] = Inr signed_weight"
| "verify_signatures api entries digest next_index signed_weight (signature # signatures) =
     bind_e (recover_signer api digest signature) (\<lambda>signing_hash.
     case find_signer entries next_index signing_hash of
       None \<Rightarrow> Inl UnknownOrUnorderedSigner
     | Some (index, _, weight) \<Rightarrow>
         (case checked_add signed_weight weight of
            None \<Rightarrow> Inl WeightOverflow
          | Some signed_weight' \<Rightarrow>
              verify_signatures api entries digest (index + 1) signed_weight' signatures))"

definition weights_verify ::
  "('r, 's, 'p, 'k) auth_api \<Rightarrow> signer_weights \<Rightarrow> nakamoto_block_header \<Rightarrow> signer_set_error + u32" where
  "weights_verify api entries header =
     bind_e (verify_signatures api entries (signer_signature_hash (sha512_256 api) header) 0 0
       (nh_signer_signatures header)) (\<lambda>signed_weight.
     bind_e (weights_threshold entries) (\<lambda>threshold.
     if signed_weight < threshold then Inl InsufficientWeight else Inr signed_weight))"

text \<open>\<open>iter().position(..)\<close>\<close>

definition signer_position :: "signer_weights \<Rightarrow> bytes \<Rightarrow> nat option" where
  "signer_position entries signing_hash =
     map_option fst (List.find (\<lambda>(_, hash, _). hash = signing_hash) (enumerate 0 entries))"

primrec order_loop ::
  "('r, 's, 'p, 'k) auth_api \<Rightarrow> signer_weights \<Rightarrow> bytes \<Rightarrow> (nat, bytes) sorted_map \<Rightarrow> bytes list
    \<Rightarrow> signer_set_error + (nat, bytes) sorted_map" where
  "order_loop api entries digest ordered [] = Inr ordered"
| "order_loop api entries digest ordered (signature # responses) =
     bind_e (recover_signer api digest signature) (\<lambda>signing_hash.
     case signer_position entries signing_hash of
       None \<Rightarrow> Inl UnknownOrUnorderedSigner
     | Some index \<Rightarrow> if sm_lookup ordered index \<noteq> None then Inl UnknownOrUnorderedSigner
         else order_loop api entries digest (sm_insert index signature ordered) responses)"

definition order_responses ::
  "('r, 's, 'p, 'k) auth_api \<Rightarrow> signer_weights \<Rightarrow> nakamoto_block_header \<Rightarrow> bytes list
    \<Rightarrow> signer_set_error + bytes list" where
  "order_responses api entries header responses =
     bind_e (order_loop api entries (signer_signature_hash (sha512_256 api) header) [] responses) (\<lambda>ordered.
     let signatures = map snd ordered in
     bind_e (weights_verify api entries (header\<lparr>nh_signer_signatures := signatures\<rparr>)) (\<lambda>_.
     Inr signatures))"

section \<open>Signer sets\<close>

record 'p signer =
  sg_public_key :: 'p
  sg_weight :: u32

type_synonym 'p signer_set = "'p signer list"

definition signer_set_new :: "('r, 's, 'p, 'k) auth_api \<Rightarrow> 'p signer list \<Rightarrow> signer_set_error + 'p signer_set" where
  "signer_set_new api signers = (if signers = [] then Inl SignersEmpty
     else if card (set (map (\<lambda>s. pk_serialize (au_secp api) (sg_public_key s)) signers)) \<noteq> length signers
     then Inl DuplicateSigner else Inr signers)"

definition u32_try_from :: "'w::len word \<Rightarrow> signer_set_error + u32" where
  "u32_try_from w = (if unat w < 2 ^ 32 then Inr (word_of_nat (unat w)) else Inl WeightOverflow)"

definition from_stacked_amounts ::
  "('r, 's, 'p, 'k) auth_api \<Rightarrow> ('p \<times> u128) list \<Rightarrow> u128 \<Rightarrow> signer_set_error + 'p signer_set" where
  "from_stacked_amounts api signers threshold = (if threshold = 0 then Inl ZeroThreshold
     else bind_e (map_e (\<lambda>(public_key, stacked_amount).
         bind_e (u32_try_from (stacked_amount div threshold)) (\<lambda>weight.
         Inr \<lparr>sg_public_key = public_key, sg_weight = weight\<rparr>)) signers) (signer_set_new api))"

definition signer_set_threshold :: "'p signer_set \<Rightarrow> signer_set_error + u32" where
  "signer_set_threshold signers = bind_e (sum_checked WeightOverflow 0 (map sg_weight signers)) seven_tenths"

definition signing_weights ::
  "('r, 's, 'p, 'k) auth_api \<Rightarrow> 'p signer_set \<Rightarrow> signer_set_error + signer_weights" where
  "signing_weights api signers = weights_new (map (\<lambda>s.
     (hash160 api (pk_serialize (au_secp api) (sg_public_key s)), sg_weight s)) signers)"

definition signer_set_verify ::
  "('r, 's, 'p, 'k) auth_api \<Rightarrow> 'p signer_set \<Rightarrow> nakamoto_block_header \<Rightarrow> signer_set_error + u32" where
  "signer_set_verify api signers header = bind_e (signing_weights api signers) (\<lambda>entries.
     weights_verify api entries header)"

definition signer_set_order ::
  "('r, 's, 'p, 'k) auth_api \<Rightarrow> 'p signer_set \<Rightarrow> nakamoto_block_header \<Rightarrow> bytes list
    \<Rightarrow> signer_set_error + bytes list" where
  "signer_set_order api signers header responses = bind_e (signing_weights api signers) (\<lambda>entries.
     order_responses api entries header responses)"

section \<open>What verification accepts\<close>

lemma u32_less: "unat w < 2 ^ 32" for w :: u32
  using unsigned_less [of w, where 'a = nat] by simp

lemma weights_new_Inr_iff: "weights_new es = Inr entries \<longleftrightarrow> es \<noteq> [] \<and> distinct (map fst es) \<and> entries = es"
  using distinct_card [of "map fst es"] card_distinct [of "map fst es"] by (auto simp: weights_new_def)

lemma seven_tenths_Inr: "seven_tenths whole = Inr (word_of_nat ((unat whole * 7 + 9) div 10))"
  using u32_less [of whole] by (simp add: seven_tenths_def Let_def)

lemma seven_tenths_le: "seven_tenths whole = Inr t \<Longrightarrow> t \<le> w \<longleftrightarrow> 7 * unat whole \<le> 10 * unat w"
  using u32_less [of whole]
  by (auto simp: seven_tenths_Inr word_le_nat_alt unat_of_nat take_bit_nat_def)

lemma find_signer_Some:
  assumes "distinct (map fst entries)"
  shows "find_signer entries k h = Some x \<longleftrightarrow>
    (\<exists>i w. k \<le> i \<and> i < length entries \<and> entries ! i = (h, w) \<and> x = (i, h, w))" (is "?l \<longleftrightarrow> ?r")
proof
  assume ?l
  then obtain j where "j < length entries - k" "fst (snd (enumerate 0 entries ! (k + j))) = h"
      "x = enumerate 0 entries ! (k + j)"
    by (auto simp: find_signer_def find_Some_iff split_beta)
  then show ?r
    by (auto simp: nth_enumerate_eq intro!: exI [of _ "k + j"]) (metis prod.collapse)
next
  assume ?r
  then obtain i w where i: "k \<le> i" "i < length entries" "entries ! i = (h, w)" "x = (i, h, w)" by blast
  then have other: "fst (entries ! (k + j)) \<noteq> h" if "j < i - k" for j
    using that assms nth_eq_iff_index_eq [of "map fst entries" "k + j" i] by auto
  show ?l
    unfolding find_signer_def find_Some_iff
    by (rule exI [of _ "i - k"]) (use i other in \<open>auto simp: nth_enumerate_eq split_beta\<close>)
qed

text \<open>The signatures are those of the signers at the given indices.\<close>

definition signed_at ::
  "('r, 's, 'p, 'k) auth_api \<Rightarrow> signer_weights \<Rightarrow> bytes \<Rightarrow> bytes list \<Rightarrow> nat list \<Rightarrow> bool" where
  "signed_at api entries digest = list_all2 (\<lambda>signature i. i < length entries \<and>
     recover_signer api digest signature = Inr (fst (entries ! i)))"

definition weight_at :: "signer_weights \<Rightarrow> nat \<Rightarrow> nat" where
  "weight_at entries i = unat (snd (entries ! i))"

lemma verify_signatures_iff:
  assumes "distinct (map fst entries)"
  shows "verify_signatures api entries digest k a sigs = Inr w \<longleftrightarrow>
    (\<exists>is. signed_at api entries digest sigs is \<and> sorted_wrt (<) is \<and> (\<forall>i \<in> set is. k \<le> i) \<and>
       unat a + sum_list (map (weight_at entries) is) < 2 ^ 32 \<and>
       unat w = unat a + sum_list (map (weight_at entries) is))"
proof (induction sigs arbitrary: k a)
  case Nil
  then show ?case using u32_less [of a] by (auto simp: signed_at_def word_unat_eq_iff)
next
  case (Cons sig sigs)
  show ?case (is "?l \<longleftrightarrow> (\<exists>is. ?r is)")
  proof
    assume ?l
    then obtain h where h: "recover_signer api digest sig = Inr h" by (auto simp: bind_e_Inr_iff)
    with \<open>?l\<close> obtain i h' v b where step:
        "find_signer entries k h = Some (i, h', v)" "checked_add a v = Some b"
        "verify_signatures api entries digest (i + 1) b sigs = Inr w"
      by (auto split: option.split_asm)
    with Cons.IH obtain js where js: "signed_at api entries digest sigs js" "sorted_wrt (<) js"
        "\<forall>j \<in> set js. i + 1 \<le> j" "unat b + sum_list (map (weight_at entries) js) < 2 ^ 32"
        "unat w = unat b + sum_list (map (weight_at entries) js)"
      by blast
    show "\<exists>is. ?r is"
      by (rule exI [of _ "i # js"])
         (use h step js unat_checked_add [OF step(2)] in
           \<open>auto simp: find_signer_Some [OF assms] signed_at_def weight_at_def [of entries i] Suc_le_eq\<close>)
  next
    assume "\<exists>is. ?r is"
    then obtain i js where r: "?r (i # js)" by (auto simp: signed_at_def list_all2_Cons1)
    then obtain b where b: "checked_add a (snd (entries ! i)) = Some b" "unat b = unat a + weight_at entries i"
      by (auto simp: checked_add_def weight_at_def unat_word_ariths)
    have "find_signer entries k (fst (entries ! i)) = Some (i, entries ! i)"
      using r by (subst find_signer_Some [OF assms]) (auto simp: signed_at_def prod_eq_iff)
    moreover have "verify_signatures api entries digest (i + 1) b sigs = Inr w"
      using r b Cons.IH by (auto simp: signed_at_def Suc_le_eq intro!: exI [of _ js])
    ultimately show ?l using r b by (simp add: signed_at_def split_beta)
  qed
qed

lemma total_weight_Inr_iff:
  "total_weight entries = Inr s \<longleftrightarrow> sum_list (map (unat \<circ> snd) entries) < 2 ^ 32 \<and>
     unat s = sum_list (map (unat \<circ> snd) entries)"
  (is "_ \<longleftrightarrow> ?r")
proof
  assume "total_weight entries = Inr s"
  from sum_checked_Inr [OF this [unfolded total_weight_def]] show ?r
    using u32_less [of s] by simp
next
  assume ?r
  with sum_checked_ok [of 0 "map snd entries" WeightOverflow] show "total_weight entries = Inr s"
    by (auto simp: total_weight_def word_unat_eq_iff)
qed

lemma sum_weight_at_le:
  assumes "sorted_wrt (<) is" "\<forall>i \<in> set is. i < length entries"
  shows "sum_list (map (weight_at entries) is) \<le> sum_list (map (unat \<circ> snd) entries)"
proof -
  have "sum_list (map (weight_at entries) is) = sum (weight_at entries) (set is)"
    using assms strict_sorted_iff by (metis sum_list_distinct_conv_sum_set)
  also have "\<dots> \<le> sum (weight_at entries) {..<length entries}"
    using assms by (intro sum_mono2) auto
  also have "\<dots> = sum_list (map (unat \<circ> snd) entries)"
    by (simp add: sum_list_sum_nth weight_at_def atLeast0LessThan)
  finally show ?thesis .
qed

lemma weights_verify_parts:
  "weights_verify api entries header = Inr w \<longleftrightarrow>
     verify_signatures api entries (signer_signature_hash (sha512_256 api) header) 0 0
       (nh_signer_signatures header) = Inr w \<and>
     sum_list (map (unat \<circ> snd) entries) < 2 ^ 32 \<and>
     7 * sum_list (map (unat \<circ> snd) entries) \<le> 10 * unat w"
proof -
  have "(\<exists>t. weights_threshold entries = Inr t \<and> t \<le> w) \<longleftrightarrow>
      (\<exists>s. total_weight entries = Inr s \<and> 7 * unat s \<le> 10 * unat w)"
    using seven_tenths_le seven_tenths_Inr by (auto simp: weights_threshold_def bind_e_Inr_iff)
  also have "\<dots> \<longleftrightarrow> sum_list (map (unat \<circ> snd) entries) < 2 ^ 32 \<and>
      7 * sum_list (map (unat \<circ> snd) entries) \<le> 10 * unat w"
    unfolding total_weight_Inr_iff
    by (auto simp: unat_of_nat take_bit_nat_def
        intro!: exI [of _ "word_of_nat (sum_list (map (unat \<circ> snd) entries))"])
  finally show ?thesis
    by (auto simp: weights_verify_def bind_e_Inr_iff not_less)
qed

lemma signed_at_less: "signed_at api entries digest sigs is \<Longrightarrow> \<forall>i \<in> set is. i < length entries"
  by (auto simp: signed_at_def list_all2_conv_all_nth in_set_conv_nth)

text \<open>C3: A block header is accepted exactly when its signatures were made by signers at strictly increasing
  positions of the reward set, so in reward-set order and none twice, and their weight is at least seven
  tenths of the whole set's. The value returned is that weight: neither the running sum nor the threshold
  wraps.\<close>

theorem weights_verify_iff:
  assumes "weights_new es = Inr entries"
  shows "weights_verify api entries header = Inr w \<longleftrightarrow>
    (\<exists>is. signed_at api entries (signer_signature_hash (sha512_256 api) header) (nh_signer_signatures header) is \<and>
       sorted_wrt (<) is \<and> unat w = sum_list (map (weight_at entries) is)) \<and>
    sum_list (map (unat \<circ> snd) entries) < 2 ^ 32 \<and>
    7 * sum_list (map (unat \<circ> snd) entries) \<le> 10 * unat w"
proof -
  have "distinct (map fst entries)" using assms by (simp add: weights_new_Inr_iff)
  from verify_signatures_iff [OF this, of api "signer_signature_hash (sha512_256 api) header" 0 0] show ?thesis
    unfolding weights_verify_parts
    using le_less_trans [OF sum_weight_at_le [OF _ signed_at_less]] by (auto; blast)
qed

text \<open>The signing-key hashes whose signatures a header carries.\<close>

definition header_signers :: "('r, 's, 'p, 'k) auth_api \<Rightarrow> nakamoto_block_header \<Rightarrow> bytes set" where
  "header_signers api header = {hash. \<exists>signature \<in> set (nh_signer_signatures header).
     recover_signer api (signer_signature_hash (sha512_256 api) header) signature = Inr hash}"

definition weight_of :: "signer_weights \<Rightarrow> bytes set \<Rightarrow> nat" where
  "weight_of entries hashes = sum_list (map (unat \<circ> snd) (filter (\<lambda>(hash, _). hash \<in> hashes) entries))"

lemma weight_of_inter:
  "weight_of entries A + weight_of entries B \<le>
     weight_of entries (A \<inter> B) + sum_list (map (unat \<circ> snd) entries)"
  by (induction entries) (auto simp: weight_of_def)

lemma signed_at_signers:
  "signed_at api entries (signer_signature_hash (sha512_256 api) header) (nh_signer_signatures header) is \<Longrightarrow>
     header_signers api header = (\<lambda>i. fst (entries ! i)) ` set is"
  unfolding signed_at_def header_signers_def list_all2_conv_all_nth image_def
  by (simp add: set_eq_iff in_set_conv_nth Bex_def) (metis sum.inject(2))

lemma weight_of_at:
  assumes "distinct (map fst entries)" "sorted_wrt (<) is" "\<forall>i \<in> set is. i < length entries"
  shows "weight_of entries ((\<lambda>i. fst (entries ! i)) ` set is) = sum_list (map (weight_at entries) is)"
proof -
  have member: "fst (entries ! j) \<in> (\<lambda>i. fst (entries ! i)) ` set is \<longleftrightarrow> j \<in> set is" if "j < length entries" for j
    using that assms nth_eq_iff_index_eq [of "map fst entries"] by (auto simp: image_iff)
  have "weight_of entries ((\<lambda>i. fst (entries ! i)) ` set is) =
      sum_list (map (\<lambda>e. if fst e \<in> (\<lambda>i. fst (entries ! i)) ` set is then unat (snd e) else 0) entries)"
    by (simp add: weight_of_def sum_list_map_filter' split_beta comp_def)
  also have "\<dots> = (\<Sum>j < length entries. if j \<in> set is then weight_at entries j else 0)"
    using member by (auto simp: sum_list_sum_nth weight_at_def atLeast0LessThan intro!: sum.cong)
  also have "\<dots> = sum (weight_at entries) (set is)"
    using assms(3) by (simp add: sum.If_cases Int_absorb1 subset_eq)
  finally show ?thesis
    using assms(2) strict_sorted_iff by (metis sum_list_distinct_conv_sum_set)
qed

lemma weights_verify_signers:
  assumes "distinct (map fst entries)" "weights_verify api entries header = Inr w"
  shows "weight_of entries (header_signers api header) = unat w"
  using assms signed_at_less weight_of_at [OF assms(1)] signed_at_signers
  by (fastforce simp: weights_verify_parts verify_signatures_iff)

text \<open>C2: Two headers accepted by one reward set share signers: those whose signatures both carry have at
  least four tenths of the set's weight. So two conflicting blocks are approved only when signers of that
  weight signed both.\<close>

theorem verify_quorum_intersection:
  assumes "weights_new es = Inr entries"
    and "weights_verify api entries header = Inr w" "weights_verify api entries header' = Inr w'"
  shows "4 * sum_list (map (unat \<circ> snd) entries) \<le>
    10 * weight_of entries (header_signers api header \<inter> header_signers api header')"
proof -
  have "distinct (map fst entries)" using assms(1) by (simp add: weights_new_Inr_iff)
  from weights_verify_signers [OF this assms(2)] weights_verify_signers [OF this assms(3)] show ?thesis
    using weight_of_inter [of entries "header_signers api header" "header_signers api header'"] assms(2,3)
    by (simp add: weights_verify_parts)
qed

section \<open>Ordering responses\<close>

lemma signer_position_Some:
  assumes "distinct (map fst entries)"
  shows "signer_position entries h = Some i \<longleftrightarrow> i < length entries \<and> fst (entries ! i) = h"
proof -
  have "signer_position entries h = map_option fst (find_signer entries 0 h)"
    by (simp add: signer_position_def find_signer_def)
  then show ?thesis
    using find_signer_Some [OF assms, of 0 h] by (auto simp: prod_eq_iff)
qed

lemma sm_mset_unique:
  assumes "sm_inv m" "sm_inv n" "mset m = mset n"
  shows "m = n"
proof (rule sm.entries_unique [OF assms(1,2)], rule ext)
  fix k
  show "sm_lookup m k = sm_lookup n k"
    using sm.set_entries [OF assms(1)] sm.set_entries [OF assms(2)] mset_eq_setD [OF assms(3)]
    by (metis not_None_eq)
qed

text \<open>The reward-set index of the signer of a response.\<close>

definition response_index ::
  "('r, 's, 'p, 'k) auth_api \<Rightarrow> signer_weights \<Rightarrow> bytes \<Rightarrow> bytes \<Rightarrow> nat option" where
  "response_index api entries digest signature =
     (case recover_signer api digest signature of Inl _ \<Rightarrow> None | Inr hash \<Rightarrow> signer_position entries hash)"

abbreviation indexed ::
  "('r, 's, 'p, 'k) auth_api \<Rightarrow> signer_weights \<Rightarrow> bytes \<Rightarrow> bytes \<Rightarrow> nat \<times> bytes" where
  "indexed api entries digest r \<equiv> (the (response_index api entries digest r), r)"

lemma signed_at_index:
  assumes "distinct (map fst entries)"
  shows "signed_at api entries digest sigs is \<longleftrightarrow> map (response_index api entries digest) sigs = map Some is"
proof -
  have "response_index api entries digest sig = Some i \<longleftrightarrow>
      i < length entries \<and> recover_signer api digest sig = Inr (fst (entries ! i))" for sig i
    using signer_position_Some [OF assms] by (auto simp: response_index_def split: sum.split)
  then show ?thesis
    by (auto simp: signed_at_def list_all2_conv_all_nth list_eq_iff_nth_eq)
qed

lemma sm_inv_fresh:
  assumes "sm_inv m" "mset m = mset ordered + add_mset (i, r) rest"
  shows "sm_lookup ordered i = None"
proof (rule ccontr)
  assume "sm_lookup ordered i \<noteq> None"
  then have "i \<in># image_mset fst (mset ordered)"
    by (auto simp: sm_lookup_def dest!: map_of_SomeD) force
  then have "0 < count (image_mset fst (mset ordered)) i" by (simp only: count_greater_zero_iff)
  then have "2 \<le> count (mset (map fst m)) i"
    using assms(2) by (simp del: count_greater_zero_iff)
  moreover have "distinct (map fst m)" using assms(1) by (rule sm.entries_distinct)
  ultimately show False by (simp add: distinct_count_atmost_1 split: if_splits)
qed

lemma order_loop_iff:
  assumes "distinct (map fst entries)" "sm_inv ordered"
  shows "order_loop api entries digest ordered rs = Inr m \<longleftrightarrow>
    (\<forall>r \<in> set rs. response_index api entries digest r \<noteq> None) \<and> sm_inv m \<and>
    mset m = mset ordered + image_mset (indexed api entries digest) (mset rs)"
  using assms(2)
proof (induction rs arbitrary: ordered)
  case Nil
  then show ?case using sm_mset_unique by auto
next
  case (Cons r rs)
  show ?case
  proof (cases "response_index api entries digest r")
    case None
    then show ?thesis by (auto simp: response_index_def bind_e_Inr_iff split: sum.splits)
  next
    case (Some i)
    then obtain h where h: "recover_signer api digest r = Inr h" "signer_position entries h = Some i"
      by (auto simp: response_index_def split: sum.splits)
    show ?thesis
    proof (cases "sm_lookup ordered i")
      case None
      with h Some Cons.IH [OF sm_insert_inv [OF Cons.prems], of i r] show ?thesis
        using sm.entries_update [OF Cons.prems None, of r] by simp
    next
      case (Some v)
      with h \<open>response_index api entries digest r = Some i\<close> show ?thesis
        using sm_inv_fresh [of m ordered i r] by auto
    qed
  qed
qed

text \<open>C7: Ordering responses returns exactly the arrangement of the responses that verifies: the result is
  a rearrangement of the responses that the same set accepts as signatures of the header, and whenever such
  an arrangement exists it is found. It is the only one, and does not depend on the order of arrival.\<close>

theorem order_responses_iff:
  assumes "weights_new es = Inr entries"
  shows "order_responses api entries header responses = Inr signatures \<longleftrightarrow>
    mset signatures = mset responses \<and>
    (\<exists>w. weights_verify api entries (header\<lparr>nh_signer_signatures := signatures\<rparr>) = Inr w)"
    (is "?l \<longleftrightarrow> ?r")
proof -
  let ?d = "signer_signature_hash (sha512_256 api) header"
  have distinct: "distinct (map fst entries)" using assms by (simp add: weights_new_Inr_iff)
  have digest: "signer_signature_hash (sha512_256 api) (header\<lparr>nh_signer_signatures := sigs\<rparr>) = ?d" for sigs
    by (simp add: signer_signature_hash_def signing_bytes_def encode_without_signatures_def
        encode_problematic_transactions_def has_problematic_def)
  note loop = order_loop_iff [OF distinct sm.new_inv, of api ?d]
  show ?thesis
  proof
    assume ?l
    then obtain m w where "order_loop api entries ?d [] responses = Inr m" "signatures = map snd m"
        "weights_verify api entries (header\<lparr>nh_signer_signatures := signatures\<rparr>) = Inr w"
      by (auto simp: order_responses_def bind_e_Inr_iff Let_def)
    with loop show ?r by (simp add: multiset.map_comp comp_def)
  next
    assume ?r
    then obtain w "is" where v: "weights_verify api entries (header\<lparr>nh_signer_signatures := signatures\<rparr>) = Inr w"
        "map (response_index api entries ?d) signatures = map Some is" "sorted_wrt (<) is"
        "mset signatures = mset responses"
      using digest by (auto simp: weights_verify_parts verify_signatures_iff [OF distinct] signed_at_index [OF distinct])
    define m where "m = map (indexed api entries ?d) signatures"
    have "map fst m = is" using v(2) by (simp add: m_def list_eq_iff_nth_eq)
    moreover have "\<forall>r \<in> set responses. response_index api entries ?d r \<noteq> None"
      using arg_cong [OF v(2), of set] mset_eq_setD [OF v(4)] by (auto simp: set_eq_iff image_iff)
    ultimately have "order_loop api entries ?d [] responses = Inr m"
      unfolding loop using v(3,4) by (simp add: m_def sm_inv_def)
    with v(1) show ?l by (simp add: order_responses_def m_def comp_def)
  qed
qed

section \<open>Concrete signer sets\<close>

definition sample_entries :: signer_weights where
  "sample_entries = [(replicate 20 1, 3), (replicate 20 2, 4), (replicate 20 3, 3)]"

definition sample_signature :: "byte \<Rightarrow> bytes" where
  "sample_signature k = 0 # k # replicate 63 0"

definition signed_header :: "byte list \<Rightarrow> nakamoto_block_header" where
  "signed_header ks = (sample_header (replicate 32 0) 1)\<lparr>nh_signer_signatures := map sample_signature ks\<rparr>"

lemma sample_entries_new: "weights_new sample_entries = Inr sample_entries"
  by (simp add: weights_new_Inr_iff sample_entries_def)

lemma recover_sample: "recover_signer byte_api (signer_signature_hash (sha512_256 byte_api) h) (sample_signature k) =
    Inr (replicate 20 k)"
  by (simp add: recover_signer_def recover_def recoverable_signature_def ok_or_def sample_signature_def
      signer_signature_hash_def byte_api_def byte_secp_def)

lemma verify_sample:
  "weights_verify byte_api sample_entries (signed_header [1, 2]) = Inr 7"
  "weights_verify byte_api sample_entries (signed_header [2, 3]) = Inr 7"
  unfolding weights_verify_parts
  by (simp_all add: signed_header_def recover_sample sample_entries_def find_signer_def checked_add_def)

theorem weights_verify_iff_witness:
  "weights_verify byte_api sample_entries (signed_header [1, 2]) = Inr 7 \<and>
   (\<exists>is. sorted_wrt (<) is \<and> sum_list (map (weight_at sample_entries) is) = 7)"
  using weights_verify_iff [OF sample_entries_new, of byte_api "signed_header [1, 2]" 7] verify_sample(1) by auto

theorem verify_quorum_intersection_witness:
  "4 * 10 \<le> 10 * weight_of sample_entries
     (header_signers byte_api (signed_header [1, 2]) \<inter> header_signers byte_api (signed_header [2, 3]))"
  using verify_quorum_intersection [OF sample_entries_new verify_sample] by (simp add: sample_entries_def)

theorem order_responses_iff_witness:
  "order_responses byte_api sample_entries (signed_header []) [sample_signature 2, sample_signature 1] =
     Inr [sample_signature 1, sample_signature 2]"
proof -
  have "(signed_header [])\<lparr>nh_signer_signatures := [sample_signature 1, sample_signature 2]\<rparr> = signed_header [1, 2]"
    by (simp add: signed_header_def)
  with verify_sample(1) show ?thesis
    unfolding order_responses_iff [OF sample_entries_new] by auto
qed

end
