(* ===== verification/Apportionment.thy ===== *)
theory Apportionment
  imports Signer_Set
begin

text \<open>
  How \<open>SignerSet::from_reward_slots\<close> turns stacked amounts into signer weights: amounts are summed per key,
  one slot costs the total divided by the number of slots, and the slots left over go to the largest
  remainders. The stages are compared with the method of largest remainders stated on plain numbers.
\<close>

text \<open>The stake of each key, zero amounts skipped.\<close>

definition add_stake ::
  "('r, 's, 'p, 'k) auth_api \<Rightarrow> (bytes, 'p \<times> u128) sorted_map \<Rightarrow> 'p \<times> u128
    \<Rightarrow> signer_set_error + (bytes, 'p \<times> u128) sorted_map" where
  "add_stake api stacked = (\<lambda>(public_key, amount).
     if amount = 0 then Inr stacked
     else let key = pk_serialize (au_secp api) public_key;
              (owner, staked) = (case sm_lookup stacked key of None \<Rightarrow> (public_key, 0) | Some entry \<Rightarrow> entry)
          in (case checked_add staked amount of
                None \<Rightarrow> Inl StackedAmountOverflow
              | Some staked' \<Rightarrow> Inr (sm_insert key (owner, staked') stacked)))"

definition div_ceil :: "'w::len word \<Rightarrow> 'w word \<Rightarrow> 'w word" where
  "div_ceil a b = (if a mod b = 0 then a div b else a div b + 1)"

type_synonym 'p share = "bytes \<times> 'p \<times> u128 \<times> u128"

definition by_remainder :: "'p share \<Rightarrow> int \<times> bytes" where
  "by_remainder = (\<lambda>(key, _, _, remainder). (- int (unat remainder), key))"

primrec grant_remaining :: "u128 \<Rightarrow> 'p share list \<Rightarrow> signer_set_error + 'p share list" where
  "grant_remaining remaining [] = Inr []"
| "grant_remaining remaining (share # shares) =
     (if remaining = 0 then Inr (share # shares)
      else case share of (key, public_key, weight, remainder) \<Rightarrow>
        (case checked_add weight 1 of
           None \<Rightarrow> Inl WeightOverflow
         | Some w \<Rightarrow> bind_e (grant_remaining (remaining - 1) shares) (\<lambda>granted.
             Inr ((key, public_key, w, remainder) # granted))))"

definition from_reward_slots ::
  "('r, 's, 'p, 'k) auth_api \<Rightarrow> ('p \<times> u128) list \<Rightarrow> u32 \<Rightarrow> signer_set_error + 'p signer_set \<times> u128" where
  "from_reward_slots api signers reward_slots = (if reward_slots = 0 then Inl ZeroRewardSlots
     else
       let slots = word_of_nat (unat reward_slots) in
       bind_e (fold_e (add_stake api) [] signers) (\<lambda>stacked.
       bind_e (sum_checked StackedAmountOverflow 0 (map (\<lambda>(_, _, amount). amount) stacked)) (\<lambda>whole.
       let threshold = max (div_ceil whole slots) 1;
           apportioned = map (\<lambda>(key, public_key, amount).
             (key, public_key, amount div threshold, amount mod threshold)) stacked in
       bind_e (sum_checked WeightOverflow 0 (map (\<lambda>(_, _, weight, _). weight) apportioned)) (\<lambda>assigned.
       let remaining = (if slots < assigned then 0 else slots - assigned) in
       bind_e (grant_remaining remaining (sort_key by_remainder apportioned)) (\<lambda>granted.
       bind_e (map_e (\<lambda>(_, public_key, weight, _).
           bind_e (u32_try_from weight) (\<lambda>w. Inr \<lparr>sg_public_key = public_key, sg_weight = w\<rparr>))
         (filter (\<lambda>(_, _, weight, _). weight \<noteq> 0) (sort_key fst granted))) (\<lambda>signers.
       bind_e (signer_set_new api signers) (\<lambda>set. Inr (set, threshold))))))))"

section \<open>Apportioning reward slots\<close>

text \<open>The stake of a key, and what the map under construction holds for it.\<close>

definition stake_of :: "('r, 's, 'p, 'k) auth_api \<Rightarrow> ('p \<times> u128) list \<Rightarrow> bytes \<Rightarrow> nat" where
  "stake_of api signers key =
     sum_list (map (\<lambda>(public_key, amount). if pk_serialize (au_secp api) public_key = key then unat amount else 0) signers)"

definition held :: "(bytes, 'p \<times> u128) sorted_map \<Rightarrow> bytes \<Rightarrow> nat" where
  "held stacked key = (case sm_lookup stacked key of None \<Rightarrow> 0 | Some (_, amount) \<Rightarrow> unat amount)"

definition stakes_ok :: "('r, 's, 'p, 'k) auth_api \<Rightarrow> (bytes, 'p \<times> u128) sorted_map \<Rightarrow> bool" where
  "stakes_ok api stacked \<longleftrightarrow> sm_inv stacked \<and>
     (\<forall>(key, public_key, amount) \<in> set stacked. pk_serialize (au_secp api) public_key = key \<and> amount \<noteq> 0)"

abbreviation total_stake :: "('a \<times> u128) list \<Rightarrow> nat" where
  "total_stake \<equiv> \<lambda>signers. sum_list (map (unat \<circ> snd) signers)"

abbreviation total_held :: "(bytes, 'p \<times> u128) sorted_map \<Rightarrow> nat" where
  "total_held \<equiv> \<lambda>stacked. sum_list (map (\<lambda>(_, _, amount). unat amount) stacked)"

lemma sm_insert_sum:
  "sm_inv m \<Longrightarrow> sum_list (map (\<lambda>(_, _, amount). unat amount) (sm_insert key (p, a) m)) + held m key =
     total_held m + unat a"
proof (induction m)
  case (Cons e m)
  then have "held m key = 0" if "key < fst e"
    using that by (auto simp: held_def sm_lookup_def sm_inv_def split: option.split dest!: map_of_SomeD)
  with Cons show ?case
    by (cases e) (auto simp: held_def sm_inv_def sm_lookup_def split: option.splits)
qed (simp add: held_def sm_lookup_def)

lemma sm_insert_subset: "set (sm_insert k v m) \<subseteq> insert (k, v) (set m)"
  by (induction k v m rule: sm_insert.induct) auto

lemma add_stake_step:
  assumes "stakes_ok api m" "held m (pk_serialize (au_secp api) p) + unat a < 2 ^ 128"
  obtains m' where "add_stake api m (p, a) = Inr m'" "stakes_ok api m'"
    "\<And>key. held m' key = held m key + (if pk_serialize (au_secp api) p = key then unat a else 0)"
    "total_held m' = total_held m + unat a"
proof (cases "a = 0")
  case True
  with assms show ?thesis by (intro that [of m]) (auto simp: add_stake_def)
next
  case False
  let ?k = "pk_serialize (au_secp api) p"
  obtain q b where qb: "(case sm_lookup m ?k of None \<Rightarrow> (p, 0) | Some entry \<Rightarrow> entry) = (q, b)" by fastforce
  then have q: "pk_serialize (au_secp api) q = ?k" "unat b = held m ?k"
    using assms(1) by (auto simp: held_def stakes_ok_def sm_lookup_def split: option.splits dest!: map_of_SomeD)
  then obtain c where c: "checked_add b a = Some c" "unat c = held m ?k + unat a"
    using assms(2) by (auto simp: checked_add_def unat_word_ariths)
  have inv: "sm_inv m" using assms(1) by (simp add: stakes_ok_def)
  show ?thesis
  proof (rule that [of "sm_insert ?k (q, c) m"])
    show "add_stake api m (p, a) = Inr (sm_insert ?k (q, c) m)"
      using False qb c by (simp add: add_stake_def Let_def)
    have "c \<noteq> 0" using c(2) False by (metis add_is_0 unat_eq_0 unsigned_0)
    then show "stakes_ok api (sm_insert ?k (q, c) m)"
      using assms(1) q sm_insert_subset [of ?k "(q, c)" m] by (fastforce simp: stakes_ok_def sm_insert_inv)
    show "held (sm_insert ?k (q, c) m) key = held m key + (if ?k = key then unat a else 0)" for key
      using c(2) by (auto simp: held_def sm_lookup_insert [OF inv])
    show "total_held (sm_insert ?k (q, c) m) = total_held m + unat a"
      using sm_insert_sum [OF inv, of ?k q c] c(2) by simp
  qed
qed

lemma add_stake_overflow:
  assumes "stakes_ok api m" "2 ^ 128 \<le> held m (pk_serialize (au_secp api) p) + unat a"
  shows "add_stake api m (p, a) = Inl StackedAmountOverflow"
proof -
  obtain q b where qb: "(case sm_lookup m (pk_serialize (au_secp api) p) of None \<Rightarrow> (p, 0) | Some entry \<Rightarrow> entry) = (q, b)"
    by fastforce
  then have "unat b = held m (pk_serialize (au_secp api) p)" by (auto simp: held_def split: option.splits)
  moreover have "a \<noteq> 0" using assms(2) unsigned_less [of b, where 'a = nat] calculation by auto
  ultimately show ?thesis using assms(2) qb by (simp add: add_stake_def Let_def checked_add_def)
qed

lemma held_le: "stakes_ok api m \<Longrightarrow> held m key \<le> total_held m"
  using sm_insert_sum [of m key undefined 0] by (simp add: stakes_ok_def)

lemma fold_stakes:
  assumes "stakes_ok api m"
  shows "case fold_e (add_stake api) m signers of
      Inl e \<Rightarrow> e = StackedAmountOverflow \<and> 2 ^ 128 \<le> total_held m + total_stake signers
    | Inr m' \<Rightarrow> stakes_ok api m' \<and> (\<forall>key. held m' key = held m key + stake_of api signers key) \<and>
        total_held m' = total_held m + total_stake signers"
  using assms
proof (induction signers arbitrary: m)
  case (Cons x signers)
  obtain p a where x: "x = (p, a)" by fastforce
  show ?case
  proof (cases "held m (pk_serialize (au_secp api) p) + unat a < 2 ^ 128")
    case True
    then obtain m' where m': "add_stake api m (p, a) = Inr m'" "stakes_ok api m'"
        "\<And>key. held m' key = held m key + (if pk_serialize (au_secp api) p = key then unat a else 0)"
        "total_held m' = total_held m + unat a"
      using add_stake_step [OF Cons.prems] by metis
    with Cons.IH [OF m'(2)] x show ?thesis by (simp add: stake_of_def add.assoc split: sum.splits)
  next
    case False
    with add_stake_overflow [OF Cons.prems] held_le [OF Cons.prems, of "pk_serialize (au_secp api) p"] x
    show ?thesis by simp
  qed
qed (simp add: stake_of_def)

text \<open>The quotient, rounded up, and the threshold it gives.\<close>

lemma nat_div_ceil:
  fixes a b :: nat
  assumes "0 < b"
  shows "(a + b - 1) div b = a div b + (if a mod b = 0 then 0 else 1)"
proof (cases "a mod b = 0")
  case True
  then have "a + b - 1 = a div b * b + (b - 1)" using assms by (auto simp: mod_eq_0_iff_dvd)
  then have "(a + b - 1) div b = a div b + (b - 1) div b" using assms by (simp only: div_mult_self3)
  with True assms show ?thesis by simp
next
  case False
  then have "a + b - 1 = (a div b + 1) * b + (a mod b - 1)"
    using div_mult_mod_eq [of a b] unfolding distrib_right by linarith
  then have "(a + b - 1) div b = a div b + 1 + (a mod b - 1) div b" using assms by (simp only: div_mult_self3)
  with False assms show ?thesis by (simp add: less_imp_diff_less)
qed

lemma nat_div_ceil_le: "0 < b \<Longrightarrow> a \<le> (a + b - 1) div b * b" for a b :: nat
  using div_mult_mod_eq [of "a + b - 1" b] mod_less_divisor [of b "a + b - 1"] by linarith

lemma unat_div_ceil:
  fixes a b :: "'w::len word"
  assumes "b \<noteq> 0"
  shows "unat (div_ceil a b) = (unat a + unat b - 1) div unat b"
proof -
  have b: "0 < unat b" using assms by (simp add: unat_gt_0)
  have "unat a div unat b + 1 < 2 ^ LENGTH('w)" if "unat a mod unat b \<noteq> 0"
  proof -
    have "unat b \<noteq> 1" "0 < unat a" using that by (auto intro: gr0I)
    with b have "unat a div unat b < unat a" by (simp add: div_less_dividend)
    then have "unat a div unat b + 1 \<le> unat a" by simp
    then show ?thesis by (rule le_less_trans) (rule unsigned_less)
  qed
  then show ?thesis
    unfolding nat_div_ceil [OF b] by (auto simp: div_ceil_def unat_div unat_mod word_unat_eq_iff unat_word_ariths)
qed

subsection \<open>Granting the slots left over\<close>

abbreviation share_weight :: "'p share \<Rightarrow> nat" where
  "share_weight \<equiv> \<lambda>(_, _, weight, _). unat weight"

definition bump :: "'p share \<Rightarrow> 'p share" where
  "bump = (\<lambda>(key, public_key, weight, remainder). (key, public_key, weight + 1, remainder))"

lemma fst_bump [simp]: "fst (bump x) = fst x"
  by (simp add: bump_def split_beta)

lemma share_weight_bump: "share_weight x + 1 < 2 ^ 128 \<Longrightarrow> share_weight (bump x) = share_weight x + 1"
  by (simp add: bump_def split_beta unat_word_ariths)

definition grant :: "nat \<Rightarrow> 'p share list \<Rightarrow> 'p share list" where
  "grant n shares = map bump (take n shares) @ drop n shares"

lemma grant_remaining_eq:
  assumes "\<forall>x \<in> set shares. share_weight x + 1 < 2 ^ 128"
  shows "grant_remaining r shares = Inr (grant (unat r) shares)"
  using assms
proof (induction shares arbitrary: r)
  case (Cons x shares)
  show ?case
  proof (cases "r = 0")
    case False
    then obtain n where n: "unat r = Suc n" using not0_implies_Suc unat_eq_zero by blast
    then have "unat (r - 1) = n" using False by (simp add: unat_minus_one)
    with Cons False n show ?thesis
      by (cases x) (auto simp: grant_def bump_def checked_add_def)
  qed (simp add: grant_def)
qed (simp add: grant_def)

lemma sum_list_grant:
  assumes "distinct (map fst shares)" "\<forall>x \<in> set shares. share_weight x + 1 < 2 ^ 128"
  shows "sum_list (map (\<lambda>x. if fst x = k then share_weight x else 0) (grant n shares)) =
    sum_list (map (\<lambda>x. if fst x = k then share_weight x else 0) shares) +
      (if k \<in> fst ` set (take n shares) then 1 else 0)"
proof -
  have bumped: "sum_list (map (\<lambda>x. if fst x = k then share_weight x else 0) (map bump xs)) =
      sum_list (map (\<lambda>x. if fst x = k then share_weight x else 0) xs) + (if k \<in> fst ` set xs then 1 else 0)"
    if "distinct (map fst xs)" "\<forall>x \<in> set xs. share_weight x + 1 < 2 ^ 128" for xs :: "'a share list"
    using that
  proof (induction xs)
    case (Cons x xs)
    then show ?case using share_weight_bump [of x] by (auto simp: image_iff)
  qed simp
  have "distinct (map fst (take n shares))" using assms(1) by (simp add: take_map [symmetric])
  moreover have "\<forall>x \<in> set (take n shares). share_weight x + 1 < 2 ^ 128"
    using assms(2) by (blast dest: in_set_takeD)
  ultimately have "sum_list (map (\<lambda>x. if fst x = k then share_weight x else 0) (grant n shares)) =
      sum_list (map (\<lambda>x. if fst x = k then share_weight x else 0) (take n shares @ drop n shares)) +
      (if k \<in> fst ` set (take n shares) then 1 else 0)"
    using bumped unfolding grant_def map_append sum_list_append by simp
  then show ?thesis by (simp only: append_take_drop_id)
qed

text \<open>The signers returned for a list of shares, and how many slots each key has among them.\<close>

definition seated :: "'p share list \<Rightarrow> 'p signer list" where
  "seated shares = map (\<lambda>(_, public_key, weight, _). \<lparr>sg_public_key = public_key, sg_weight = word_of_nat (unat weight)\<rparr>)
     (filter (\<lambda>(_, _, weight, _). weight \<noteq> 0) (sort_key fst shares))"

definition seats :: "('r, 's, 'p, 'k) auth_api \<Rightarrow> 'p signer_set \<Rightarrow> bytes \<Rightarrow> nat" where
  "seats api signers key = sum_list (map (\<lambda>s.
     if pk_serialize (au_secp api) (sg_public_key s) = key then unat (sg_weight s) else 0) signers)"

definition shares_ok :: "('r, 's, 'p, 'k) auth_api \<Rightarrow> 'p share list \<Rightarrow> bool" where
  "shares_ok api shares \<longleftrightarrow> distinct (map fst shares) \<and> (\<forall>(key, public_key, weight, _) \<in> set shares.
     pk_serialize (au_secp api) public_key = key \<and> unat weight < 2 ^ 32)"

lemma seats_seated:
  assumes "shares_ok api shares"
  shows "seats api (seated shares) k = sum_list (map (\<lambda>x. if fst x = k then share_weight x else 0) shares)"
proof -
  have "seats api (map (\<lambda>(_, public_key, weight, _).
        \<lparr>sg_public_key = public_key, sg_weight = word_of_nat (unat weight)\<rparr>)
        (filter (\<lambda>(_, _, weight, _). weight \<noteq> 0) xs)) k =
      sum_list (map (\<lambda>x. if fst x = k then share_weight x else 0) xs)"
    if "\<forall>(key, public_key, weight, _) \<in> set xs. pk_serialize (au_secp api) public_key = key \<and> unat weight < 2 ^ 32"
    for xs
    using that
    by (induction xs) (auto simp: seats_def unsigned_ucast_eq take_bit_nat_def)
  from this [of "sort_key fst shares"] have "seats api (seated shares) k =
      sum_list (map (\<lambda>x. if fst x = k then share_weight x else 0) (sort_key fst shares))"
    using assms by (simp add: seated_def shares_ok_def)
  then show ?thesis
    by (metis (no_types) mset_map mset_sort sum_mset_sum_list)
qed

text \<open>With every weight below \<open>2 ^ 32\<close> the last stages of the computation do not fail, except when no
  share is positive.\<close>

lemma seated_collect:
  assumes "shares_ok api shares"
  shows "map_e (\<lambda>(_, public_key, weight, _).
      bind_e (u32_try_from weight) (\<lambda>w. Inr \<lparr>sg_public_key = public_key, sg_weight = w\<rparr>))
    (filter (\<lambda>(_, _, weight, _). weight \<noteq> 0) (sort_key fst shares)) = Inr (seated shares)"
  using assms
  by (auto simp: map_e_Inr_iff seated_def shares_ok_def list_all2_conv_all_nth u32_try_from_def
      split_beta dest!: nth_mem) 

lemma seated_keys:
  assumes "shares_ok api shares"
  shows "map (\<lambda>s. pk_serialize (au_secp api) (sg_public_key s)) (seated shares) =
    map fst (filter (\<lambda>(_, _, weight, _). weight \<noteq> 0) (sort_key fst shares))"
  using assms by (auto simp: seated_def shares_ok_def)

lemma sorted_seated_keys:
  assumes "shares_ok api shares"
  shows "sorted_wrt (<) (map (\<lambda>s. pk_serialize (au_secp api) (sg_public_key s)) (seated shares))"
proof -
  have "distinct (map fst (sort_key fst shares))"
    using assms by (simp add: shares_ok_def distinct_map)
  then have "sorted_wrt (<) (map fst (sort_key fst shares))"
    by (simp add: strict_sorted_iff)
  then show ?thesis
    unfolding seated_keys [OF assms] sorted_wrt_map by (rule sorted_wrt_filter)
qed

lemma signer_set_new_seated:
  assumes "shares_ok api shares"
  shows "signer_set_new api (seated shares) =
    (if \<exists>x \<in> set shares. share_weight x \<noteq> 0 then Inr (seated shares) else Inl SignersEmpty)"
proof -
  have "distinct (map (\<lambda>s. pk_serialize (au_secp api) (sg_public_key s)) (seated shares))"
    using sorted_seated_keys [OF assms] strict_sorted_iff by blast
  from distinct_card [OF this] have "card (set (map (\<lambda>s. pk_serialize (au_secp api) (sg_public_key s))
      (seated shares))) = length (seated shares)" by simp
  moreover have "seated shares = [] \<longleftrightarrow> \<not> (\<exists>x \<in> set shares. share_weight x \<noteq> 0)"
    by (auto simp: seated_def filter_empty_conv unat_eq_0)
  ultimately show ?thesis
    by (auto simp: signer_set_new_def)
qed

subsection \<open>The whole apportionment\<close>

definition shares_of :: "u128 \<Rightarrow> (bytes, 'p \<times> u128) sorted_map \<Rightarrow> 'p share list" where
  "shares_of t stacked = map (\<lambda>(key, public_key, amount). (key, public_key, amount div t, amount mod t)) stacked"

abbreviation floors :: "'p share list \<Rightarrow> nat" where
  "floors \<equiv> \<lambda>shares. sum_list (map share_weight shares)"

lemma floors_le: "t * floors (shares_of threshold stacked) \<le> total_held stacked" if "t = unat threshold"
proof (induction stacked)
  case (Cons e stacked)
  obtain k p a where e: "e = (k, p, a)" by (metis prod_cases3)
  have "t * (unat a div t) \<le> unat a" by simp
  with Cons show ?case unfolding e by (simp add: shares_of_def that unat_div add_mult_distrib2 add_mono)
qed (simp add: shares_of_def)

lemma fst_shares_of [simp]: "map fst (shares_of t stacked) = map fst stacked"
  by (simp add: shares_of_def split_beta comp_def)

lemma grant_ok:
  assumes "stakes_ok api stacked" "shares = sort_key by_remainder (shares_of t stacked)"
    and "floors shares + n \<le> slots" "slots < 2 ^ 32"
  shows "shares_ok api (grant n shares)" "\<forall>x \<in> set shares. share_weight x + 1 < 2 ^ 128" "distinct (map fst shares)"
proof -
  have set: "set shares = set (shares_of t stacked)" by (simp add: assms(2))
  have le: "share_weight x + n \<le> slots" if "x \<in> set shares" for x
    using member_le_sum_list [of "share_weight x" "map share_weight shares"] that assms(3) by force
  then show room: "\<forall>x \<in> set shares. share_weight x + 1 < 2 ^ 128"
    using assms(4) by fastforce
  have "mset (map fst shares) = mset (map fst stacked)"
    unfolding assms(2) using fst_shares_of by (metis mset_map mset_sort)
  moreover have "distinct (map fst stacked)"
    using assms(1) sm.entries_distinct by (auto simp: stakes_ok_def)
  ultimately show dist: "distinct (map fst shares)"
    by (metis mset_eq_imp_distinct_iff)
  have keys: "pk_serialize (au_secp api) (fst (snd x)) = fst x" if "x \<in> set shares" for x
    using assms(1) that unfolding set by (auto simp: shares_of_def stakes_ok_def)
  have weights: "share_weight (bump x) < 2 ^ 32" if "x \<in> set (take n shares)" for x
  proof -
    from that have "x \<in> set shares" "0 < n" by (auto dest: in_set_takeD intro: gr0I)
    with le [of x] room share_weight_bump [of x] assms(4) show ?thesis by simp
  qed
  have "map fst (grant n shares) = map fst (take n shares @ drop n shares)"
    unfolding grant_def map_append by simp
  then have "map fst (grant n shares) = map fst shares" by (simp only: append_take_drop_id)
  moreover have "pk_serialize (au_secp api) (fst (snd x)) = fst x \<and> share_weight x < 2 ^ 32"
    if "x \<in> set (grant n shares)" for x
  proof -
    from that consider y where "y \<in> set (take n shares)" "x = bump y" | "x \<in> set (drop n shares)"
      by (auto simp: grant_def)
    then show ?thesis
    proof cases
      case 1
      with keys [of y] weights [of y] show ?thesis
        by (auto simp: bump_def split_beta dest: in_set_takeD)
    next
      case 2
      then have "x \<in> set shares" by (rule in_set_dropD)
      with keys [of x] le [of x] assms(4) show ?thesis by simp
    qed
  qed
  ultimately show "shares_ok api (grant n shares)"
    using dist by (simp add: shares_ok_def split_beta)
qed


lemma unat_u128: "unat (word_of_nat (unat slots) :: u128) = unat slots" for slots :: u32
  using u32_less [of slots] by (subst unat_of_nat) simp

lemma reward_threshold:
  fixes slots :: u32 and whole :: u128
  assumes "slots \<noteq> 0"
  shows "unat (max (div_ceil whole (word_of_nat (unat slots))) 1) = max ((unat whole + unat slots - 1) div unat slots) 1"
    and "unat whole \<le> unat (max (div_ceil whole (word_of_nat (unat slots))) 1) * unat slots"
proof -
  let ?s = "word_of_nat (unat slots) :: u128"
  have s: "unat ?s = unat slots" by (rule unat_u128)
  then have "?s \<noteq> 0" using assms by (metis unat_eq_0 unsigned_0)
  from unat_div_ceil [OF this, of whole] s
  have ceil: "unat (div_ceil whole ?s) = (unat whole + unat slots - 1) div unat slots" by simp
  then show eq: "unat (max (div_ceil whole ?s) 1) = max ((unat whole + unat slots - 1) div unat slots) 1"
    by (auto simp: max_def word_le_nat_alt)
  have "0 < unat slots" using assms by (simp add: unat_gt_0)
  then have "unat whole \<le> (unat whole + unat slots - 1) div unat slots * unat slots"
    by (rule nat_div_ceil_le)
  also have "\<dots> \<le> max ((unat whole + unat slots - 1) div unat slots) 1 * unat slots"
    by (intro mult_right_mono) auto
  finally show "unat whole \<le> unat (max (div_ceil whole ?s) 1) * unat slots" using eq by simp
qed

lemma sum_amounts:
  assumes "total_held stacked < 2 ^ 128"
  obtains whole where "sum_checked err 0 (map (\<lambda>(_, _, amount). amount) stacked) = Inr whole"
    "unat whole = total_held stacked"
proof -
  have "sum_list (map unat (map (\<lambda>(_, _, amount). amount) stacked)) = total_held stacked"
    by (induction stacked) auto
  with sum_checked_ok [of 0 "map (\<lambda>(_, _, amount). amount) stacked" err] assms that show ?thesis by auto
qed

lemma sum_floors:
  assumes "floors shares < 2 ^ 128"
  obtains assigned where "sum_checked err 0 (map (\<lambda>(_, _, weight, _). weight) shares) = Inr assigned"
    "unat assigned = floors shares"
proof -
  have "sum_list (map unat (map (\<lambda>(_, _, weight, _). weight) shares)) = floors shares"
    by (induction shares) auto
  with sum_checked_ok [of 0 "map (\<lambda>(_, _, weight, _). weight) shares" err] assms that show ?thesis by auto
qed

lemma floors_le_slots:
  fixes reward_slots :: u32
  assumes "reward_slots \<noteq> 0" "threshold = max (div_ceil whole (word_of_nat (unat reward_slots))) 1"
    and "unat whole = total_held stacked"
  shows "floors (shares_of threshold stacked) \<le> unat reward_slots"
proof -
  have "unat threshold * floors (shares_of threshold stacked) \<le> unat threshold * unat reward_slots"
    by (rule order_trans [OF floors_le [OF refl]])
       (use reward_threshold(2) [OF assms(1), of whole] in \<open>simp only: assms(2,3)\<close>)
  moreover have "0 < unat threshold"
    using reward_threshold(1) [OF assms(1), of whole] assms(2) by simp
  ultimately show ?thesis by simp
qed

lemma saturating_rest:
  fixes slots assigned :: "'w::len word"
  shows "unat (if slots < assigned then 0 else slots - assigned) = unat slots - unat assigned"
  by (auto simp: word_less_nat_alt word_le_nat_alt unat_sub not_less)

lemma reward_stages:
  assumes "reward_slots \<noteq> 0" "total_stake signers < 2 ^ 128"
  obtains stacked threshold n where
    "stakes_ok api stacked" "\<forall>key. held stacked key = stake_of api signers key"
    "unat threshold = max ((total_stake signers + unat reward_slots - 1) div unat reward_slots) 1"
    "floors (shares_of threshold stacked) + n = unat reward_slots"
    "from_reward_slots api signers reward_slots =
       bind_e (signer_set_new api (seated (grant n (sort_key by_remainder (shares_of threshold stacked)))))
         (\<lambda>set. Inr (set, threshold))"
proof -
  have "stakes_ok api []" by (simp add: stakes_ok_def sm.new_inv)
  from fold_stakes [OF this, of signers] assms(2) obtain stacked where
    stacked: "fold_e (add_stake api) [] signers = Inr stacked" "stakes_ok api stacked"
      "\<forall>key. held stacked key = stake_of api signers key" "total_held stacked = total_stake signers"
    by (auto simp: held_def sm_lookup_def split: sum.splits)
  with assms(2) obtain whole where whole:
      "sum_checked StackedAmountOverflow 0 (map (\<lambda>(_, _, amount). amount) stacked) = Inr whole"
      "unat whole = total_held stacked"
    using sum_amounts [of stacked StackedAmountOverflow] by metis
  let ?slots = "word_of_nat (unat reward_slots) :: u128"
  define threshold where t: "threshold = max (div_ceil whole ?slots) 1"
  define order where order: "order = sort_key by_remainder (shares_of threshold stacked)"
  have le: "floors (shares_of threshold stacked) \<le> unat reward_slots"
    by (rule floors_le_slots [OF assms(1) t whole(2)])
  then have "floors (shares_of threshold stacked) < 2 ^ 128" using u32_less [of reward_slots] by simp
  then obtain assigned where assigned:
      "sum_checked WeightOverflow 0 (map (\<lambda>(_, _, weight, _). weight) (shares_of threshold stacked)) = Inr assigned"
      "unat assigned = floors (shares_of threshold stacked)"
    using sum_floors [of "shares_of threshold stacked" WeightOverflow] by metis
  define r where "r = (if ?slots < assigned then 0 else ?slots - assigned)"
  have r: "unat r = unat reward_slots - floors (shares_of threshold stacked)"
    unfolding r_def saturating_rest by (simp only: unat_u128 assigned(2))
  have "floors order = floors (shares_of threshold stacked)"
    unfolding order by (metis (no_types) mset_map mset_sort sum_mset_sum_list)
  with le r have ok: "shares_ok api (grant (unat r) order)" "\<forall>x \<in> set order. share_weight x + 1 < 2 ^ 128"
    using grant_ok [OF stacked(2) order, of "unat r" "unat reward_slots"] u32_less [of reward_slots] by auto
  have "from_reward_slots api signers reward_slots =
      bind_e (signer_set_new api (seated (grant (unat r) order))) (\<lambda>set. Inr (set, threshold))"
    by (simp only: from_reward_slots_def Let_def assms(1) if_False stacked(1) bind_e_simps whole(1) t [symmetric]
        shares_of_def [symmetric] assigned(1) r_def [symmetric] order [symmetric] grant_remaining_eq [OF ok(2)]
        seated_collect [OF ok(1)])
  note run = this [unfolded order]
  have "floors (shares_of threshold stacked) + unat r = unat reward_slots" using r le by simp
  moreover have "unat threshold = max ((total_stake signers + unat reward_slots - 1) div unat reward_slots) 1"
    using reward_threshold(1) [OF assms(1), of whole] unfolding t whole(2) stacked(4) .
  ultimately show ?thesis by (intro that [OF stacked(2,3) _ _ run])
qed

text \<open>The method of largest remainders: every key has the whole slots its stake pays for, and the slots left
  over go one each to the keys with the largest remainders, ties to the smaller key.\<close>

definition largest_remainder :: "(bytes \<Rightarrow> nat) \<Rightarrow> nat \<Rightarrow> nat \<Rightarrow> (bytes \<Rightarrow> nat) \<Rightarrow> bool" where
  "largest_remainder stake t slots seat \<longleftrightarrow> (let keys = {k. stake k \<noteq> 0} in
     (\<Sum>k \<in> keys. stake k div t) \<le> slots \<and>
     (\<exists>bumped \<subseteq> keys. card bumped = min (slots - (\<Sum>k \<in> keys. stake k div t)) (card keys) \<and>
        (\<forall>k. seat k = stake k div t + (if k \<in> bumped then 1 else 0)) \<and>
        (\<forall>k \<in> bumped. \<forall>k' \<in> keys - bumped. stake k' mod t < stake k mod t \<or>
           stake k' mod t = stake k mod t \<and> k < k')))"

lemma shares_held:
  assumes "distinct (map fst stacked)"
  shows "sum_list (map (\<lambda>x. if fst x = k then share_weight x else 0) (shares_of t stacked)) = held stacked k div unat t"
  using assms
proof (induction stacked)
  case (Cons e stacked)
  moreover have "held stacked k = 0" if "k \<notin> fst ` set stacked"
    using that by (auto simp: held_def sm_lookup_def split: option.split dest!: map_of_SomeD intro: rev_image_eqI)
  ultimately show ?case
    by (cases e) (auto simp: shares_of_def held_def sm_lookup_def unat_div)
qed (simp add: shares_of_def held_def sm_lookup_def)

lemma held_entry: "stakes_ok api stacked \<Longrightarrow> (k, p, a) \<in> set stacked \<Longrightarrow> held stacked k = unat a"
  using sm.set_entries [of stacked k "(p, a)"] by (simp add: stakes_ok_def held_def)

lemma share_remainder:
  assumes "stakes_ok api stacked" "x \<in> set (shares_of t stacked)"
  shows "by_remainder x = (- int (held stacked (fst x) mod unat t), fst x)"
  using assms(2) held_entry [OF assms(1)] by (auto simp: shares_of_def by_remainder_def unat_mod simp del: of_nat_unat)

lemma held_keys: 
  assumes "stakes_ok api stacked"
  shows "{k. held stacked k \<noteq> 0} = set (map fst stacked)"
proof -
  have "held stacked k \<noteq> 0 \<longleftrightarrow> k \<in> fst ` set stacked" for k
  proof
    assume "k \<in> fst ` set stacked"
    then obtain p a where "(k, p, a) \<in> set stacked" by auto
    with assms held_entry [OF assms this] show "held stacked k \<noteq> 0" by (auto simp: stakes_ok_def unat_eq_0)
  next
    assume "held stacked k \<noteq> 0"
    then have "map_of stacked k \<noteq> None" by (cases "map_of stacked k") (simp_all add: held_def sm_lookup_def)
    then show "k \<in> fst ` set stacked" unfolding map_of_eq_None_iff by blast
  qed
  then show ?thesis by auto
qed

lemma sum_floors_held:
  assumes "stakes_ok api stacked"
  shows "(\<Sum>k | held stacked k \<noteq> 0. held stacked k div unat t) = floors (shares_of t stacked)"
proof -
  have d: "distinct (map fst stacked)" using assms sm.entries_distinct by (auto simp: stakes_ok_def)
  have "(\<Sum>k \<in> set (map fst stacked). held stacked k div unat t) =
      sum_list (map (\<lambda>e. held stacked (fst e) div unat t) stacked)"
    using sum_list_distinct_conv_sum_set [OF d, of "\<lambda>k. held stacked k div unat t"] by (simp add: comp_def)
  also have "map (\<lambda>e. held stacked (fst e) div unat t) stacked = map share_weight (shares_of t stacked)"
    using held_entry [OF assms] by (auto simp: shares_of_def unat_div)
  finally show ?thesis unfolding held_keys [OF assms] .
qed

text \<open>A prefix of a list sorted by distinct keys holds the smallest ones.\<close>

lemma sort_key_take_less:
  assumes "inj_on f (set xs)" "distinct xs" "x \<in> set (take n (sort_key f xs))" "y \<in> set (drop n (sort_key f xs))"
  shows "f x < f y"
proof -
  have "sorted (map f (take n (sort_key f xs) @ drop n (sort_key f xs)))" by simp
  then have "f x \<le> f y" using assms(3,4) unfolding map_append sorted_append by auto
  moreover have "x \<noteq> y"
    using assms(2-4) distinct_append [of "take n (sort_key f xs)" "drop n (sort_key f xs)"]
    by (auto simp del: distinct_append)
  ultimately show ?thesis
    using assms(1,3,4) by (metis inj_onD in_set_dropD in_set_takeD order_le_less set_sort)
qed

lemma sum_list_sort_key: "sum_list (map g (sort_key f xs)) = sum_list (map g xs)" for g :: "'a \<Rightarrow> nat"
  by (metis (no_types) mset_map mset_sort sum_mset_sum_list)

lemma snd_by_remainder: "snd (by_remainder x) = fst x"
  by (simp add: by_remainder_def split_beta)

lemma bumped_first:
  assumes "stakes_ok api stacked" "distinct (map fst (shares_of t stacked))"
    and "x \<in> set (take n (sort_key by_remainder (shares_of t stacked)))"
    and "y \<in> set (drop n (sort_key by_remainder (shares_of t stacked)))"
  shows "held stacked (fst y) mod unat t < held stacked (fst x) mod unat t \<or>
    held stacked (fst y) mod unat t = held stacked (fst x) mod unat t \<and> fst x < fst y"
proof -
  have "inj_on by_remainder (set (shares_of t stacked))" "distinct (shares_of t stacked)"
    using assms(2) unfolding distinct_map by (metis (no_types) inj_onD inj_onI snd_by_remainder)+
  from sort_key_take_less [OF this assms(3,4)] show ?thesis
    using assms(3,4) share_remainder [OF assms(1), of x t] share_remainder [OF assms(1), of y t]
    by (auto dest!: in_set_takeD in_set_dropD)
qed

lemma grant_apportions:
  assumes ok: "stakes_ok api stacked" and n: "floors (shares_of t stacked) + n = slots" "slots < 2 ^ 32"
  shows "largest_remainder (held stacked) (unat t) slots
    (seats api (seated (grant n (sort_key by_remainder (shares_of t stacked)))))"
proof -
  define order where "order = sort_key by_remainder (shares_of t stacked)"
  define bumped where "bumped = fst ` set (take n order)"
  have "floors order = floors (shares_of t stacked)" unfolding order_def by (rule sum_list_sort_key)
  with n have granted: "shares_ok api (grant n order)" "\<forall>x \<in> set order. share_weight x + 1 < 2 ^ 128" "distinct (map fst order)"
    using grant_ok [OF ok order_def, of n slots] by simp_all
  have d: "distinct (map fst stacked)" using ok sm.entries_distinct by (auto simp: stakes_ok_def)
  have seats: "seats api (seated (grant n order)) k = held stacked k div unat t + (if k \<in> bumped then 1 else 0)" for k
    unfolding seats_seated [OF granted(1)] sum_list_grant [OF granted(3,2)] bumped_def
    by (simp only: order_def sum_list_sort_key shares_held [OF d])
  have keys: "{k. held stacked k \<noteq> 0} = fst ` set order"
    unfolding held_keys [OF ok] order_def set_sort by (metis fst_shares_of set_map)
  have "distinct (map fst (take n order))" using granted(3) by (simp add: take_map [symmetric])
  from distinct_card [OF this] distinct_card [OF granted(3)]
  have card: "card bumped = min n (card (fst ` set order))"
    unfolding bumped_def by (simp add: min.commute)
  have first: "held stacked k' mod unat t < held stacked k mod unat t \<or>
      held stacked k' mod unat t = held stacked k mod unat t \<and> k < k'"
    if k: "k \<in> bumped" "k' \<in> fst ` set order - bumped" for k k'
  proof -
    from k(1) obtain x where "x \<in> set (take n order)" "k = fst x" by (auto simp: bumped_def)
    moreover from k(2) obtain y where "y \<in> set order" "k' = fst y" "y \<notin> set (take n order)"
      unfolding bumped_def by blast
    moreover from this have "y \<in> set (drop n order)" by (metis UnE append_take_drop_id set_append)
    ultimately show ?thesis using bumped_first [OF ok] d unfolding order_def by simp
  qed
  have sub: "bumped \<subseteq> fst ` set order" by (auto simp: bumped_def dest: in_set_takeD)
  have sum: "(\<Sum>k \<in> fst ` set order. held stacked k div unat t) = floors (shares_of t stacked)"
    using sum_floors_held [OF ok, of t] unfolding keys .
  have rest: "floors (shares_of t stacked) \<le> slots" "slots - floors (shares_of t stacked) = n" using n(1) by simp_all
  show ?thesis
    unfolding largest_remainder_def Let_def keys sum rest(2) order_def [symmetric]
    by (intro conjI exI [of _ bumped] allI ballI rest(1) sub card seats first)
qed

lemma grant_positive:
  assumes ok: "stakes_ok api stacked" and n: "floors (shares_of t stacked) + n = slots" "slots < 2 ^ 32" "0 < slots"
  shows "(\<exists>x \<in> set (grant n (sort_key by_remainder (shares_of t stacked))). share_weight x \<noteq> 0) \<longleftrightarrow> stacked \<noteq> []"
proof -
  define order where "order = sort_key by_remainder (shares_of t stacked)"
  have floors: "floors order = floors (shares_of t stacked)" unfolding order_def by (rule sum_list_sort_key)
  have empty: "order = [] \<longleftrightarrow> stacked = []"
    unfolding order_def by (metis length_0_conv length_map length_sort fst_shares_of)
  have "\<exists>x \<in> set (grant n order). share_weight x \<noteq> 0" if "order \<noteq> []"
  proof (cases n)
    case 0
    with floors n have "floors order \<noteq> 0" by simp
    then have "\<exists>x \<in> set order. share_weight x \<noteq> 0" by (induction order) auto
    with 0 show ?thesis by (simp add: grant_def)
  next
    case (Suc m)
    with that have "bump (hd order) \<in> set (grant n order)" by (cases order) (auto simp: grant_def)
    moreover have "share_weight (hd order) + 1 < 2 ^ 128"
      using grant_ok(2) [OF ok order_def, of n slots] floors n that by simp
    ultimately show ?thesis using share_weight_bump [of "hd order"] by (metis add_is_0 one_neq_zero)
  qed
  moreover have "grant n order = []" if "order = []" using that by (simp add: grant_def)
  ultimately show ?thesis using empty unfolding order_def by auto
qed

lemma total_stake_zero_iff: "total_stake signers = 0 \<longleftrightarrow> (\<forall>key. stake_of api signers key = 0)"
proof
  assume "\<forall>key. stake_of api signers key = 0"
  then have "\<forall>x \<in> set signers. stake_of api signers (pk_serialize (au_secp api) (fst x)) = 0" by blast
  then show "total_stake signers = 0" by (fastforce simp: stake_of_def)
qed (auto simp: stake_of_def)

lemma from_reward_slots_result:
  assumes "reward_slots \<noteq> 0" "total_stake signers < 2 ^ 128"
  obtains "total_stake signers = 0" "from_reward_slots api signers reward_slots = Inl SignersEmpty"
  | set threshold where "total_stake signers \<noteq> 0" "from_reward_slots api signers reward_slots = Inr (set, threshold)"
      "unat threshold = max ((total_stake signers + unat reward_slots - 1) div unat reward_slots) 1"
      "largest_remainder (stake_of api signers) (unat threshold) (unat reward_slots) (seats api set)"
      "sorted_wrt (<) (map (\<lambda>s. pk_serialize (au_secp api) (sg_public_key s)) set)"
proof -
  obtain stacked threshold n where stages:
    "stakes_ok api stacked" "\<forall>key. held stacked key = stake_of api signers key"
    "unat threshold = max ((total_stake signers + unat reward_slots - 1) div unat reward_slots) 1"
    "floors (shares_of threshold stacked) + n = unat reward_slots"
    "from_reward_slots api signers reward_slots =
       bind_e (signer_set_new api (seated (grant n (sort_key by_remainder (shares_of threshold stacked)))))
         (\<lambda>set. Inr (set, threshold))"
    by (rule reward_stages [OF assms])
  let ?granted = "grant n (sort_key by_remainder (shares_of threshold stacked))"
  have "shares_ok api ?granted"
    using grant_ok(1) [OF stages(1) refl, of threshold n "unat reward_slots"] stages(4) u32_less [of reward_slots]
    by (simp add: sum_list_sort_key)
  note new = signer_set_new_seated [OF this] and sorted = sorted_seated_keys [OF this]
  have pos: "0 < unat reward_slots" using assms(1) by (simp add: unat_gt_0)
  note positive = grant_positive [OF stages(1,4) u32_less pos]
  have stake: "stake_of api signers = held stacked" using stages(2) by auto
  have zero: "total_stake signers = 0 \<longleftrightarrow> stacked = []"
    unfolding total_stake_zero_iff [of _ api] stake using held_keys [OF stages(1)] by auto
  show ?thesis
  proof (cases "stacked = []")
    case True
    with new positive have "signer_set_new api (seated ?granted) = Inl SignersEmpty" by simp
    with True zero stages(5) show ?thesis by (intro that(1)) simp_all
  next
    case False
    with new positive have "signer_set_new api (seated ?granted) = Inr (seated ?granted)" by simp
    with stages(5) have "from_reward_slots api signers reward_slots = Inr (seated ?granted, threshold)" by simp
    moreover have "total_stake signers \<noteq> 0" using zero False by blast
    ultimately show ?thesis
      using that(2) [OF _ _ stages(3) _ sorted] grant_apportions [OF stages(1,4) u32_less] unfolding stake by blast
  qed
qed

lemma from_reward_slots_bounded:
  assumes "from_reward_slots api signers reward_slots = Inr r"
  shows "total_stake signers < 2 ^ 128" "reward_slots \<noteq> 0"
proof -
  show "reward_slots \<noteq> 0" using assms by (auto simp: from_reward_slots_def)
  with assms obtain stacked whole where folds: "fold_e (add_stake api) [] signers = Inr stacked"
      "sum_checked StackedAmountOverflow 0 (map (\<lambda>(_, _, amount). amount) stacked) = Inr whole"
    by (auto simp: from_reward_slots_def bind_e_Inr_iff Let_def)
  have "stakes_ok api []" by (simp add: stakes_ok_def sm.new_inv)
  from fold_stakes [OF this, of signers] folds(1) have "total_held stacked = total_stake signers" by simp
  moreover have "sum_list (map unat (map (\<lambda>(_, _, amount). amount) stacked)) = total_held stacked"
    by (induction stacked) auto
  ultimately have "unat whole = total_stake signers" using sum_checked_Inr [OF folds(2)] by simp
  then show "total_stake signers < 2 ^ 128" using unsigned_less [of whole, where 'a = nat] by simp
qed

text \<open>C29: A signer set is derived from stacked amounts exactly when there is a reward slot, some amount is
  positive and the amounts sum below \<open>2 ^ 128\<close>. In particular the weight arithmetic never overflows, whatever
  the amounts, and no derived set has duplicate keys.\<close>

theorem from_reward_slots_defined:
  "(\<exists>derived threshold. from_reward_slots api signers reward_slots = Inr (derived, threshold)) \<longleftrightarrow>
     reward_slots \<noteq> 0 \<and> total_stake signers \<noteq> 0 \<and> total_stake signers < 2 ^ 128"
proof
  assume "\<exists>derived threshold. from_reward_slots api signers reward_slots = Inr (derived, threshold)"
  then obtain derived threshold where r: "from_reward_slots api signers reward_slots = Inr (derived, threshold)" by blast
  note bounds = from_reward_slots_bounded [OF r]
  have "total_stake signers \<noteq> 0"
    by (rule from_reward_slots_result [OF bounds(2,1), of api]) (use r in simp, assumption)
  with bounds show "reward_slots \<noteq> 0 \<and> total_stake signers \<noteq> 0 \<and> total_stake signers < 2 ^ 128" by blast
next
  assume "reward_slots \<noteq> 0 \<and> total_stake signers \<noteq> 0 \<and> total_stake signers < 2 ^ 128"
  then have slots: "reward_slots \<noteq> 0" "total_stake signers < 2 ^ 128" and pos: "total_stake signers \<noteq> 0" by blast+
  show "\<exists>derived threshold. from_reward_slots api signers reward_slots = Inr (derived, threshold)"
    by (rule from_reward_slots_result [OF slots, of api]) (use pos in blast)+
qed

text \<open>C6: The derived signer set apportions the reward slots to the keys by the method of largest remainders,
  where one slot costs the total stake divided by the number of slots, rounded up. Amounts stacked under one
  key count together, the signers are listed in increasing key order, and no more than the available slots
  are given out.\<close>

theorem from_reward_slots_apportions:
  assumes "from_reward_slots api signers reward_slots = Inr (derived, threshold)"
  shows "unat threshold = (total_stake signers + unat reward_slots - 1) div unat reward_slots \<and>
    largest_remainder (stake_of api signers) (unat threshold) (unat reward_slots) (seats api derived) \<and>
    sorted_wrt (<) (map (\<lambda>s. pk_serialize (au_secp api) (sg_public_key s)) derived)"
proof -
  note bounds = from_reward_slots_bounded [OF assms]
  show ?thesis
  proof (rule from_reward_slots_result [OF bounds(2,1), of api])
    fix derived' threshold'
    assume r: "total_stake signers \<noteq> 0" "from_reward_slots api signers reward_slots = Inr (derived', threshold')"
      "unat threshold' = max ((total_stake signers + unat reward_slots - 1) div unat reward_slots) 1"
      "largest_remainder (stake_of api signers) (unat threshold') (unat reward_slots) (seats api derived')"
      "sorted_wrt (<) (map (\<lambda>s. pk_serialize (au_secp api) (sg_public_key s)) derived')"
    have "0 < unat reward_slots" using bounds(2) by (simp add: unat_gt_0)
    moreover have "1 \<le> total_stake signers" using r(1) by (simp only: One_nat_def Suc_le_eq neq0_conv)
    then have "unat reward_slots \<le> total_stake signers + unat reward_slots - 1" by linarith
    ultimately have "1 \<le> (total_stake signers + unat reward_slots - 1) div unat reward_slots"
      by (simp only: One_nat_def Suc_le_eq div_greater_zero_iff)
    with r assms show ?thesis by simp
  qed (use assms in simp)
qed


theorem from_reward_slots_apportions_witness:
  "from_reward_slots byte_api [(5, 30), (7, 50), (5, 25)] 10 =
     Inr ([\<lparr>sg_public_key = 5, sg_weight = 5\<rparr>, \<lparr>sg_public_key = 7, sg_weight = 5\<rparr>], 11) \<and>
   largest_remainder (stake_of byte_api [(5, 30), (7, 50), (5, 25)]) 11 10
     (seats byte_api [\<lparr>sg_public_key = 5, sg_weight = 5\<rparr>, \<lparr>sg_public_key = 7, sg_weight = 5\<rparr>])"
proof -
  have pk: "pk_serialize (au_secp byte_api) k = k # replicate 32 0" for k by (simp add: byte_api_def byte_secp_def)
  have stacked: "fold_e (add_stake byte_api) [] [(5, 30), (7, 50), (5, 25)] = Inr
    [(5 # replicate 32 0, 5, 55), (7 # replicate 32 0, 7, 50)]"
    by (simp add: pk add_stake_def sm_lookup_def checked_add_def Let_def)
  have t: "max (div_ceil 105 (10 :: u128)) 1 = 11" by (simp add: div_ceil_def)
  have "from_reward_slots byte_api [(5, 30), (7, 50), (5, 25)] 10 =
      Inr ([\<lparr>sg_public_key = 5, sg_weight = 5\<rparr>, \<lparr>sg_public_key = 7, sg_weight = 5\<rparr>], 11)"
    unfolding from_reward_slots_def stacked
    by (simp add: sum_checked_def checked_add_def Let_def t by_remainder_def u32_try_from_def signer_set_new_def pk)
  from from_reward_slots_apportions [OF this] this show ?thesis by simp
qed

end
