(* ===== verification/Marf_Node.thy ===== *)
theory Marf_Node
  imports Primitives
begin

text \<open>
  The nodes of the Merkle radix forest (\<open>nano-marf\<close>): leaf values, node kinds, the hash preimages of leaves,
  internal nodes and states, the in-memory node with its stored and back-pointing children, and the records
  nodes are stored as. The hash function is a parameter.
\<close>

section \<open>Values and paths\<close>

text \<open>A \<open>MarfValue\<close> is 40 bytes.\<close>

definition mv_from_value_hash :: "bytes \<Rightarrow> bytes" where
  "mv_from_value_hash hash = hash @ replicate (40 - length hash) 0"

definition mv_from_value :: "(bytes \<Rightarrow> bytes) \<Rightarrow> bytes \<Rightarrow> bytes" where
  "mv_from_value sha512_256 d = mv_from_value_hash (sha512_256 d)"

definition u16_to_le :: "u16 \<Rightarrow> bytes" where
  "u16_to_le v = rev (u16_to_be v)"

definition u32_to_le :: "u32 \<Rightarrow> bytes" where
  "u32_to_le v = rev (u32_to_be v)"

definition u16_from_le :: "bytes \<Rightarrow> u16" where
  "u16_from_le bs = u16_from_be (rev bs)"

definition u32_from_le :: "bytes \<Rightarrow> u32" where
  "u32_from_le bs = u32_from_be (rev bs)"

lemma length_u_to_le [simp]: "length (u16_to_le a) = 2" "length (u32_to_le b) = 4"
  by (simp_all add: u16_to_le_def u32_to_le_def)

lemma u_from_to_le [simp]: "u16_from_le (u16_to_le a) = a" "u32_from_le (u32_to_le b) = b"
  by (simp_all add: u16_to_le_def u32_to_le_def u16_from_le_def u32_from_le_def)

definition mv_from_u32 :: "u32 \<Rightarrow> bytes" where
  "mv_from_u32 v = u32_to_le v @ replicate 36 0"

definition mv_from_block_id :: "bytes \<Rightarrow> bytes" where
  "mv_from_block_id block = block @ replicate (40 - length block) 0"

definition mv_value_hash :: "bytes \<Rightarrow> bytes" where
  "mv_value_hash v = take 32 v"

definition key_path :: "(bytes \<Rightarrow> bytes) \<Rightarrow> bytes \<Rightarrow> bytes" where
  "key_path sha512_256 key = trie_hash_from_data sha512_256 key"

section \<open>Node kinds, pointers and errors\<close>

datatype trie_node_id = TnLeaf | TnNode4 | TnNode16 | TnNode48 | TnNode256

text \<open>Every failed storage read or write is \<open>MarfStorage\<close>, its message dropped. \<open>MarfPanic\<close> stands for a
  panic of the source: an index out of range, or an internal node with fewer than two children.\<close>

datatype marf_error = InvalidPath | InvalidPointerCount | InvalidBackPointer | UnknownVersion | VersionAlreadyExists
  | WriteInProgress | WriteNotBegun | HeightOverflow | MarfStorage | MarfPanic

definition node_id_byte :: "trie_node_id \<Rightarrow> byte" where
  "node_id_byte k = (case k of TnLeaf \<Rightarrow> 1 | TnNode4 \<Rightarrow> 2 | TnNode16 \<Rightarrow> 3 | TnNode48 \<Rightarrow> 4 | TnNode256 \<Rightarrow> 5)"

definition pointer_count :: "trie_node_id \<Rightarrow> nat" where
  "pointer_count k = (case k of TnLeaf \<Rightarrow> 0 | TnNode4 \<Rightarrow> 4 | TnNode16 \<Rightarrow> 16 | TnNode48 \<Rightarrow> 48 | TnNode256 \<Rightarrow> 256)"

definition node_id_from_byte :: "byte \<Rightarrow> marf_error + trie_node_id" where
  "node_id_from_byte b = (if b = 1 then Inr TnLeaf else if b = 2 then Inr TnNode4 else if b = 3 then Inr TnNode16
     else if b = 4 then Inr TnNode48 else if b = 5 then Inr TnNode256 else Inl InvalidPointerCount)"

record trie_pointer =
  ptr_id :: byte
  ptr_character :: byte
  ptr_referenced_block :: "bytes option"

section \<open>Hash preimages\<close>

definition pointer_bytes :: "trie_pointer \<Rightarrow> marf_error + bytes" where
  "pointer_bytes p = (case (and (ptr_id p) 0x80 \<noteq> 0, ptr_referenced_block p) of
       (True, Some block) \<Rightarrow> Inr ([and (ptr_id p) 0x8f, ptr_character p] @ block)
     | (False, None) \<Rightarrow> Inr ([and (ptr_id p) 0x8f, ptr_character p] @ replicate 32 0)
     | _ \<Rightarrow> Inl InvalidBackPointer)"

definition internal_node_hash ::
  "(bytes \<Rightarrow> bytes) \<Rightarrow> trie_node_id \<Rightarrow> trie_pointer list \<Rightarrow> bytes \<Rightarrow> bytes list \<Rightarrow> marf_error + bytes" where
  "internal_node_hash sha512_256 nid pointers path child_hashes =
     (if length path > 32 then Inl InvalidPath
      else if \<not> (length pointers = pointer_count nid \<and> length child_hashes = length pointers)
      then Inl InvalidPointerCount
      else bind_e (map_e pointer_bytes pointers) (\<lambda>ps. Inr (sha512_256
        ([node_id_byte nid] @ concat ps @ [word_of_nat (length path)] @ path @ concat child_hashes))))"

definition leaf_hash :: "(bytes \<Rightarrow> bytes) \<Rightarrow> bytes \<Rightarrow> bytes \<Rightarrow> marf_error + bytes" where
  "leaf_hash sha512_256 path v = (if length path > 32 then Inl InvalidPath
     else Inr (sha512_256 ([node_id_byte TnLeaf, word_of_nat (length path)] @ path @ v)))"

definition state_root :: "(bytes \<Rightarrow> bytes) \<Rightarrow> bytes \<Rightarrow> bytes list \<Rightarrow> bytes" where
  "state_root sha512_256 content ancestor_roots =
     (if ancestor_roots = [] then content else sha512_256 (content @ concat ancestor_roots))"

section \<open>Nodes\<close>

datatype trie_node = Leaf bytes bytes | Internal bytes "trie_child list"
and trie_child = TrieChild (tc_character: byte) (tc_referenced_block: "bytes option") (tc_target: child_target)
and child_target = Memory trie_node | Stored u32 u32 trie_node_id

definition child_local :: "byte \<Rightarrow> trie_node \<Rightarrow> trie_child" where
  "child_local character node = TrieChild character None (Memory node)"

text \<open>The panic for fewer than two children is \<open>MarfPanic\<close>.\<close>

definition node_id_for_children :: "nat \<Rightarrow> marf_error + trie_node_id" where
  "node_id_for_children n = (if n \<le> 1 then Inl MarfPanic else if n \<le> 4 then Inr TnNode4
     else if n \<le> 16 then Inr TnNode16 else if n \<le> 48 then Inr TnNode48 else Inr TnNode256)"

definition node_id :: "trie_node \<Rightarrow> marf_error + trie_node_id" where
  "node_id node = (case node of Leaf _ _ \<Rightarrow> Inr TnLeaf | Internal _ children \<Rightarrow> node_id_for_children (length children))"

definition child_kind :: "trie_child \<Rightarrow> marf_error + trie_node_id" where
  "child_kind child = (case tc_target child of Memory node \<Rightarrow> node_id node | Stored _ _ kind \<Rightarrow> Inr kind)"

text \<open>An unchanged child of a copied node becomes a back-pointer to the block that owns it.\<close>

definition refer_to :: "bytes \<Rightarrow> trie_child \<Rightarrow> trie_child" where
  "refer_to block child = TrieChild (tc_character child)
     (case tc_referenced_block child of None \<Rightarrow> Some block | Some b \<Rightarrow> Some b) (tc_target child)"

definition prepare_root_for_copy :: "bytes \<Rightarrow> trie_child list \<Rightarrow> trie_child list" where
  "prepare_root_for_copy block children = map (refer_to block) children"

definition prepare_for_copy :: "bytes \<Rightarrow> trie_node \<Rightarrow> trie_node" where
  "prepare_for_copy block node = (case node of Leaf path v \<Rightarrow> Leaf path v
     | Internal path children \<Rightarrow> Internal path (map (refer_to block) children))"

definition shared_prefix :: "bytes \<Rightarrow> bytes \<Rightarrow> nat" where
  "shared_prefix left right = length (takeWhile (\<lambda>(l, r). l = r) (zip left right))"

text \<open>The pointer slots of a node and the hash each contributes. Node256 indexes its slots by character, the
  smaller layouts pack theirs in insertion order.\<close>

definition child_pointer :: "trie_child \<Rightarrow> marf_error + trie_pointer" where
  "child_pointer child = bind_e (child_kind child) (\<lambda>kind. Inr
     \<lparr>ptr_id = or (node_id_byte kind) (if tc_referenced_block child \<noteq> None then 0x80 else 0),
      ptr_character = tc_character child, ptr_referenced_block = tc_referenced_block child\<rparr>)"

fun fill_slots ::
  "trie_node_id \<Rightarrow> nat \<Rightarrow> (trie_child \<times> bytes) list \<Rightarrow> trie_pointer list \<times> bytes list
    \<Rightarrow> marf_error + trie_pointer list \<times> bytes list" where
  "fill_slots nid n [] (pointers, hashes) = Inr (pointers, hashes)"
| "fill_slots nid n ((child, hash) # rest) (pointers, hashes) =
     (let index = (if nid = TnNode256 then unat (tc_character child) else n) in
      if index < length pointers then bind_e (child_pointer child) (\<lambda>pointer.
        fill_slots nid (Suc n) rest (pointers[index := pointer], hashes[index := hash]))
      else Inl MarfPanic)"

definition slots :: "trie_node_id \<Rightarrow> trie_child list \<Rightarrow> bytes list \<Rightarrow> marf_error + trie_pointer list \<times> bytes list" where
  "slots nid children hashes = fill_slots nid 0 (zip children hashes)
     (replicate (pointer_count nid) \<lparr>ptr_id = 0, ptr_character = 0, ptr_referenced_block = None\<rparr>,
      replicate (pointer_count nid) trie_hash_empty)"

definition hash_slots :: "(bytes \<Rightarrow> bytes) \<Rightarrow> trie_node_id \<Rightarrow> bytes \<Rightarrow> trie_child list \<Rightarrow> bytes list \<Rightarrow> marf_error + bytes" where
  "hash_slots sha512_256 nid path children hashes = bind_e (slots nid children hashes) (\<lambda>(pointers, child_hashes).
     internal_node_hash sha512_256 nid pointers path child_hashes)"

section \<open>Records\<close>

definition path_length :: "bytes \<Rightarrow> marf_error + byte" where
  "path_length path = (if length path < 256 then Inr (word_of_nat (length path)) else Inl InvalidPath)"

definition encode_child :: "trie_child \<Rightarrow> marf_error + bytes" where
  "encode_child child = (case tc_target child of
       Memory _ \<Rightarrow> Inl MarfStorage
     | Stored block index kind \<Rightarrow> Inr
         ([or (node_id_byte kind) (if tc_referenced_block child \<noteq> None then 0x80 else 0), tc_character child] @
          u32_to_le block @ u32_to_le index))"

definition encode_node :: "trie_node \<Rightarrow> marf_error + bytes" where
  "encode_node node = (case node of
       Leaf path v \<Rightarrow> bind_e (path_length path) (\<lambda>n. Inr ([0, n] @ path @ v))
     | Internal path children \<Rightarrow> bind_e (path_length path) (\<lambda>n.
         if length children < 2 ^ 16 then bind_e (map_e encode_child children) (\<lambda>cs.
           Inr ([1, n] @ path @ u16_to_le (word_of_nat (length children)) @ concat cs))
         else Inl MarfStorage))"

definition mr_take :: "nat \<Rightarrow> (marf_error, bytes) rdr" where
  "mr_take = take_r MarfStorage MarfStorage"

definition mr_byte :: "(marf_error, byte) rdr" where
  "mr_byte = byte_r mr_take"

definition mr_path :: "(marf_error, bytes) rdr" where
  "mr_path = bind_r mr_byte (\<lambda>n. bind_r (check_r (\<lambda>_. unat n \<le> 32) InvalidPath) (\<lambda>_. mr_take (unat n)))"

text \<open>One child of an internal record, decoded for the record's own block. The hash of a back-pointer's
  block is looked up by its id.\<close>

definition decode_child :: "(u32 \<Rightarrow> marf_error + bytes) \<Rightarrow> u32 \<Rightarrow> (marf_error, trie_child) rdr" where
  "decode_child block_hash block = bind_r mr_byte (\<lambda>flags. bind_r mr_byte (\<lambda>character.
     bind_r (mr_take 4) (\<lambda>target. bind_r (mr_take 4) (\<lambda>index.
     bind_r (lift_r (node_id_from_byte (and flags (not 0x80)))) (\<lambda>kind.
     bind_r (if and flags 0x80 = 0 then ret_r None
             else bind_r (lift_r (block_hash (u32_from_le target))) (\<lambda>h. ret_r (Some h))) (\<lambda>referenced.
     ret_r (TrieChild character referenced
       (Stored (if and flags 0x80 = 0 then block else u32_from_le target) (u32_from_le index) kind))))))))"

definition decode_record :: "(u32 \<Rightarrow> marf_error + bytes) \<Rightarrow> u32 \<Rightarrow> (marf_error, trie_node) rdr" where
  "decode_record block_hash block = bind_r mr_byte (\<lambda>kind. bind_r mr_path (\<lambda>path.
     if kind = 0 then bind_r (mr_take 40) (\<lambda>v. ret_r (Leaf path v))
     else bind_r (check_r (\<lambda>_. kind = 1) MarfStorage) (\<lambda>_. bind_r (mr_take 2) (\<lambda>count.
       bind_r (times_r (unat (u16_from_le count)) (decode_child block_hash block)) (\<lambda>children.
       ret_r (Internal path children))))))"

definition decode_node :: "(u32 \<Rightarrow> marf_error + bytes) \<Rightarrow> u32 \<Rightarrow> bytes \<Rightarrow> marf_error + trie_node" where
  "decode_node block_hash block bs = (case decode_record block_hash block (rd_new bs) of
       Inl e \<Rightarrow> Inl e | Inr (node, _) \<Rightarrow> Inr node)"

section \<open>Reading back a stored record\<close>

interpretation mr_slices: slice_reader mr_take
  unfolding mr_take_def by (rule slices.slice_reader_axioms)

interpretation mr_byte: wire_codec mr_byte "\<lambda>b. [b]" "\<lambda>_. True"
  unfolding mr_byte_def by (rule mr_slices.byte_codec)

interpretation mr_array: wire_codec "mr_take n" "\<lambda>x. x" "\<lambda>x. length x = n" for n
  by (rule mr_slices.array_codec)

lemma mr_byte_Cons [simp]:
  "length pre + length t < usize_max \<Longrightarrow> mr_byte (At pre (b # t)) = Inr (b, At (pre @ [b]) t)"
  using mr_byte.dec_enc_len [where a = b and pre = pre and t = t] by simp

lemma mr_path_append:
  assumes "length path \<le> 32" "length pre + length path + length t < usize_max"
  shows "mr_path (At pre (word_of_nat (length path) # path @ t)) =
    Inr (path, At (pre @ word_of_nat (length path) # path) t)"
proof -
  have "unat (word_of_nat (length path) :: byte) = length path" using assms(1) by (simp add: unat_of_nat)
  with assms show ?thesis
    using mr_array.dec_enc_len [where a = path and pre = "pre @ [word_of_nat (length path)]" and t = t]
    by (simp add: mr_path_def)
qed

text \<open>What a record of a block may hold: a child without a referenced block is a node of the same block, and
  the referenced block of any other child is the block of its target.\<close>

definition child_storable :: "(u32 \<Rightarrow> marf_error + bytes) \<Rightarrow> u32 \<Rightarrow> trie_child \<Rightarrow> bool" where
  "child_storable block_hash block child = (case tc_target child of Memory _ \<Rightarrow> False
     | Stored b _ _ \<Rightarrow> (case tc_referenced_block child of None \<Rightarrow> b = block | Some h \<Rightarrow> block_hash b = Inr h))"

definition node_storable :: "(u32 \<Rightarrow> marf_error + bytes) \<Rightarrow> u32 \<Rightarrow> trie_node \<Rightarrow> bool" where
  "node_storable block_hash block node = (case node of
       Leaf path v \<Rightarrow> length path \<le> 32 \<and> length v = 40
     | Internal path children \<Rightarrow> length path \<le> 32 \<and> length children \<le> 256 \<and>
         (\<forall>child \<in> set children. child_storable block_hash block child))"

definition child_record :: "trie_child \<Rightarrow> bytes" where
  "child_record child = (case encode_child child of Inl _ \<Rightarrow> [] | Inr bs \<Rightarrow> bs)"

lemma flags_back_pointer [simp]:
  "and (or (node_id_byte kind) 0x80) 0x80 \<noteq> 0" "and (node_id_byte kind) 0x80 = 0"
  "and (or (node_id_byte kind) 0x80) (- 129) = node_id_byte kind"
  "and (node_id_byte kind) (- 129) = node_id_byte kind"
  by (cases kind; simp add: node_id_byte_def)+

lemma node_id_from_byte [simp]: "node_id_from_byte (node_id_byte kind) = Inr kind"
  by (cases kind) (simp_all add: node_id_byte_def node_id_from_byte_def)

lemma encode_child_record: "child_storable block_hash block child \<Longrightarrow> encode_child child = Inr (child_record child)"
  by (auto simp: child_storable_def encode_child_def child_record_def split: child_target.splits)

lemma length_child_record: "child_storable block_hash block child \<Longrightarrow> length (child_record child) = 10"
  by (auto simp: child_storable_def encode_child_def child_record_def split: child_target.splits)

lemma length_child_records:
  "\<forall>child \<in> set children. child_storable block_hash block child \<Longrightarrow>
    length (concat (map child_record children)) = 10 * length children"
  by (induction children) (auto simp: length_child_record)

lemma decode_child_record:
  assumes "child_storable block_hash block child" "length pre + length (child_record child) + length t \<le> usize_max"
  shows "decode_child block_hash block (At pre (child_record child @ t)) = Inr (child, At (pre @ child_record child) t)"
proof -
  obtain c r b i k where child: "child = TrieChild c r (Stored b i k)"
    using assms(1) by (cases child) (auto simp: child_storable_def split: child_target.splits)
  have rec: "child_record child = [or (node_id_byte k) (if r \<noteq> None then 0x80 else 0), c] @ u32_to_le b @ u32_to_le i"
    by (simp add: child child_record_def encode_child_def)
  have four: "mr_take 4 (At pre' (u32_to_le x @ t')) = Inr (u32_to_le x, At (pre' @ u32_to_le x) t')"
    if "length pre' + 4 + length t' \<le> usize_max" for pre' x t'
    using that mr_array.dec_enc_len [where a = "u32_to_le x" and n = 4] by simp
  show ?thesis
    using assms unfolding rec
    by (cases r) (simp_all add: decode_child_def child four child_storable_def)
qed

lemma decode_encode_node:
  assumes "node_storable block_hash block node"
  shows "\<exists>bs. encode_node node = Inr bs \<and> decode_node block_hash block bs = Inr node"
proof (cases node)
  case (Leaf path v)
  with assms have len: "length path \<le> 32" "length v = 40" by (simp_all add: node_storable_def)
  then have "decode_node block_hash block ([0, word_of_nat (length path)] @ path @ v) = Inr (Leaf path v)"
    using mr_path_append [of path "[0]" v] mr_array.dec_enc_end [of v 40 "0 # word_of_nat (length path) # path"]
    by (simp add: decode_node_def decode_record_def rd_new_At usize_max_def)
  with len Leaf show ?thesis by (simp add: encode_node_def path_length_def)
next
  case (Internal path children)
  with assms have len: "length path \<le> 32" "length children \<le> 256"
    and ok: "\<forall>child \<in> set children. child_storable block_hash block child"
    by (simp_all add: node_storable_def)
  let ?n = "u16_to_le (word_of_nat (length children))" and ?cs = "concat (map child_record children)"
  have short: "length ?cs \<le> 2560"
    using len(2) length_child_records [OF ok] by simp
  have count: "unat (word_of_nat (length children) :: u16) = length children"
    using len(2) by (simp add: unat_of_nat)
  have enc: "map_e encode_child children = Inr (map child_record children)"
    using ok encode_child_record by (auto simp: map_e_Inr_iff list_all2_map2 list_all2_same)
  have path: "mr_path (At [1] (word_of_nat (length path) # path @ ?n @ ?cs)) =
      Inr (path, At (1 # word_of_nat (length path) # path) (?n @ ?cs))"
    using len(1) short mr_path_append [of path "[1]" "?n @ ?cs"] by (simp add: usize_max_def)
  have "mr_take 2 (At (1 # word_of_nat (length path) # path) (?n @ ?cs)) =
      Inr (?n, At (1 # word_of_nat (length path) # path @ ?n) ?cs)"
    using len(1) short mr_array.dec_enc_len [where a = ?n and n = 2] by (simp add: usize_max_def)
  moreover have "times_r (length children) (decode_child block_hash block)
      (At (1 # word_of_nat (length path) # path @ ?n) ?cs) =
      Inr (children, At (1 # word_of_nat (length path) # path @ ?n @ ?cs) [])"
    using times_r_forward [of children child_record "decode_child block_hash block" "\<lambda>x. x"
        "1 # word_of_nat (length path) # path @ ?n" "[]"] ok decode_child_record len(1) short
    by (simp add: usize_max_def)
  ultimately have "decode_node block_hash block ([1, word_of_nat (length path)] @ path @ ?n @ ?cs) = Inr (Internal path children)"
    using path count len(1) short by (simp add: decode_node_def decode_record_def rd_new_At usize_max_def)
  with enc len Internal show ?thesis by (simp add: encode_node_def path_length_def)
qed

end
