(* ===== verification/Marf_Trie.thy ===== *)
theory Marf_Trie
  imports Marf_Node
begin

text \<open>
  The trie of one state over the durable nodes of its ancestors: the two tables of the trie storage, the
  reads and writes on them, and insertion, lookup, hashing and persisting of the in-memory nodes. Each SQL
  statement of the source is the function on the tables it denotes. The caches, which hold copies of rows
  that are never rewritten, and failures of the database itself are not part of the model.
\<close>

section \<open>Storage\<close>

record block_record =
  br_id :: u32
  br_hash :: bytes
  br_parent :: "u32 option"
  br_height :: u32
  br_root :: bytes
  br_content :: bytes
  br_node :: "u32 option"
  br_jumps :: bytes

text \<open>The tables \<open>marf_block\<close> and \<open>marf_node\<close>, and the last id \<open>AUTOINCREMENT\<close> has given out.\<close>

record trie_storage =
  ts_blocks :: "block_record list"
  ts_nodes :: "u32 \<times> u32 \<rightharpoonup> bytes \<times> bytes"
  ts_sequence :: nat

definition storage_new :: trie_storage where
  "storage_new = \<lparr>ts_blocks = [], ts_nodes = Map.empty, ts_sequence = 0\<rparr>"

definition as_block_id :: "bytes \<Rightarrow> marf_error + bytes" where
  "as_block_id bs = (if length bs = 32 then Inr bs else Inl MarfStorage)"

definition storage_block :: "trie_storage \<Rightarrow> bytes \<Rightarrow> marf_error + block_record option" where
  "storage_block st hash = (case List.find (\<lambda>r. br_hash r = hash) (ts_blocks st) of
       None \<Rightarrow> Inr None
     | Some r \<Rightarrow> bind_e (as_block_id (br_root r)) (\<lambda>_. bind_e (as_block_id (br_content r)) (\<lambda>_. Inr (Some r))))"

definition storage_block_hash :: "trie_storage \<Rightarrow> u32 \<Rightarrow> marf_error + bytes" where
  "storage_block_hash st block = (case List.find (\<lambda>r. br_id r = block) (ts_blocks st) of
       None \<Rightarrow> Inl MarfStorage | Some r \<Rightarrow> as_block_id (br_hash r))"

text \<open>\<open>chunks(32)\<close>\<close>

function chunks32 :: "bytes \<Rightarrow> bytes list" where
  "chunks32 bs = (if bs = [] then [] else take 32 bs # chunks32 (drop 32 bs))"
  by pat_completeness auto
termination
  by (relation "measure length") (auto simp: length_greater_0_conv)

declare chunks32.simps [simp del]

definition storage_jumps :: "trie_storage \<Rightarrow> bytes \<Rightarrow> marf_error + bytes list" where
  "storage_jumps st hash = (case List.find (\<lambda>r. br_hash r = hash) (ts_blocks st) of
       None \<Rightarrow> Inl MarfStorage | Some r \<Rightarrow> map_e as_block_id (chunks32 (br_jumps r)))"

definition storage_node :: "trie_storage \<Rightarrow> u32 \<Rightarrow> u32 \<Rightarrow> marf_error + trie_node" where
  "storage_node st block index = (case ts_nodes st (block, index) of
       None \<Rightarrow> Inl MarfStorage | Some (_, data) \<Rightarrow> decode_node (storage_block_hash st) block data)"

definition storage_node_hash :: "trie_storage \<Rightarrow> u32 \<Rightarrow> u32 \<Rightarrow> marf_error + bytes" where
  "storage_node_hash st block index = (case ts_nodes st (block, index) of
       None \<Rightarrow> Inl MarfStorage | Some (hash, _) \<Rightarrow> as_block_id hash)"

text \<open>\<open>INSERT OR REPLACE INTO marf_node\<close>\<close>

definition insert_node :: "trie_storage \<Rightarrow> u32 \<Rightarrow> u32 \<Rightarrow> bytes \<Rightarrow> trie_node \<Rightarrow> marf_error + trie_storage" where
  "insert_node st block index hash node = bind_e (encode_node node) (\<lambda>data.
     Inr (st\<lparr>ts_nodes := (ts_nodes st)((block, index) \<mapsto> (hash, data))\<rparr>))"

text \<open>\<open>INSERT INTO marf_block\<close>, refused when the hash is already there, with the row's new id.\<close>

definition reserve_block ::
  "trie_storage \<Rightarrow> bytes \<Rightarrow> u32 option \<Rightarrow> u32 \<Rightarrow> bytes list \<Rightarrow> marf_error + u32 \<times> trie_storage" where
  "reserve_block st hash parent height jumps =
     (if hash \<in> br_hash ` set (ts_blocks st) then Inl MarfStorage
      else if Suc (ts_sequence st) < 2 ^ 32 then
        (let rowid = word_of_nat (Suc (ts_sequence st)) in
         Inr (rowid, st\<lparr>ts_blocks := ts_blocks st @ [\<lparr>br_id = rowid, br_hash = hash, br_parent = parent,
             br_height = height, br_root = replicate 32 0, br_content = replicate 32 0, br_node = None,
             br_jumps = concat jumps\<rparr>], ts_sequence := Suc (ts_sequence st)\<rparr>))
      else Inl MarfStorage)"

text \<open>\<open>UPDATE marf_block SET root, content, node WHERE id\<close>\<close>

definition complete_block :: "trie_storage \<Rightarrow> u32 \<Rightarrow> bytes \<Rightarrow> bytes \<Rightarrow> u32 option \<Rightarrow> trie_storage" where
  "complete_block st rowid root content node = st\<lparr>ts_blocks := map (\<lambda>r. if br_id r = rowid
     then r\<lparr>br_root := root, br_content := content, br_node := node\<rparr> else r) (ts_blocks st)\<rparr>"

text \<open>The rows above a height and their nodes are deleted; the number of deleted states is returned.\<close>

definition storage_discard_above :: "trie_storage \<Rightarrow> u32 \<Rightarrow> nat \<times> trie_storage" where
  "storage_discard_above st height =
     (let gone = br_id ` set (filter (\<lambda>r. height < br_height r) (ts_blocks st)) in
      (length (filter (\<lambda>r. height < br_height r) (ts_blocks st)),
       st\<lparr>ts_nodes := (\<lambda>k. if fst k \<in> gone then None else ts_nodes st k),
          ts_blocks := filter (\<lambda>r. \<not> height < br_height r) (ts_blocks st)\<rparr>))"

text \<open>\<open>ORDER BY height DESC, id DESC LIMIT 1\<close>\<close>

definition later_row :: "block_record \<Rightarrow> block_record \<Rightarrow> bool" where
  "later_row r s \<longleftrightarrow> br_height s < br_height r \<or> (br_height s = br_height r \<and> br_id s < br_id r)"

definition storage_tip :: "trie_storage \<Rightarrow> marf_error + bytes option" where
  "storage_tip st = (case ts_blocks st of [] \<Rightarrow> Inr None
     | r # rows \<Rightarrow> bind_e (as_block_id (br_hash (foldl (\<lambda>best s. if later_row s best then s else best) r rows)))
         (\<lambda>h. Inr (Some h)))"

section \<open>Children\<close>

definition child_node :: "trie_storage \<Rightarrow> trie_child \<Rightarrow> marf_error + trie_node" where
  "child_node st child = (case tc_target child of Memory node \<Rightarrow> Inr node
     | Stored block index _ \<Rightarrow> storage_node st block index)"

definition child_owned :: "trie_storage \<Rightarrow> trie_child \<Rightarrow> marf_error + trie_node" where
  "child_owned st child = (case tc_target child of
       Stored block index _ \<Rightarrow>
         bind_e (case tc_referenced_block child of Some b \<Rightarrow> Inr b | None \<Rightarrow> storage_block_hash st block) (\<lambda>owner.
         bind_e (storage_node st block index) (\<lambda>node. Inr (prepare_for_copy owner node)))
     | Memory node \<Rightarrow> Inr (case tc_referenced_block child of Some b \<Rightarrow> prepare_for_copy b node | None \<Rightarrow> node))"

text \<open>\<open>iter_mut().find(..)\<close> followed by an update of the element found.\<close>

primrec find_update :: "('a \<Rightarrow> bool) \<Rightarrow> ('a \<Rightarrow> 'e + 'a) \<Rightarrow> 'a list \<Rightarrow> ('e + 'a list) option" where
  "find_update P f [] = None"
| "find_update P f (x # xs) = (if P x then Some (bind_e (f x) (\<lambda>y. Inr (y # xs)))
     else map_option (\<lambda>r. bind_e r (\<lambda>ys. Inr (x # ys))) (find_update P f xs))"

section \<open>Lookup and insertion\<close>

definition strip_prefix :: "bytes \<Rightarrow> bytes \<Rightarrow> bytes option" where
  "strip_prefix prefix path = (if take (length prefix) path = prefix then Some (drop (length prefix) path) else None)"

lemma strip_prefix_Some: "strip_prefix p path = Some rest \<longleftrightarrow> path = p @ rest"
  by (auto simp: strip_prefix_def) (metis append_take_drop_id)

function trie_get :: "trie_storage \<Rightarrow> trie_node \<Rightarrow> bytes \<Rightarrow> marf_error + bytes option" where
  "trie_get st (Leaf leaf_path v) path = Inr (if leaf_path = path then Some v else None)"
| "trie_get st (Internal node_path children) path = (case strip_prefix node_path path of
       None \<Rightarrow> Inr None
     | Some [] \<Rightarrow> Inr None
     | Some (character # remaining) \<Rightarrow>
         (case List.find (\<lambda>child. tc_character child = character) children of
            None \<Rightarrow> Inr None
          | Some child \<Rightarrow> bind_e (child_node st child) (\<lambda>node. trie_get st node remaining)))"
  by pat_completeness auto
termination
  by (relation "measure (\<lambda>(st, node, path). length path)") (auto simp: strip_prefix_Some)

function trie_insert :: "trie_storage \<Rightarrow> trie_node \<Rightarrow> bytes \<Rightarrow> bytes \<Rightarrow> marf_error + trie_node" where
  "trie_insert st (Leaf leaf_path w) path v =
     (if leaf_path = path then Inr (Leaf leaf_path v)
      else let shared = shared_prefix leaf_path path in
        if shared < length leaf_path \<and> shared < length path then
          Inr (Internal (take shared leaf_path)
            [child_local (leaf_path ! shared) (Leaf (drop (shared + 1) leaf_path) w),
             child_local (path ! shared) (Leaf (drop (shared + 1) path) v)])
        else Inl MarfPanic)"
| "trie_insert st (Internal node_path children) path v =
     (let shared = shared_prefix node_path path in
      if shared < length node_path then
        (if shared < length path then
           Inr (Internal (take shared node_path)
             [child_local (path ! shared) (Leaf (drop (shared + 1) path) v),
              child_local (node_path ! shared) (Internal (drop (shared + 1) node_path) children)])
         else Inl MarfPanic)
      else if length node_path < length path then
        (let character = path ! length node_path; suffix = drop (length node_path + 1) path in
         case find_update (\<lambda>child. tc_character child = character)
             (\<lambda>child. bind_e (child_owned st child) (\<lambda>node. bind_e (trie_insert st node suffix v) (\<lambda>node'.
               Inr (TrieChild (tc_character child) None (Memory node'))))) children of
           None \<Rightarrow> Inr (Internal node_path (children @ [child_local character (Leaf suffix v)]))
         | Some r \<Rightarrow> bind_e r (\<lambda>children'. Inr (Internal node_path children')))
      else Inl MarfPanic)"
  by pat_completeness auto
termination
  by (relation "measure (\<lambda>(st, node, path, v). length path)") auto

declare trie_insert.simps [simp del]

definition child_insert :: "trie_storage \<Rightarrow> trie_child \<Rightarrow> bytes \<Rightarrow> bytes \<Rightarrow> marf_error + trie_child" where
  "child_insert st child path v = bind_e (child_owned st child) (\<lambda>node. bind_e (trie_insert st node path v) (\<lambda>node'.
     Inr (TrieChild (tc_character child) None (Memory node'))))"

definition insert_under_root ::
  "trie_storage \<Rightarrow> trie_child list \<Rightarrow> bytes \<Rightarrow> bytes \<Rightarrow> marf_error + trie_child list" where
  "insert_under_root st root_children path v =
     (case find_update (\<lambda>child. tc_character child = path ! 0) (\<lambda>child. child_insert st child (tl path) v) root_children of
        None \<Rightarrow> Inr (root_children @ [child_local (path ! 0) (Leaf (tl path) v)])
      | Some r \<Rightarrow> r)"

definition find_path :: "trie_storage \<Rightarrow> trie_child list \<Rightarrow> bytes \<Rightarrow> marf_error + bytes option" where
  "find_path st root_children path =
     (case List.find (\<lambda>child. tc_character child = path ! 0) root_children of
        None \<Rightarrow> Inr None
      | Some child \<Rightarrow> bind_e (child_node st child) (\<lambda>node. trie_get st node (tl path)))"

section \<open>Hashing\<close>

lemma map_e_cong [fundef_cong]: "xs = ys \<Longrightarrow> (\<And>x. x \<in> set ys \<Longrightarrow> f x = g x) \<Longrightarrow> map_e f xs = map_e g ys"
  by (induction xs arbitrary: ys) auto

fun trie_hash :: "(bytes \<Rightarrow> bytes) \<Rightarrow> trie_storage \<Rightarrow> trie_node \<Rightarrow> marf_error + bytes"
and child_hash :: "(bytes \<Rightarrow> bytes) \<Rightarrow> trie_storage \<Rightarrow> trie_child \<Rightarrow> marf_error + bytes" where
  "trie_hash h st (Leaf path v) = leaf_hash h path v"
| "trie_hash h st (Internal path children) = bind_e (node_id_for_children (length children)) (\<lambda>kind.
     bind_e (map_e (child_hash h st) children) (\<lambda>hashes. hash_slots h kind path children hashes))"
| "child_hash h st (TrieChild c (Some block) target) = Inr block"
| "child_hash h st (TrieChild c None (Memory node)) = trie_hash h st node"
| "child_hash h st (TrieChild c None (Stored block index kind)) = storage_node_hash st block index"

definition hash_children ::
  "(bytes \<Rightarrow> bytes) \<Rightarrow> trie_storage \<Rightarrow> trie_node_id \<Rightarrow> bytes \<Rightarrow> trie_child list \<Rightarrow> marf_error + bytes" where
  "hash_children h st kind path children =
     bind_e (map_e (child_hash h st) children) (\<lambda>hashes. hash_slots h kind path children hashes)"

section \<open>Persisting\<close>

definition write_node ::
  "trie_storage \<Rightarrow> u32 \<Rightarrow> u32 \<Rightarrow> bytes \<Rightarrow> trie_node \<Rightarrow> marf_error + trie_storage \<times> u32 \<times> u32" where
  "write_node st block index hash node = (case checked_add index 1 of
       None \<Rightarrow> Inl HeightOverflow
     | Some index' \<Rightarrow> bind_e (insert_node st block index hash node) (\<lambda>st'. Inr (st', index', index)))"

fun persist_node ::
  "(bytes \<Rightarrow> bytes) \<Rightarrow> u32 \<Rightarrow> trie_storage \<Rightarrow> u32 \<Rightarrow> trie_node
    \<Rightarrow> marf_error + trie_storage \<times> u32 \<times> u32 \<times> bytes \<times> trie_node_id"
and persist_children ::
  "(bytes \<Rightarrow> bytes) \<Rightarrow> u32 \<Rightarrow> trie_storage \<Rightarrow> u32 \<Rightarrow> trie_child list
    \<Rightarrow> marf_error + trie_storage \<times> u32 \<times> trie_child list \<times> bytes list" where
  "persist_node h block st next (Leaf path v) = bind_e (leaf_hash h path v) (\<lambda>hash.
     bind_e (write_node st block next hash (Leaf path v)) (\<lambda>(st', next', index).
     Inr (st', next', index, hash, TnLeaf)))"
| "persist_node h block st next (Internal path children) =
     bind_e (persist_children h block st next children) (\<lambda>(st', next', children', hashes).
     bind_e (node_id_for_children (length children')) (\<lambda>kind.
     bind_e (hash_slots h kind path children' hashes) (\<lambda>hash.
     bind_e (write_node st' block next' hash (Internal path children')) (\<lambda>(st'', next'', index).
     Inr (st'', next'', index, hash, kind)))))"
| "persist_children h block st next [] = Inr (st, next, [], [])"
| "persist_children h block st next (TrieChild c referenced (Memory node) # children) =
     (if referenced \<noteq> None then Inl InvalidBackPointer
      else bind_e (persist_node h block st next node) (\<lambda>(st', next', index, hash, kind).
      bind_e (persist_children h block st' next' children) (\<lambda>(st'', next'', children', hashes).
      Inr (st'', next'', TrieChild c None (Stored block index kind) # children', hash # hashes))))"
| "persist_children h block st next (TrieChild c referenced (Stored owner index kind) # children) =
     bind_e (case referenced of Some b \<Rightarrow> Inr b | None \<Rightarrow> storage_node_hash st owner index) (\<lambda>hash.
     bind_e (persist_children h block st next children) (\<lambda>(st', next', children', hashes).
     Inr (st', next', TrieChild c referenced (Stored owner index kind) # children', hash # hashes)))"

definition persist_root ::
  "(bytes \<Rightarrow> bytes) \<Rightarrow> u32 \<Rightarrow> trie_storage \<Rightarrow> u32 \<Rightarrow> trie_child list
    \<Rightarrow> marf_error + trie_storage \<times> u32 \<times> bytes" where
  "persist_root h block st next root_children =
     bind_e (persist_children h block st next root_children) (\<lambda>(st', next', children, hashes).
     bind_e (hash_slots h TnNode256 [] children hashes) (\<lambda>hash.
     bind_e (write_node st' block next' hash (Internal [] children)) (\<lambda>(st'', _, index).
     Inr (st'', index, hash))))"

section \<open>Well-formed tries\<close>

text \<open>A node at \<open>n\<close> bytes from the end of its paths: a leaf holds the rest of its path, an internal node at
  least two children with distinct characters whose nodes can be read and have the kind their pointers say.\<close>

function node_ok :: "trie_storage \<Rightarrow> nat \<Rightarrow> trie_node \<Rightarrow> bool" where
  "node_ok st n (Leaf path v) \<longleftrightarrow> length path = n \<and> length v = 40"
| "node_ok st n (Internal path children) \<longleftrightarrow> (if length path < n then
     2 \<le> length children \<and> distinct (map tc_character children) \<and>
     (\<forall>child \<in> set children. \<exists>node. child_node st child = Inr node \<and> child_kind child = node_id node \<and>
        node_ok st (n - length path - 1) node) else False)"
  by pat_completeness auto
termination
  by (relation "measure (\<lambda>(st, n, node). n)") auto

declare node_ok.simps(2) [simp del]

definition child_ok :: "trie_storage \<Rightarrow> nat \<Rightarrow> trie_child \<Rightarrow> bool" where
  "child_ok st n child \<longleftrightarrow> (\<exists>node. child_node st child = Inr node \<and> child_kind child = node_id node \<and> node_ok st n node)"

definition children_ok :: "trie_storage \<Rightarrow> nat \<Rightarrow> trie_child list \<Rightarrow> bool" where
  "children_ok st n children \<longleftrightarrow> distinct (map tc_character children) \<and> (\<forall>child \<in> set children. child_ok st n child)"

lemma node_ok_Internal:
  "node_ok st n (Internal path children) \<longleftrightarrow>
     length path < n \<and> 2 \<le> length children \<and> children_ok st (n - length path - 1) children"
  by (auto simp: node_ok.simps(2) children_ok_def child_ok_def)

lemma child_ok_local: "node_ok st n node \<Longrightarrow> child_ok st n (child_local c node)"
  by (simp add: child_ok_def child_local_def child_node_def child_kind_def)

lemma child_ok_memory: "node_ok st n node \<Longrightarrow> child_ok st n (TrieChild c r (Memory node))"
  by (simp add: child_ok_def child_node_def child_kind_def)

text \<open>Lookup through a list of children.\<close>

definition get_under :: "trie_storage \<Rightarrow> trie_child list \<Rightarrow> byte \<Rightarrow> bytes \<Rightarrow> marf_error + bytes option" where
  "get_under st children c rest = (case List.find (\<lambda>child. tc_character child = c) children of
       None \<Rightarrow> Inr None | Some child \<Rightarrow> bind_e (child_node st child) (\<lambda>node. trie_get st node rest))"

lemma trie_get_Internal:
  "trie_get st (Internal p children) (p @ c # rest) = get_under st children c rest"
  by (simp add: trie_get.simps(2) get_under_def strip_prefix_def)

lemma trie_get_off_path:
  "take (length p) path \<noteq> p \<Longrightarrow> trie_get st (Internal p children) path = Inr None"
  by (simp add: trie_get.simps(2) strip_prefix_def)

declare trie_get.simps(2) [simp del]

lemma trie_get_total: "node_ok st n node \<Longrightarrow> length path = n \<Longrightarrow> \<exists>r. trie_get st node path = Inr r"
proof (induction n arbitrary: node path rule: less_induct)
  case (less n)
  show ?case
  proof (cases node)
    case (Internal p children)
    show ?thesis
    proof (cases "take (length p) path = p")
      case True
      with less.prems Internal obtain c rest where path: "path = p @ c # rest"
        by (auto simp: node_ok_Internal) (metis append_take_drop_id drop_eq_Nil2 neq_Nil_conv not_less)
      show ?thesis
      proof (cases "List.find (\<lambda>child. tc_character child = c) children")
        case (Some child)
        then have "child \<in> set children" by (auto simp: find_Some_iff)
        with less.prems(1) Internal obtain m where
          "child_node st child = Inr m" "node_ok st (n - length p - 1) m" "length p < n"
          by (auto simp: node_ok_Internal children_ok_def child_ok_def)
        moreover have "length rest = n - length p - 1" using less.prems(2) path by simp
        ultimately show ?thesis
          using less.IH [of "n - length p - 1" m rest] Some by (simp add: Internal path trie_get_Internal get_under_def)
      qed (simp add: Internal path trie_get_Internal get_under_def)
    qed (simp add: Internal trie_get_off_path)
  qed simp
qed

lemma refer_to_simps [simp]:
  "tc_character (refer_to b child) = tc_character child" "tc_target (refer_to b child) = tc_target child"
  "child_node st (refer_to b child) = child_node st child" "child_kind (refer_to b child) = child_kind child"
  by (simp_all add: refer_to_def child_node_def child_kind_def)

lemma children_ok_refer_to [simp]: "children_ok st n (map (refer_to b) children) = children_ok st n children"
  by (simp add: children_ok_def child_ok_def comp_def)

lemma get_under_refer_to [simp]: "get_under st (map (refer_to b) children) c rest = get_under st children c rest"
  by (induction children) (auto simp: get_under_def)

lemma node_ok_prepare [simp]: "node_ok st n (prepare_for_copy b node) = node_ok st n node"
  by (cases node) (simp_all add: prepare_for_copy_def node_ok_Internal)

lemma trie_get_prepare [simp]: "trie_get st (prepare_for_copy b node) path = trie_get st node path"
proof (cases node)
  case (Internal p children)
  then show ?thesis
    by (auto simp: prepare_for_copy_def trie_get.simps(2) get_under_def [symmetric] split: option.splits list.splits)
qed (simp add: prepare_for_copy_def)

section \<open>Tries under construction\<close>

text \<open>In the trie being written, a node in memory belongs to the new state, and a stored child is a
  back-pointer that names the block of its target.\<close>

fun active_node :: "trie_storage \<Rightarrow> trie_node \<Rightarrow> bool"
and active_child :: "trie_storage \<Rightarrow> trie_child \<Rightarrow> bool" where
  "active_node st (Leaf path v) \<longleftrightarrow> True"
| "active_node st (Internal path children) \<longleftrightarrow> list_all (active_child st) children"
| "active_child st (TrieChild c referenced (Memory node)) \<longleftrightarrow> referenced = None \<and> active_node st node"
| "active_child st (TrieChild c referenced (Stored block index kind)) \<longleftrightarrow>
     (\<exists>h. referenced = Some h \<and> storage_block_hash st block = Inr h)"

lemma active_child_local [simp]: "active_child st (child_local c node) = active_node st node"
  by (simp add: child_local_def)

lemma times_r_all:
  "(\<And>r a r'. p r = Inr (a, r') \<Longrightarrow> P a) \<Longrightarrow> times_r n p r = Inr (as, r') \<Longrightarrow> \<forall>a \<in> set as. P a"
  by (induction n arbitrary: r as) auto

lemma storage_node_children:
  assumes "storage_node st b i = Inr (Internal p children)"
  shows "\<forall>child \<in> set children. child_storable (storage_block_hash st) b child"
proof -
  have "child_storable (storage_block_hash st) b child"
    if "decode_child (storage_block_hash st) b r = Inr (child, r')" for r child r'
    using that by (auto simp: decode_child_def child_storable_def split: if_splits)
  then have "\<forall>child \<in> set as. child_storable (storage_block_hash st) b child"
    if "times_r n (decode_child (storage_block_hash st) b) r = Inr (as, r')" for n r as r'
    using times_r_all that by blast
  with assms show ?thesis
    by (auto simp: storage_node_def decode_node_def decode_record_def split: option.splits sum.splits if_splits)
qed

lemma active_prepare_stored:
  assumes "storage_node st b i = Inr node" "storage_block_hash st b = Inr owner"
  shows "active_node st (prepare_for_copy owner node)"
proof (cases node)
  case (Internal p children)
  have "active_child st (refer_to owner child)" if "child_storable (storage_block_hash st) b child" for child
    using that assms(2) by (cases child) (auto simp: child_storable_def refer_to_def split: child_target.splits option.splits)
  with storage_node_children assms(1) Internal show ?thesis
    by (auto simp: prepare_for_copy_def list_all_iff)
qed (simp add: prepare_for_copy_def)

text \<open>Taking a child over for writing reads its node with the same content.\<close>

lemma child_owned_ok:
  assumes "child_ok st n child" "active_child st child"
  obtains node node' where "child_node st child = Inr node" "child_owned st child = Inr node'"
    "node_ok st n node'" "active_node st node'" "\<And>path. trie_get st node' path = trie_get st node path"
proof -
  obtain node where node: "child_node st child = Inr node" "node_ok st n node"
    using assms(1) by (auto simp: child_ok_def)
  obtain c r t where child: "child = TrieChild c r t" by (cases child)
  show ?thesis
  proof (cases t)
    case (Memory m)
    with node assms(2) child show ?thesis
      by (intro that [of node m]) (auto simp: child_node_def child_owned_def)
  next
    case (Stored b i k)
    with node assms(2) child obtain h where "r = Some h" "storage_block_hash st b = Inr h" "storage_node st b i = Inr node"
      by (auto simp: child_node_def)
    with node Stored child active_prepare_stored show ?thesis
      by (intro that [of node "prepare_for_copy h node"]) (auto simp: child_owned_def)
  qed
qed

section \<open>Insertion\<close>

lemma shared_prefix_Cons:
  "shared_prefix (a # l) (b # r) = (if a = b then Suc (shared_prefix l r) else 0)"
  "shared_prefix [] r = 0" "shared_prefix l [] = 0"
  by (simp_all add: shared_prefix_def)

text \<open>Two paths part after their shared prefix.\<close>

lemma shared_prefix_split:
  obtains "shared_prefix l r = length l" "take (length l) r = l"
  | "shared_prefix l r = length r" "take (length r) l = r"
  | p a b l' r' where "l = p @ a # l'" "r = p @ b # r'" "a \<noteq> b" "shared_prefix l r = length p"
proof (induction l arbitrary: r thesis)
  case (Cons a l)
  show ?case
  proof (cases r)
    case (Cons b r')
    show ?thesis
    proof (cases "a = b")
      case True
      show ?thesis
      proof (rule Cons.IH [of r'])
        assume "shared_prefix l r' = length l" "take (length l) r' = l"
        with Cons.prems(1) \<open>r = b # r'\<close> True show thesis by (simp add: shared_prefix_Cons)
      next
        assume "shared_prefix l r' = length r'" "take (length r') l = r'"
        with Cons.prems(2) \<open>r = b # r'\<close> True show thesis by (simp add: shared_prefix_Cons)
      next
        fix p x y l2 r2
        assume "l = p @ x # l2" "r' = p @ y # r2" "x \<noteq> y" "shared_prefix l r' = length p"
        with Cons.prems(3) [of "a # p" x l2 y r2] \<open>r = b # r'\<close> True show thesis by (simp add: shared_prefix_Cons)
      qed
    qed (use Cons.prems(3) [of "[]" a l b r'] \<open>r = b # r'\<close> in \<open>simp add: shared_prefix_Cons\<close>)
  qed (use Cons.prems(2) in \<open>simp add: shared_prefix_Cons\<close>)
qed (simp add: shared_prefix_Cons)

lemma find_update_None: "find_update P f xs = None \<longleftrightarrow> (\<forall>x \<in> set xs. \<not> P x)"
  by (induction xs) auto

lemma find_update_Some:
  assumes "find_update P f xs = Some r"
  obtains ys x zs where "xs = ys @ x # zs" "P x" "\<forall>y \<in> set ys. \<not> P y" "r = bind_e (f x) (\<lambda>y. Inr (ys @ y # zs))"
  using assms
proof (induction xs arbitrary: r thesis)
  case (Cons a xs)
  show ?case
  proof (cases "P a")
    case False
    then obtain r' where r': "find_update P f xs = Some r'" "r = bind_e r' (\<lambda>ys. Inr (a # ys))"
      using Cons.prems(2) by auto
    from Cons.IH [OF _ r'(1)] obtain ys x zs where "xs = ys @ x # zs" "P x" "\<forall>y \<in> set ys. \<not> P y"
      "r' = bind_e (f x) (\<lambda>y. Inr (ys @ y # zs))" by blast
    with False r'(2) show ?thesis
      by (intro Cons.prems(1) [of "a # ys" x zs]) (auto simp: bind_e_def split: sum.splits)
  qed (use Cons.prems in \<open>auto intro!: Cons.prems(1) [of "[]" a xs]\<close>)
qed simp

lemma find_append_first: "\<forall>y \<in> set ys. \<not> P y \<Longrightarrow> P x \<Longrightarrow> List.find P (ys @ x # zs) = Some x"
  by (induction ys) auto

lemma get_under_other:
  assumes "tc_character y = tc_character x" "c \<noteq> tc_character x"
  shows "get_under st (ys @ y # zs) c rest = get_under st (ys @ x # zs) c rest"
  using assms by (induction ys) (auto simp: get_under_def)

lemma get_under_append_new:
  "get_under st (children @ [child]) c rest = (if \<exists>x \<in> set children. tc_character x = c
     then get_under st children c rest else get_under st [child] c rest)"
  by (induction children) (auto simp: get_under_def)

lemma get_under_new:
  "get_under st [child_local c (Leaf suffix v)] d rest = Inr (if d = c \<and> rest = suffix then Some v else None)"
  by (auto simp: get_under_def child_local_def child_node_def)

lemma get_under_absent: "\<forall>x \<in> set children. tc_character x \<noteq> c \<Longrightarrow> get_under st children c rest = Inr None"
  by (induction children) (auto simp: get_under_def)

text \<open>What an insertion must do to the lookups of paths of one length.\<close>

definition updates :: "nat \<Rightarrow> bytes \<Rightarrow> bytes \<Rightarrow> (bytes \<Rightarrow> marf_error + bytes option) \<Rightarrow> (bytes \<Rightarrow> marf_error + bytes option) \<Rightarrow> bool" where
  "updates n path v get get' \<longleftrightarrow> (\<forall>q. length q = n \<longrightarrow> get' q = (if q = path then Inr (Some v) else get q))"

lemma path_cases:
  assumes "length p < length q"
  obtains "take (length p) q \<noteq> p" | c rest where "q = p @ c # rest"
proof (cases "take (length p) q = p")
  case True
  with assms that(2) show ?thesis by (metis append_take_drop_id drop_eq_Nil2 neq_Nil_conv not_less)
qed (use that(1) in blast)

lemma trie_insert_leaf:
  assumes "length p = n" "length path = n" "length w = 40" "length v = 40"
  shows "\<exists>node'. trie_insert st (Leaf p w) path v = Inr node' \<and> node_ok st n node' \<and> active_node st node' \<and>
    updates n path v (trie_get st (Leaf p w)) (trie_get st node')"
proof (cases "p = path")
  case True
  with assms show ?thesis by (simp add: trie_insert.simps(1) updates_def)
next
  case False
  obtain x a b l r where part: "p = x @ a # l" "path = x @ b # r" "a \<noteq> b" "shared_prefix p path = length x"
    by (rule shared_prefix_split [of p path]) (use False assms in auto)
  let ?node = "Internal x [child_local a (Leaf l w), child_local b (Leaf r v)]"
  have "trie_insert st (Leaf p w) path v = Inr ?node"
    using part by (simp add: trie_insert.simps(1) Let_def)
  moreover have "node_ok st n ?node"
    using part assms by (auto simp: node_ok_Internal children_ok_def child_local_def [symmetric] intro!: child_ok_local)
      (simp_all add: child_local_def)
  moreover have "trie_get st ?node q = (if q = path then Inr (Some v) else trie_get st (Leaf p w) q)" if "length q = n" for q
  proof -
    have "length x < length q" using that part assms by simp
    then show ?thesis
    proof (cases rule: path_cases)
      case 1
      then show ?thesis by (auto simp: trie_get_off_path part)
    next
      case (2 c rest)
      then show ?thesis using part(3) by (auto simp: part(1,2) trie_get_Internal get_under_def child_local_def child_node_def)
    qed
  qed
  ultimately show ?thesis by (auto simp: updates_def)
qed

lemma trie_insert_splice:
  assumes ok: "node_ok st n (Internal p children)" "active_node st (Internal p children)" "length path = n" "length v = 40"
    and part: "p = x @ a # l" "path = x @ b # r" "a \<noteq> b" "shared_prefix p path = length x"
  shows "\<exists>node'. trie_insert st (Internal p children) path v = Inr node' \<and> node_ok st n node' \<and> active_node st node' \<and>
    updates n path v (trie_get st (Internal p children)) (trie_get st node')"
proof -
  let ?node = "Internal x [child_local b (Leaf r v), child_local a (Internal l children)]"
  have "trie_insert st (Internal p children) path v = Inr ?node"
    using part by (simp add: trie_insert.simps(2) Let_def)
  moreover have "node_ok st n ?node"
    using part ok(1,3,4) by (auto simp: node_ok_Internal children_ok_def intro!: child_ok_local)
      (simp_all add: child_local_def)
  moreover have "trie_get st ?node q = (if q = path then Inr (Some v) else trie_get st (Internal p children) q)"
    if "length q = n" for q
  proof -
    have "length x < length q" using that part ok(3) by simp
    then show ?thesis
    proof (cases rule: path_cases)
      case 1
      then have "take (length p) q \<noteq> p"
        unfolding part(1) by (metis append_eq_conv_conj append_take_drop_id append.assoc)
      with 1 show ?thesis by (auto simp: trie_get_off_path part(2))
    next
      case (2 c rest)
      show ?thesis
      proof (cases "c = a")
        case True
        then show ?thesis
          using part(3) by (simp add: 2 part(1,2) trie_get_Internal get_under_def child_local_def child_node_def
              trie_get.simps(2) strip_prefix_def)
      next
        case False
        then have "take (length p) q \<noteq> p" by (simp add: 2 part(1))
        with False show ?thesis
          by (auto simp: 2 part(2) trie_get_Internal get_under_def child_local_def child_node_def trie_get_off_path)
      qed
    qed
  qed
  ultimately show ?thesis using ok(2) by (auto simp: updates_def)
qed

text \<open>Insertion below a list of children, as the root and every internal node do it.\<close>

definition insert_children ::
  "trie_storage \<Rightarrow> trie_child list \<Rightarrow> byte \<Rightarrow> bytes \<Rightarrow> bytes \<Rightarrow> marf_error + trie_child list" where
  "insert_children st children c suffix v =
     (case find_update (\<lambda>child. tc_character child = c) (\<lambda>child. child_insert st child suffix v) children of
        None \<Rightarrow> Inr (children @ [child_local c (Leaf suffix v)]) | Some r \<Rightarrow> r)"

lemma insert_children_ok:
  assumes ok: "children_ok st n children" "list_all (active_child st) children" "length suffix = n" "length v = 40"
    and node: "\<And>node. node_ok st n node \<Longrightarrow> active_node st node \<Longrightarrow>
      \<exists>node'. trie_insert st node suffix v = Inr node' \<and> node_ok st n node' \<and> active_node st node' \<and>
        updates n suffix v (trie_get st node) (trie_get st node')"
  shows "\<exists>children'. insert_children st children c suffix v = Inr children' \<and> children_ok st n children' \<and>
    list_all (active_child st) children' \<and> length children \<le> length children' \<and>
    (\<forall>d rest. length rest = n \<longrightarrow> get_under st children' d rest =
       (if d = c \<and> rest = suffix then Inr (Some v) else get_under st children d rest))"
proof (cases "find_update (\<lambda>child. tc_character child = c) (\<lambda>child. child_insert st child suffix v) children")
  case None
  then have absent: "\<forall>x \<in> set children. tc_character x \<noteq> c" by (simp add: find_update_None)
  let ?new = "child_local c (Leaf suffix v)"
  have "children_ok st n (children @ [?new])"
    using ok absent by (auto simp: children_ok_def child_local_def child_ok_memory)
  moreover have "get_under st (children @ [?new]) d rest =
      (if d = c \<and> rest = suffix then Inr (Some v) else get_under st children d rest)" for d rest
    using absent get_under_absent [OF absent]
    by (auto simp: get_under_append_new get_under_new get_under_absent)
  ultimately show ?thesis using None ok(2) by (auto simp: insert_children_def)
next
  case (Some r)
  then obtain ys x zs where split: "children = ys @ x # zs" "tc_character x = c" "\<forall>y \<in> set ys. tc_character y \<noteq> c"
      "r = bind_e (child_insert st x suffix v) (\<lambda>y. Inr (ys @ y # zs))"
    by (rule find_update_Some)
  with ok have "child_ok st n x" "active_child st x" by (auto simp: children_ok_def)
  then obtain m m' where m: "child_node st x = Inr m" "child_owned st x = Inr m'" "node_ok st n m'" "active_node st m'"
      "\<And>path. trie_get st m' path = trie_get st m path"
    by (rule child_owned_ok) blast
  from node [OF m(3,4)] obtain node' where node': "trie_insert st m' suffix v = Inr node'" "node_ok st n node'"
      "active_node st node'" "updates n suffix v (trie_get st m') (trie_get st node')" by blast
  let ?y = "TrieChild c None (Memory node')"
  have "insert_children st children c suffix v = Inr (ys @ ?y # zs)"
    using Some split m(2) node'(1) by (simp add: insert_children_def child_insert_def)
  moreover have "children_ok st n (ys @ ?y # zs)"
    using ok(1) split node'(2) by (auto simp: children_ok_def child_ok_memory)
  moreover have "list_all (active_child st) (ys @ ?y # zs)" using ok(2) split(1) node'(3) by simp
  moreover have "get_under st (ys @ ?y # zs) d rest =
      (if d = c \<and> rest = suffix then Inr (Some v) else get_under st children d rest)" if "length rest = n" for d rest
  proof (cases "d = c")
    case True
    have "List.find (\<lambda>child. tc_character child = c) (ys @ ?y # zs) = Some ?y"
      "List.find (\<lambda>child. tc_character child = c) children = Some x"
      using split by (auto intro!: find_append_first)
    with True that m(1,5) node'(4) show ?thesis by (simp add: get_under_def child_node_def updates_def)
  next
    case False
    then show ?thesis using split get_under_other [of ?y x d st ys zs rest] by simp
  qed
  ultimately show ?thesis using split(1) by auto
qed

lemma trie_insert_below:
  assumes "shared_prefix p (p @ c # suffix) = length p"
  shows "trie_insert st (Internal p children) (p @ c # suffix) v =
    bind_e (insert_children st children c suffix v) (\<lambda>children'. Inr (Internal p children'))"
  using assms by (simp add: trie_insert.simps(2) Let_def insert_children_def child_insert_def split: option.split)

lemma trie_insert_ok:
  assumes "node_ok st n node" "active_node st node" "length path = n" "length v = 40"
  shows "\<exists>node'. trie_insert st node path v = Inr node' \<and> node_ok st n node' \<and> active_node st node' \<and>
    updates n path v (trie_get st node) (trie_get st node')"
  using assms
proof (induction n arbitrary: node path rule: less_induct)
  case (less n)
  show ?case
  proof (cases node)
    case (Leaf p w)
    show ?thesis unfolding Leaf by (rule trie_insert_leaf) (use less.prems Leaf in simp_all)
  next
    case (Internal p children)
    then have ok: "length p < n" "2 \<le> length children" "children_ok st (n - length p - 1) children"
        "list_all (active_child st) children"
      using less.prems(1,2) by (simp_all add: node_ok_Internal)
    show ?thesis
    proof (rule shared_prefix_split [of p path])
      fix x a b l r
      assume "p = x @ a # l" "path = x @ b # r" "a \<noteq> b" "shared_prefix p path = length x"
      then show ?thesis using trie_insert_splice less.prems unfolding Internal by blast
    next
      assume "shared_prefix p path = length path" "take (length path) p = path"
      then have "length path \<le> length p" using arg_cong [of _ _ length] by fastforce
      with ok(1) less.prems(3) show ?thesis by simp
    next
      assume shared: "shared_prefix p path = length p" "take (length p) path = p"
      obtain c suffix where path: "path = p @ c # suffix"
        by (rule path_cases [of p path]) (use ok(1) less.prems(3) shared(2) in auto)
      let ?n = "n - length p - 1"
      have len: "length suffix = ?n" "?n < n" using path less.prems(3) by auto
      from insert_children_ok [OF ok(3,4) len(1) less.prems(4) less.IH [OF len(2) _ _ len(1) less.prems(4)], of c]
      obtain children' where ins: "insert_children st children c suffix v = Inr children'" "children_ok st ?n children'"
          "list_all (active_child st) children'" "length children \<le> length children'"
          "\<forall>d rest. length rest = ?n \<longrightarrow> get_under st children' d rest =
            (if d = c \<and> rest = suffix then Inr (Some v) else get_under st children d rest)"
        by blast
      have "trie_insert st node path v = Inr (Internal p children')"
        using ins(1) shared(1) by (simp add: Internal path trie_insert_below)
      moreover have "trie_get st (Internal p children') q = (if q = path then Inr (Some v) else trie_get st node q)"
        if "length q = n" for q
      proof -
        have "length p < length q" using that ok(1) by simp
        then show ?thesis
        proof (cases rule: path_cases)
          case 1
          then show ?thesis by (auto simp: Internal trie_get_off_path path)
        next
          case (2 d rest)
          with that ins(5) show ?thesis by (auto simp: Internal path trie_get_Internal)
        qed
      qed
      ultimately show ?thesis using ok ins by (auto simp: node_ok_Internal updates_def)
    qed
  qed
qed

text \<open>The children of the root, each one byte into its path.\<close>

definition root_ok :: "trie_storage \<Rightarrow> trie_child list \<Rightarrow> bool" where
  "root_ok st children \<longleftrightarrow> children_ok st 31 children \<and> list_all (active_child st) children"

lemma find_path_get_under: "length path = 32 \<Longrightarrow> find_path st children path = get_under st children (path ! 0) (tl path)"
  by (simp add: find_path_def get_under_def)

lemma insert_under_root_ok:
  assumes "root_ok st children" "length path = 32" "length v = 40"
  shows "\<exists>children'. insert_under_root st children path v = Inr children' \<and> root_ok st children' \<and>
    updates 32 path v (find_path st children) (find_path st children')"
proof -
  have len: "length (tl path) = 31" using assms(2) by simp
  have ok: "children_ok st 31 children" "list_all (active_child st) children"
    using assms(1) by (simp_all add: root_ok_def)
  from insert_children_ok [OF ok len assms(3) trie_insert_ok [OF _ _ len assms(3)], of "path ! 0"]
  obtain children' where ins: "insert_children st children (path ! 0) (tl path) v = Inr children'" "root_ok st children'"
      "\<forall>d rest. length rest = 31 \<longrightarrow> get_under st children' d rest =
        (if d = path ! 0 \<and> rest = tl path then Inr (Some v) else get_under st children d rest)"
    unfolding root_ok_def by blast
  have "q = path \<longleftrightarrow> q ! 0 = path ! 0 \<and> tl q = tl path" if "length q = 32" for q
    using that assms(2) by (cases q; cases path) auto
  then have "updates 32 path v (find_path st children) (find_path st children')"
    using ins(3) by (simp add: updates_def find_path_get_under)
  with ins(1,2) show ?thesis by (auto simp: insert_under_root_def insert_children_def)
qed

end
