(* ===== verification/Marf_Seal.thy ===== *)
theory Marf_Seal
  imports Marf_Trie
begin

text \<open>
  Sealing a trie: hashing a well-formed trie does not fail, and persisting it stores nodes with the same
  content, the hash the trie had in memory, and nothing else changed.
\<close>

section \<open>Growing storage\<close>

definition storage_le :: "trie_storage \<Rightarrow> trie_storage \<Rightarrow> bool" where
  "storage_le st st' \<longleftrightarrow> (\<forall>b i x. storage_node st b i = Inr x \<longrightarrow> storage_node st' b i = Inr x) \<and>
     (\<forall>b x. storage_block_hash st b = Inr x \<longrightarrow> storage_block_hash st' b = Inr x) \<and>
     (\<forall>b i x. storage_node_hash st b i = Inr x \<longrightarrow> storage_node_hash st' b i = Inr x)"

lemma storage_le_refl [simp]: "storage_le st st"
  by (simp add: storage_le_def)

lemma storage_le_trans: "storage_le a b \<Longrightarrow> storage_le b c \<Longrightarrow> storage_le a c"
  by (auto simp: storage_le_def)

lemma child_node_mono: "storage_le st st' \<Longrightarrow> child_node st child = Inr node \<Longrightarrow> child_node st' child = Inr node"
  by (auto simp: storage_le_def child_node_def split: child_target.splits)

lemma node_ok_mono: "storage_le st st' \<Longrightarrow> node_ok st n node \<Longrightarrow> node_ok st' n node"
proof (induction n arbitrary: node rule: less_induct)
  case (less n)
  show ?case
  proof (cases node)
    case (Internal p children)
    have "child_ok st' (n - length p - 1) child" if "child_ok st (n - length p - 1) child" "length p < n" for child
      using that less.IH [of "n - length p - 1"] less.prems(1) child_node_mono by (fastforce simp: child_ok_def)
    with less.prems(2) Internal show ?thesis by (auto simp: node_ok_Internal children_ok_def)
  qed (use less.prems in simp)
qed

lemma child_ok_mono: "storage_le st st' \<Longrightarrow> child_ok st n child \<Longrightarrow> child_ok st' n child"
  unfolding child_ok_def using node_ok_mono child_node_mono by blast

lemma children_ok_mono: "storage_le st st' \<Longrightarrow> children_ok st n children \<Longrightarrow> children_ok st' n children"
  by (auto simp: children_ok_def child_ok_mono)

lemma get_under_mono:
  assumes "storage_le st st'" "children_ok st n children" "length rest = n"
    and node: "\<And>node. node_ok st n node \<Longrightarrow> trie_get st' node rest = trie_get st node rest"
  shows "get_under st' children c rest = get_under st children c rest"
proof (cases "List.find (\<lambda>child. tc_character child = c) children")
  case (Some child)
  then have "child \<in> set children" by (auto simp: find_Some_iff)
  with assms(2) obtain m where "child_node st child = Inr m" "node_ok st n m"
    by (auto simp: children_ok_def child_ok_def)
  with child_node_mono [OF assms(1)] node Some show ?thesis by (auto simp: get_under_def)
qed (simp add: get_under_def)

lemma trie_get_mono:
  "storage_le st st' \<Longrightarrow> node_ok st n node \<Longrightarrow> length path = n \<Longrightarrow> trie_get st' node path = trie_get st node path"
proof (induction n arbitrary: node path rule: less_induct)
  case (less n)
  show ?case
  proof (cases node)
    case (Internal p children)
    with less.prems have ok: "length p < n" "children_ok st (n - length p - 1) children"
      by (simp_all add: node_ok_Internal)
    then have "length p < length path" using less.prems(3) by simp
    then show ?thesis
    proof (cases rule: path_cases)
      case 1
      then show ?thesis by (simp add: Internal trie_get_off_path)
    next
      case (2 c rest)
      then have len: "length rest = n - length p - 1" using less.prems(3) by simp
      have "get_under st' children c rest = get_under st children c rest"
        using ok(1) by (intro get_under_mono [OF less.prems(1) ok(2) len] less.IH [OF _ less.prems(1) _ len]) simp_all
      then show ?thesis by (simp add: Internal 2 trie_get_Internal)
    qed
  qed simp
qed

lemma active_mono:
  "storage_le st st' \<Longrightarrow> active_node st node \<Longrightarrow> active_node st' node"
  "storage_le st st' \<Longrightarrow> active_child st child \<Longrightarrow> active_child st' child"
  by (induction st node and st child rule: active_node_active_child.induct) (auto simp: list_all_iff storage_le_def)

lemma root_ok_mono: "storage_le st st' \<Longrightarrow> root_ok st children \<Longrightarrow> root_ok st' children"
  by (auto simp: root_ok_def children_ok_mono list_all_iff intro: active_mono)

lemma find_path_mono:
  assumes "storage_le st st'" "children_ok st 31 children" "length path = 32"
  shows "find_path st' children path = find_path st children path"
proof -
  have "length (tl path) = 31" using assms(3) by simp
  from get_under_mono [OF assms(1,2) this] trie_get_mono [OF assms(1) _ this] show ?thesis
    by (simp add: find_path_get_under [OF assms(3)])
qed

section \<open>Hashing does not fail\<close>

definition pointer_ok :: "trie_pointer \<Rightarrow> bool" where
  "pointer_ok p \<longleftrightarrow> (\<exists>bs. pointer_bytes p = Inr bs)"

lemma fill_slots_ok:
  assumes "\<forall>(child, hash) \<in> set rest. \<exists>p. child_pointer child = Inr p \<and> pointer_ok p"
    and "if kind = TnNode256 then length pointers = 256 else n + length rest \<le> length pointers"
    and "\<forall>p \<in> set pointers. pointer_ok p"
  shows "\<exists>ps hs. fill_slots kind n rest (pointers, hashes) = Inr (ps, hs) \<and> length ps = length pointers \<and>
    length hs = length hashes \<and> (\<forall>p \<in> set ps. pointer_ok p)"
  using assms
proof (induction rest arbitrary: n pointers hashes)
  case (Cons x rest)
  obtain child hash where x: "x = (child, hash)" by fastforce
  let ?i = "if kind = TnNode256 then unat (tc_character child) else n"
  have i: "?i < length pointers" using Cons.prems(2) by auto
  obtain p where p: "child_pointer child = Inr p" "pointer_ok p" using Cons.prems(1) x by auto
  have "\<forall>q \<in> set (pointers[?i := p]). pointer_ok q"
    using Cons.prems(3) p(2) set_update_subset_insert by fast
  from Cons.IH [of "pointers[?i := p]" "Suc n" "hashes[?i := hash]", OF _ _ this] Cons.prems(1,2)
  have "\<exists>ps hs. fill_slots kind (Suc n) rest (pointers[?i := p], hashes[?i := hash]) = Inr (ps, hs) \<and>
      length ps = length pointers \<and> length hs = length hashes \<and> (\<forall>p \<in> set ps. pointer_ok p)"
    by auto
  with i p(1) x show ?case by (simp add: Let_def)
qed simp

lemma node_id_ok: "node_ok st n node \<Longrightarrow> \<exists>kind. node_id node = Inr kind"
  by (cases node) (auto simp: node_id_def node_ok_Internal node_id_for_children_def)

lemma child_pointer_ok:
  assumes "child_ok st n child"
  shows "\<exists>p. child_pointer child = Inr p \<and> pointer_ok p"
proof -
  obtain kind where kind: "child_kind child = Inr kind"
    using assms node_id_ok by (metis child_ok_def)
  then show ?thesis
    by (cases "tc_referenced_block child") (simp_all add: child_pointer_def pointer_ok_def pointer_bytes_def)
qed

lemma hash_slots_ok:
  assumes "\<forall>child \<in> set children. child_ok st n child" "length hashes = length children" "length path \<le> 32"
    and "kind = TnNode256 \<or> length children \<le> pointer_count kind"
  shows "\<exists>hash. hash_slots h kind path children hashes = Inr hash"
proof -
  let ?none = "\<lparr>ptr_id = 0, ptr_character = 0, ptr_referenced_block = None\<rparr> :: trie_pointer"
  have none: "\<forall>p \<in> set (replicate (pointer_count kind) ?none). pointer_ok p"
    by (simp add: pointer_ok_def pointer_bytes_def)
  have "\<forall>(child, hash) \<in> set (zip children hashes). \<exists>p. child_pointer child = Inr p \<and> pointer_ok p"
    using assms(1) child_pointer_ok [of st n] by (auto dest: set_zip_leftD)
  moreover have "if kind = TnNode256 then length (replicate (pointer_count kind) ?none) = 256
      else 0 + length (zip children hashes) \<le> length (replicate (pointer_count kind) ?none)"
    using assms(2,4) by (auto simp: pointer_count_def)
  ultimately have "\<exists>ps hs. slots kind children hashes = Inr (ps, hs) \<and> length ps = pointer_count kind \<and>
      length hs = pointer_count kind \<and> (\<forall>p \<in> set ps. pointer_ok p)"
    using fill_slots_ok [OF _ _ none, where rest = "zip children hashes" and n = 0
        and hashes = "replicate (pointer_count kind) trie_hash_empty"]
    unfolding slots_def length_replicate by blast
  then obtain ps hs where slots: "slots kind children hashes = Inr (ps, hs)" "length ps = pointer_count kind"
      "length hs = pointer_count kind" "\<forall>p \<in> set ps. pointer_ok p"
    by blast
  have "\<forall>p \<in> set qs. pointer_ok p \<Longrightarrow> \<exists>bs. map_e pointer_bytes qs = Inr bs" for qs
    by (induction qs) (auto simp: pointer_ok_def)
  with slots(4) obtain bs where "map_e pointer_bytes ps = Inr bs" by blast
  with slots(1-3) assms(3) show ?thesis
    by (simp add: hash_slots_def internal_node_hash_def)
qed

lemma node_id_for_children_count:
  "node_id_for_children n = Inr kind \<Longrightarrow> kind = TnNode256 \<or> n \<le> pointer_count kind"
  by (auto simp: node_id_for_children_def pointer_count_def split: if_splits)

text \<open>Two lists of children with the same pointers fill the same slots.\<close>

lemma fill_slots_cong:
  assumes "list_all2 (\<lambda>c c'. tc_character c' = tc_character c \<and> child_pointer c' = child_pointer c) cs cs'"
  shows "fill_slots kind n (zip cs' hashes) acc = fill_slots kind n (zip cs hashes) acc"
  using assms
proof (induction arbitrary: n hashes acc rule: list_all2_induct)
  case (Cons c cs c' cs')
  then show ?case by (cases hashes; cases acc) (auto simp: Let_def intro!: arg_cong2 [of _ _ _ _ bind_e])
qed simp

lemma hash_slots_cong:
  "list_all2 (\<lambda>c c'. tc_character c' = tc_character c \<and> child_pointer c' = child_pointer c) cs cs' \<Longrightarrow>
    hash_slots h kind path cs' hashes = hash_slots h kind path cs hashes"
  by (simp add: hash_slots_def slots_def fill_slots_cong)

section \<open>Persisting\<close>

definition fresh_from :: "trie_storage \<Rightarrow> u32 \<Rightarrow> u32 \<Rightarrow> bool" where
  "fresh_from st block next \<longleftrightarrow> (\<forall>j. next \<le> j \<longrightarrow> ts_nodes st (block, j) = None)"

text \<open>The writes of one block: the block table and the nodes of other blocks are as before.\<close>

definition writes_block :: "u32 \<Rightarrow> trie_storage \<Rightarrow> trie_storage \<Rightarrow> bool" where
  "writes_block block st st' \<longleftrightarrow> ts_blocks st' = ts_blocks st \<and> ts_sequence st' = ts_sequence st \<and>
     (\<forall>b j. b \<noteq> block \<longrightarrow> ts_nodes st' (b, j) = ts_nodes st (b, j))"

lemma writes_block_refl [simp]: "writes_block block st st"
  by (simp add: writes_block_def)

lemma writes_block_trans: "writes_block block a b \<Longrightarrow> writes_block block b c \<Longrightarrow> writes_block block a c"
  by (simp add: writes_block_def)

lemma storage_block_hash_cong: "ts_blocks st' = ts_blocks st \<Longrightarrow> storage_block_hash st' = storage_block_hash st"
  by (simp add: storage_block_hash_def fun_eq_iff)

lemma write_node_ok:
  assumes "fresh_from st block next" "node_storable (storage_block_hash st) block node" "length hash = 32"
  shows "write_node st block next hash node = Inl HeightOverflow \<or>
    (\<exists>st' next'. write_node st block next hash node = Inr (st', next', next) \<and> storage_le st st' \<and>
       writes_block block st st' \<and> fresh_from st' block next' \<and>
       storage_node st' block next = Inr node \<and> storage_node_hash st' block next = Inr hash)"
proof (cases "checked_add next 1")
  case (Some next')
  then have next': "unat next' = unat next + 1" by (auto dest: unat_checked_add)
  obtain data where data: "encode_node node = Inr data" "decode_node (storage_block_hash st) block data = Inr node"
    using decode_encode_node [OF assms(2)] by blast
  let ?st = "st\<lparr>ts_nodes := (ts_nodes st)((block, next) \<mapsto> (hash, data))\<rparr>"
  have hashes: "storage_block_hash ?st = storage_block_hash st" by (rule storage_block_hash_cong) simp
  have "write_node st block next hash node = Inr (?st, next', next)"
    using Some data(1) by (simp add: write_node_def insert_node_def)
  moreover have "storage_le st ?st"
    using assms(1)
    by (auto simp: storage_le_def storage_node_def storage_node_hash_def hashes fresh_from_def split: option.splits)
  moreover have "fresh_from ?st block next'"
    using assms(1) next' by (auto simp: fresh_from_def word_le_nat_alt)
  ultimately show ?thesis
    using data(2) assms(3) by (simp add: writes_block_def storage_node_def storage_node_hash_def hashes as_block_id_def)
qed (simp add: write_node_def)

text \<open>A persisted child has the pointer of the child in memory, may be recorded in the block, and its node
  has the same content.\<close>

definition persisted :: "u32 \<Rightarrow> nat \<Rightarrow> trie_storage \<Rightarrow> trie_storage \<Rightarrow> trie_child \<Rightarrow> trie_child \<Rightarrow> bool" where
  "persisted block n st st' c c' \<longleftrightarrow> tc_character c' = tc_character c \<and> child_pointer c' = child_pointer c \<and>
     child_storable (storage_block_hash st') block c' \<and> child_ok st' n c' \<and>
     (\<exists>m m'. child_node st c = Inr m \<and> child_node st' c' = Inr m' \<and>
        (\<forall>q. length q = n \<longrightarrow> trie_get st' m' q = trie_get st m q))"

lemma child_storable_mono:
  "storage_le st st' \<Longrightarrow> child_storable (storage_block_hash st) block child \<Longrightarrow>
    child_storable (storage_block_hash st') block child"
  by (auto simp: child_storable_def storage_le_def split: child_target.splits option.splits)

lemma persisted_mono:
  assumes "persisted block n st st' c c'" "storage_le st' st''"
  shows "persisted block n st st'' c c'"
proof -
  obtain m m' where m: "child_node st c = Inr m" "child_node st' c' = Inr m'"
      "\<forall>q. length q = n \<longrightarrow> trie_get st' m' q = trie_get st m q" "node_ok st' n m'"
    using assms(1) by (auto simp: persisted_def child_ok_def)
  with assms trie_get_mono [OF assms(2) m(4)] child_node_mono [OF assms(2) m(2)] show ?thesis
    by (auto simp: persisted_def intro: child_storable_mono child_ok_mono)
qed

lemma persisted_find:
  assumes "list_all2 (persisted block n st st') cs cs'" "length rest = n"
  shows "get_under st' cs' c rest = get_under st cs c rest"
  using assms(1)
proof (induction rule: list_all2_induct)
  case (Cons x xs y ys)
  then show ?case using assms(2) by (auto simp: persisted_def get_under_def)
qed (simp add: get_under_def)

lemma trie_get_Internal_cong:
  assumes "\<And>c rest. length rest = n - length p - 1 \<Longrightarrow> get_under st' cs' c rest = get_under st cs c rest"
    and "length p < n" "length q = n"
  shows "trie_get st' (Internal p cs') q = trie_get st (Internal p cs) q"
proof -
  have "length p < length q" using assms(2,3) by simp
  then show ?thesis
  proof (cases rule: path_cases)
    case (2 c rest)
    with assms show ?thesis by (simp add: trie_get_Internal)
  qed (simp add: trie_get_off_path)
qed

lemma distinct_bytes_length: "distinct (cs :: byte list) \<Longrightarrow> length cs \<le> 256"
  using card_mono [of "UNIV :: byte set" "set cs"] by (simp add: distinct_card card_word)

text \<open>The outcome of persisting one node and of persisting a list of children.\<close>

definition node_sealed ::
  "(bytes \<Rightarrow> bytes) \<Rightarrow> u32 \<Rightarrow> nat \<Rightarrow> trie_storage \<Rightarrow> trie_node
    \<Rightarrow> trie_storage \<times> u32 \<times> u32 \<times> bytes \<times> trie_node_id \<Rightarrow> bool" where
  "node_sealed h block n st node = (\<lambda>(st', next', index, hash, kind).
     storage_le st st' \<and> writes_block block st st' \<and> fresh_from st' block next' \<and>
     trie_hash h st node = Inr hash \<and> length hash = 32 \<and> node_id node = Inr kind \<and>
     storage_node_hash st' block index = Inr hash \<and>
     (\<exists>node'. storage_node st' block index = Inr node' \<and> node_ok st' n node' \<and> node_id node' = Inr kind \<and>
        (\<forall>q. length q = n \<longrightarrow> trie_get st' node' q = trie_get st node q)))"

definition children_sealed ::
  "(bytes \<Rightarrow> bytes) \<Rightarrow> u32 \<Rightarrow> nat \<Rightarrow> trie_storage \<Rightarrow> trie_child list
    \<Rightarrow> trie_storage \<times> u32 \<times> trie_child list \<times> bytes list \<Rightarrow> bool" where
  "children_sealed h block n st children = (\<lambda>(st', next', children', hashes).
     storage_le st st' \<and> writes_block block st st' \<and> fresh_from st' block next' \<and>
     map_e (child_hash h st) children = Inr hashes \<and> list_all2 (persisted block n st st') children children')"

lemma hash_slots_length: "\<forall>x. length (h x) = 32 \<Longrightarrow> hash_slots h kind p cs hs = Inr hash \<Longrightarrow> length hash = 32"
  by (auto simp: hash_slots_def internal_node_hash_def bind_e_Inr_iff split: if_splits)

lemma children_sealed_ok:
  assumes "children_sealed h block n st children (st', next', children', hashes)" "distinct (map tc_character children)"
  shows "children_ok st' n children'" "length children' = length children" "length hashes = length children"
    "\<And>kind p. hash_slots h kind p children' hashes = hash_slots h kind p children hashes"
    "\<forall>child \<in> set children'. child_storable (storage_block_hash st') block child"
    "\<And>c rest. length rest = n \<Longrightarrow> get_under st' children' c rest = get_under st children c rest"
proof -
  have all: "list_all2 (persisted block n st st') children children'"
    using assms(1) by (simp add: children_sealed_def)
  then have chars: "map tc_character children' = map tc_character children"
    by (induction rule: list_all2_induct) (auto simp: persisted_def)
  have each: "\<forall>child \<in> set children'. child_storable (storage_block_hash st') block child \<and> child_ok st' n child"
    using all by (induction rule: list_all2_induct) (auto simp: persisted_def)
  show "children_ok st' n children'" using each assms(2) chars by (simp add: children_ok_def)
  show "\<forall>child \<in> set children'. child_storable (storage_block_hash st') block child" using each by blast
  show "length children' = length children" using all by (simp add: list_all2_lengthD)
  show "length hashes = length children"
    using assms(1) by (auto simp: children_sealed_def map_e_Inr_iff dest: list_all2_lengthD)
  show "hash_slots h kind p children' hashes = hash_slots h kind p children hashes" for kind p
    by (rule hash_slots_cong, rule list_all2_mono [OF all]) (simp add: persisted_def)
  show "get_under st' children' c rest = get_under st children c rest" if "length rest = n" for c rest
    by (rule persisted_find [OF all that])
qed

lemma persist_internal:
  assumes ok: "node_ok st n (Internal p children)" "n \<le> 32" and digest: "\<forall>x. length (h x) = 32"
    and sealed: "children_sealed h block (n - length p - 1) st children (st', next', children', hashes)"
    and run: "persist_children h block st next children = Inr (st', next', children', hashes)"
  shows "persist_node h block st next (Internal p children) = Inl HeightOverflow \<or>
    (\<exists>r. persist_node h block st next (Internal p children) = Inr r \<and> node_sealed h block n st (Internal p children) r)"
proof -
  have p: "length p < n" "2 \<le> length children" "children_ok st (n - length p - 1) children"
    using ok(1) by (simp_all add: node_ok_Internal)
  then have dist: "distinct (map tc_character children)" by (simp add: children_ok_def)
  note sealed_ok = children_sealed_ok [OF sealed dist]
  have "\<exists>kind. node_id_for_children (length children) = Inr kind" using p(2) by (simp add: node_id_for_children_def)
  then obtain kind where kind: "node_id_for_children (length children) = Inr kind" ..
  obtain hash where hash: "hash_slots h kind p children hashes = Inr hash"
    using hash_slots_ok [of children st "n - length p - 1" hashes p kind h] p(1,3) ok(2) sealed_ok(3)
      node_id_for_children_count [OF kind] by (auto simp: children_ok_def)
  have "node_storable (storage_block_hash st') block (Internal p children')"
    using sealed_ok(2,5) p(1) ok(2) distinct_bytes_length [OF dist] by (simp add: node_storable_def)
  moreover have "fresh_from st' block next'" using sealed by (simp add: children_sealed_def)
  ultimately consider "write_node st' block next' hash (Internal p children') = Inl HeightOverflow"
    | st'' next'' where "write_node st' block next' hash (Internal p children') = Inr (st'', next'', next')"
        "storage_le st' st''" "writes_block block st' st''" "fresh_from st'' block next''"
        "storage_node st'' block next' = Inr (Internal p children')" "storage_node_hash st'' block next' = Inr hash"
    using write_node_ok [of st' block next' "Internal p children'" hash] hash_slots_length [OF digest hash] by blast
  then show ?thesis
  proof cases
    case 1
    then show ?thesis using run kind hash sealed_ok(2,4) by simp
  next
    case 2
    have node': "node_ok st' n (Internal p children')" using p sealed_ok(1,2) by (simp add: node_ok_Internal)
    have "trie_get st'' (Internal p children') q = trie_get st (Internal p children) q" if "length q = n" for q
      using trie_get_mono [OF 2(2) node' that] trie_get_Internal_cong [OF sealed_ok(6) p(1) that] by simp
    then have "node_sealed h block n st (Internal p children) (st'', next'', next', hash, kind)"
      using 2 sealed node_ok_mono [OF 2(2) node'] kind hash hash_slots_length [OF digest hash] sealed_ok(2)
        storage_le_trans [OF _ 2(2), of st] writes_block_trans [OF _ 2(3), of st]
      unfolding node_sealed_def children_sealed_def by (auto simp: node_id_def)
    then show ?thesis using run kind hash sealed_ok(2,4) 2(1) by auto
  qed
qed

lemma persist_leaf:
  assumes ok: "length p = n" "length v = 40" "n \<le> 32" "fresh_from st block next" and digest: "\<forall>x. length (h x) = 32"
  shows "persist_node h block st next (Leaf p v) = Inl HeightOverflow \<or>
    (\<exists>r. persist_node h block st next (Leaf p v) = Inr r \<and> node_sealed h block n st (Leaf p v) r)"
proof -
  obtain hash where hash: "leaf_hash h p v = Inr hash" "length hash = 32"
    using ok(1,3) digest by (simp add: leaf_hash_def)
  have "node_storable (storage_block_hash st) block (Leaf p v)" using ok by (simp add: node_storable_def)
  from write_node_ok [OF ok(4) this hash(2)] show ?thesis
  proof (elim disjE exE conjE)
    fix st' next'
    assume "write_node st block next hash (Leaf p v) = Inr (st', next', next)" "storage_le st st'"
      "writes_block block st st'" "fresh_from st' block next'" "storage_node st' block next = Inr (Leaf p v)"
      "storage_node_hash st' block next = Inr hash"
    then show ?thesis using hash ok(1,2) by (auto simp: node_sealed_def node_id_def)
  qed (simp add: hash(1))
qed

text \<open>The hash of a trie under construction does not read the storage: its stored children are back-pointers,
  which stand for their block.\<close>

lemma active_hash:
  "active_node st node \<Longrightarrow> trie_hash h st' node = trie_hash h st node"
  "active_child st child \<Longrightarrow> child_hash h st' child = child_hash h st child"
proof (induction st node and st child rule: active_node_active_child.induct)
  case (2 st path children)
  then have "map_e (child_hash h st') children = map_e (child_hash h st) children"
    by (intro map_e_cong) (auto simp: list_all_iff)
  then show ?case by simp
qed auto

lemma children_sealed_Nil: "fresh_from st block next \<Longrightarrow> children_sealed h block n st [] (st, next, [], [])"
  by (simp add: children_sealed_def)

lemma children_sealed_later:
  assumes "children_sealed h block n st' children (st'', next'', children', hashes)" "storage_le st st'"
    and ok: "\<forall>child \<in> set children. child_ok st n child" "list_all (active_child st) children"
  shows "map_e (child_hash h st) children = Inr hashes" "list_all2 (persisted block n st st'') children children'"
proof -
  have "map_e (child_hash h st) children = map_e (child_hash h st') children"
    using ok(2) by (intro map_e_cong active_hash(2) [symmetric]) (auto simp: list_all_iff)
  then show "map_e (child_hash h st) children = Inr hashes" using assms(1) by (simp add: children_sealed_def)
  have "persisted block n st st'' c c'" if c: "persisted block n st' st'' c c'" "child_ok st n c" for c c'
  proof -
    obtain m where m: "child_node st c = Inr m" "node_ok st n m" using c(2) by (auto simp: child_ok_def)
    have "trie_get st' m q = trie_get st m q" if "length q = n" for q by (rule trie_get_mono [OF assms(2) m(2) that])
    moreover obtain m' where "child_node st'' c' = Inr m'" "\<forall>q. length q = n \<longrightarrow> trie_get st'' m' q = trie_get st' m q"
      using c(1) child_node_mono [OF assms(2) m(1)] by (auto simp: persisted_def)
    ultimately have "\<forall>q. length q = n \<longrightarrow> trie_get st'' m' q = trie_get st m q" by simp
    with m(1) \<open>child_node st'' c' = Inr m'\<close> c(1) show ?thesis unfolding persisted_def by blast
  qed
  note step = this
  have "list_all2 (persisted block n st' st'') children children'" using assms(1) by (simp add: children_sealed_def)
  then show "list_all2 (persisted block n st st'') children children'"
    by (rule list.rel_mono_strong) (use ok(1) step in simp)
qed

lemma children_sealed_memory:
  assumes ok: "child_ok st n (TrieChild c None (Memory node))" "\<forall>child \<in> set children. child_ok st n child"
      "list_all (active_child st) children"
    and node: "node_sealed h block n st node (st', next', index, hash, kind)"
    and rest: "children_sealed h block n st' children (st'', next'', children', hashes)"
  shows "children_sealed h block n st (TrieChild c None (Memory node) # children)
    (st'', next'', TrieChild c None (Stored block index kind) # children', hash # hashes)"
proof -
  have le: "storage_le st st'" "storage_le st' st''" using node rest by (simp_all add: node_sealed_def children_sealed_def)
  obtain node' where node': "storage_node st' block index = Inr node'" "node_ok st' n node'" "node_id node' = Inr kind"
      "\<forall>q. length q = n \<longrightarrow> trie_get st' node' q = trie_get st node q" "node_id node = Inr kind"
    using node by (auto simp: node_sealed_def)
  then have "persisted block n st st' (TrieChild c None (Memory node)) (TrieChild c None (Stored block index kind))"
    by (simp add: persisted_def child_pointer_def child_storable_def child_ok_def child_node_def child_kind_def)
  from persisted_mono [OF this le(2)] children_sealed_later [OF rest le(1) ok(2,3)] node rest storage_le_trans [OF le]
  show ?thesis unfolding children_sealed_def node_sealed_def by (auto intro: writes_block_trans)
qed

lemma children_sealed_stored:
  assumes ok: "child_ok st n (TrieChild c (Some b) (Stored owner index kind))" "storage_block_hash st owner = Inr b"
    and rest: "children_sealed h block n st children (st', next', children', hashes)"
  shows "children_sealed h block n st (TrieChild c (Some b) (Stored owner index kind) # children)
    (st', next', TrieChild c (Some b) (Stored owner index kind) # children', b # hashes)"
proof -
  let ?c = "TrieChild c (Some b) (Stored owner index kind)"
  have "persisted block n st st ?c ?c"
    using ok by (auto simp: persisted_def child_storable_def child_ok_def)
  from persisted_mono [OF this] rest show ?thesis by (auto simp: children_sealed_def)
qed

text \<open>Persisting a well-formed trie fails only when a block runs out of node numbers.\<close>

lemma persist_ok:
  assumes digest: "\<forall>x. length (h x) = 32"
  shows "n \<le> 32 \<Longrightarrow> node_ok st n node \<Longrightarrow> active_node st node \<Longrightarrow> fresh_from st block next \<Longrightarrow>
      persist_node h block st next node = Inl HeightOverflow \<or>
      (\<exists>r. persist_node h block st next node = Inr r \<and> node_sealed h block n st node r)"
    and "n \<le> 32 \<Longrightarrow> \<forall>child \<in> set children. child_ok st n child \<Longrightarrow> list_all (active_child st) children \<Longrightarrow>
      fresh_from st block next \<Longrightarrow>
      persist_children h block st next children = Inl HeightOverflow \<or>
      (\<exists>r. persist_children h block st next children = Inr r \<and> children_sealed h block n st children r)"
  using digest
proof (induction h block st "next" node and h block st "next" children arbitrary: n and n
    rule: persist_node_persist_children.induct)
  case (1 h block st "next" path v)
  then show ?case using persist_leaf [of path n v st block "next" h] by (simp del: persist_node.simps)
next
  case (2 h block st "next" path children)
  then have ok: "\<forall>child \<in> set children. child_ok st (n - length path - 1) child" "list_all (active_child st) children"
    by (simp_all add: node_ok_Internal children_ok_def)
  have "n - length path - 1 \<le> 32" using "2.prems"(1) by simp
  from "2.IH" [OF this ok "2.prems"(4,5)]
  consider "persist_children h block st next children = Inl HeightOverflow"
    | st' next' children' hashes where "persist_children h block st next children = Inr (st', next', children', hashes)"
        "children_sealed h block (n - length path - 1) st children (st', next', children', hashes)"
    by (auto simp del: persist_children.simps)
  then show ?case
  proof cases
    case 2
    from persist_internal [OF "2.prems"(2,1,5) 2(2,1)] show ?thesis .
  qed simp
next
  case (3 h block st "next")
  then show ?case using children_sealed_Nil by auto
next
  case (4 h block st "next" c referenced node children)
  then have ok: "node_ok st n node" "active_node st node" "referenced = None" "child_ok st n (TrieChild c None (Memory node))"
      "\<forall>child \<in> set children. child_ok st n child" "list_all (active_child st) children"
    by (auto simp: child_ok_def child_node_def)
  from "4.IH"(1) [OF _ "4.prems"(1) ok(1,2) "4.prems"(4,5)] ok(3)
  consider "persist_node h block st next node = Inl HeightOverflow"
    | st' next' index hash kind where "persist_node h block st next node = Inr (st', next', index, hash, kind)"
        "node_sealed h block n st node (st', next', index, hash, kind)"
    by (auto simp del: persist_node.simps)
  then show ?case
  proof cases
    case 2
    then have le: "storage_le st st'" "fresh_from st' block next'" by (simp_all add: node_sealed_def)
    have ok': "\<forall>child \<in> set children. child_ok st' n child" "list_all (active_child st') children"
      using ok(5,6) child_ok_mono [OF le(1)] active_mono(2) [OF le(1)] by (auto simp: list_all_iff)
    from "4.IH"(2) [OF _ "4.prems"(1) ok' le(2) "4.prems"(5)] ok(3)
    consider "persist_children h block st' next' children = Inl HeightOverflow"
      | st'' next'' children' hashes where
          "persist_children h block st' next' children = Inr (st'', next'', children', hashes)"
          "children_sealed h block n st' children (st'', next'', children', hashes)"
      by auto
    then show ?thesis
    proof cases
      case 2
      with children_sealed_memory [OF ok(4,5,6) \<open>node_sealed _ _ _ _ _ _\<close> 2(2)] ok(3)
        \<open>persist_node _ _ _ _ _ = Inr _\<close> show ?thesis by simp
    qed (use ok(3) \<open>persist_node _ _ _ _ _ = Inr _\<close> in simp)
  qed (use ok(3) in simp)
next
  case (5 h block st "next" c referenced owner index kind children)
  then obtain b where b: "referenced = Some b" "storage_block_hash st owner = Inr b" by auto
  have "\<forall>child \<in> set children. child_ok st n child" "list_all (active_child st) children"
    using "5.prems"(2,3) by simp_all
  from "5.IH" [OF "5.prems"(1) this "5.prems"(4,5)]
  consider "persist_children h block st next children = Inl HeightOverflow"
    | st' next' children' hashes where "persist_children h block st next children = Inr (st', next', children', hashes)"
        "children_sealed h block n st children (st', next', children', hashes)"
    by auto
  then show ?case
  proof cases
    case 2
    have "child_ok st n (TrieChild c (Some b) (Stored owner index kind))" using "5.prems"(2) b by simp
    from children_sealed_stored [OF this b(2) 2(2)] 2(1) b(1) show ?thesis by simp
  qed (use b in simp)
qed

lemma persist_root_ok:
  assumes ok: "root_ok st children" "fresh_from st block next" and digest: "\<forall>x. length (h x) = 32"
  shows "persist_root h block st next children = Inl HeightOverflow \<or>
    (\<exists>st' index hash children'. persist_root h block st next children = Inr (st', index, hash) \<and>
       storage_le st st' \<and> writes_block block st st' \<and> hash_children h st TnNode256 [] children = Inr hash \<and>
       length hash = 32 \<and> storage_node st' block index = Inr (Internal [] children') \<and> children_ok st' 31 children' \<and>
       (\<forall>path. length path = 32 \<longrightarrow> find_path st' children' path = find_path st children path))"
proof -
  have root: "children_ok st 31 children" "list_all (active_child st) children" "distinct (map tc_character children)"
    using ok(1) by (simp_all add: root_ok_def children_ok_def)
  from persist_ok(2) [OF digest _ _ root(2) ok(2), of 31] root(1)
  consider "persist_children h block st next children = Inl HeightOverflow"
    | st' next' children' hashes where "persist_children h block st next children = Inr (st', next', children', hashes)"
        "children_sealed h block 31 st children (st', next', children', hashes)"
    by (auto simp: children_ok_def)
  then show ?thesis
  proof cases
    case 2
    note sealed = children_sealed_ok [OF 2(2) root(3)]
    have st': "fresh_from st' block next'" "storage_le st st'" "writes_block block st st'"
        "map_e (child_hash h st) children = Inr hashes"
      using 2(2) by (simp_all add: children_sealed_def)
    obtain hash where hash: "hash_slots h TnNode256 [] children hashes = Inr hash"
      using hash_slots_ok [of children st 31 hashes "[]" TnNode256 h] root(1) sealed(3) by (auto simp: children_ok_def)
    have "node_storable (storage_block_hash st') block (Internal [] children')"
      using sealed(2,5) distinct_bytes_length [OF root(3)] by (simp add: node_storable_def)
    from write_node_ok [OF st'(1) this hash_slots_length [OF digest hash]] show ?thesis
    proof (elim disjE exE conjE)
      fix st'' next''
      assume w: "write_node st' block next' hash (Internal [] children') = Inr (st'', next'', next')" "storage_le st' st''"
        "writes_block block st' st''" "storage_node st'' block next' = Inr (Internal [] children')"
      have "find_path st'' children' path = find_path st children path" if "length path = 32" for path
        using find_path_mono [OF w(2) sealed(1) that] sealed(6) that by (simp add: find_path_get_under)
      moreover have "persist_root h block st next children = Inr (st'', next', hash)"
        using w(1) 2(1) hash sealed(4) by (simp add: persist_root_def)
      moreover have "hash_children h st TnNode256 [] children = Inr hash"
        using st'(4) hash by (simp add: hash_children_def)
      ultimately show ?thesis
        using w(4) storage_le_trans [OF st'(2) w(2)] writes_block_trans [OF st'(3) w(3)]
          children_ok_mono [OF w(2) sealed(1)] hash_slots_length [OF digest hash] by blast
    qed (simp add: persist_root_def 2(1) hash sealed(4))
  qed (simp add: persist_root_def)
qed

end
