(* ===== verification/Versioned_Marf.thy ===== *)
theory Versioned_Marf
  imports Marf_Seal
begin

text \<open>
  The versioned MARF: one sealed state per block, each a copy-on-write extension of its parent, and at most
  one state being written. An operation that changes the MARF returns the changed MARF or its error; the
  sealing transaction that fails is rolled back, so the MARF of an error is the one before. The path of the
  database file, which only occurs in error messages, is not part of the model.
\<close>

section \<open>State\<close>

record active_version =
  av_block :: bytes
  av_parent :: "bytes option"
  av_height :: u32
  av_root_children :: "trie_child list"

record versioned_marf =
  vm_storage :: trie_storage
  vm_active :: "active_version option"

definition marf_from_storage :: "trie_storage \<Rightarrow> versioned_marf" where
  "marf_from_storage st = \<lparr>vm_storage = st, vm_active = None\<rparr>"

definition marf_snapshot :: "versioned_marf \<Rightarrow> active_version option" where
  "marf_snapshot m = vm_active m"

definition marf_restore :: "versioned_marf \<Rightarrow> active_version option \<Rightarrow> versioned_marf" where
  "marf_restore m s = m\<lparr>vm_active := s\<rparr>"

section \<open>The keys of a state's height\<close>

fun decimal :: "nat \<Rightarrow> string" where
  "decimal n = (if n < 10 then [char_of (48 + n)] else decimal (n div 10) @ [char_of (48 + n mod 10)])"

declare decimal.simps [simp del]

definition hex_digit :: "nat \<Rightarrow> char" where
  "hex_digit n = char_of (if n < 10 then 48 + n else 87 + n)"

definition block_hex :: "bytes \<Rightarrow> string" where
  "block_hex block = concat (map (\<lambda>b. [hex_digit (unat b div 16), hex_digit (unat b mod 16)]) block)"

definition as_key :: "string \<Rightarrow> bytes" where
  "as_key s = map of_char s"

text \<open>A parent implies a height above zero; the source panics otherwise.\<close>

definition height_keys :: "bytes option \<Rightarrow> bytes \<Rightarrow> u32 \<Rightarrow> marf_error + (bytes \<times> bytes) list" where
  "height_keys parent block height =
     (let entries =
       [(as_key ''__MARF_BLOCK_HEIGHT_SELF'', mv_from_u32 height),
        (as_key (''__MARF_BLOCK_HEIGHT_TO_HASH::'' @ decimal (unat height)), mv_from_block_id block),
        (as_key (''__MARF_BLOCK_HASH_TO_HEIGHT::'' @ block_hex block), mv_from_u32 height)] in
      case parent of
        None \<Rightarrow> Inr entries
      | Some parent \<Rightarrow>
          if height = 0 then Inl MarfPanic
          else Inr (entries @
            [(as_key (''__MARF_BLOCK_HEIGHT_TO_HASH::'' @ decimal (unat (height - 1))), mv_from_block_id parent),
             (as_key (''__MARF_BLOCK_HASH_TO_HEIGHT::'' @ block_hex parent), mv_from_u32 (height - 1))]))"

definition insert_metadata ::
  "(bytes \<Rightarrow> bytes) \<Rightarrow> trie_storage \<Rightarrow> trie_child list \<Rightarrow> bytes option \<Rightarrow> bytes \<Rightarrow> u32 \<Rightarrow> marf_error + trie_child list" where
  "insert_metadata h st root_children parent block height =
     bind_e (height_keys parent block height) (\<lambda>entries.
       fold_e (\<lambda>children (key, v). insert_under_root st children (key_path h key) v) root_children entries)"

section \<open>Writing\<close>

definition extend_root :: "trie_storage \<Rightarrow> block_record \<Rightarrow> marf_error + trie_child list" where
  "extend_root st parent = bind_e (case br_node parent of
       None \<Rightarrow> Inr []
     | Some index \<Rightarrow> bind_e (storage_node st (br_id parent) index) (\<lambda>node. case node of
           Internal _ children \<Rightarrow> Inr children
         | Leaf _ _ \<Rightarrow> Inl MarfStorage))
     (\<lambda>children. Inr (prepare_root_for_copy (br_hash parent) children))"

definition marf_begin ::
  "(bytes \<Rightarrow> bytes) \<Rightarrow> versioned_marf \<Rightarrow> bytes option \<Rightarrow> bytes \<Rightarrow> marf_error + versioned_marf" where
  "marf_begin h m parent block =
     (if vm_active m \<noteq> None then Inl WriteInProgress
      else bind_e (storage_block (vm_storage m) block) (\<lambda>existing.
        if existing \<noteq> None then Inl VersionAlreadyExists
        else bind_e (case parent of
            Some p \<Rightarrow> bind_e (storage_block (vm_storage m) p) (\<lambda>found. case found of
                None \<Rightarrow> Inl UnknownVersion
              | Some r \<Rightarrow> bind_e (extend_root (vm_storage m) r) (\<lambda>children. case checked_add (br_height r) 1 of
                    None \<Rightarrow> Inl HeightOverflow
                  | Some height \<Rightarrow> Inr (children, height)))
          | None \<Rightarrow> Inr ([], 0)) (\<lambda>(root_children, height).
        bind_e (insert_metadata h (vm_storage m) root_children parent block height) (\<lambda>children.
        Inr (m\<lparr>vm_active := Some \<lparr>av_block = block, av_parent = parent, av_height = height,
          av_root_children = children\<rparr>\<rparr>)))))"

definition marf_insert_path :: "versioned_marf \<Rightarrow> bytes \<Rightarrow> bytes \<Rightarrow> marf_error + versioned_marf" where
  "marf_insert_path m path v = (case vm_active m of
       None \<Rightarrow> Inl WriteNotBegun
     | Some active \<Rightarrow> bind_e (insert_under_root (vm_storage m) (av_root_children active) path v) (\<lambda>children.
         Inr (m\<lparr>vm_active := Some (active\<lparr>av_root_children := children\<rparr>)\<rparr>)))"

definition marf_insert ::
  "(bytes \<Rightarrow> bytes) \<Rightarrow> versioned_marf \<Rightarrow> bytes \<Rightarrow> bytes \<Rightarrow> marf_error + versioned_marf" where
  "marf_insert h m key v = marf_insert_path m (key_path h key) v"

text \<open>The ancestors at distances 1, 2, 4, and so on, each found in the table of the one before: the list
  holds one ancestor per step taken, so its last element is the previous one.\<close>

function jumps_from :: "trie_storage \<Rightarrow> u32 \<Rightarrow> nat \<Rightarrow> bytes list \<Rightarrow> marf_error + bytes list" where
  "jumps_from st height step jumps =
     (if 2 ^ step \<le> unat height then
        bind_e (storage_jumps st (jumps ! (step - 1))) (\<lambda>table.
          if step - 1 < length table then jumps_from st height (Suc step) (jumps @ [table ! (step - 1)])
          else Inl UnknownVersion)
      else Inr jumps)"
  by pat_completeness auto
termination
proof (relation "measure (\<lambda>(st, height, step, jumps). unat height - step)")
  fix height :: u32 and step :: nat
  assume "2 ^ step \<le> unat height"
  with less_exp have "step < unat height" by (rule order.strict_trans2)
  then show "((st', height, Suc step, js'), st, height, step, js) \<in> measure (\<lambda>(st, height, step, jumps). unat height - step)"
    for st' js' st js by simp
qed simp

declare jumps_from.simps [simp del]

definition marf_jumps :: "trie_storage \<Rightarrow> bytes option \<Rightarrow> u32 \<Rightarrow> marf_error + bytes list" where
  "marf_jumps st parent height = (case parent of None \<Rightarrow> Inr [] | Some p \<Rightarrow> jumps_from st height 1 [p])"

definition ancestor_roots_for :: "trie_storage \<Rightarrow> bytes list \<Rightarrow> marf_error + bytes list" where
  "ancestor_roots_for st jumps = map_e (\<lambda>block. bind_e (storage_block st block) (\<lambda>found. case found of
       None \<Rightarrow> Inl UnknownVersion | Some r \<Rightarrow> Inr (br_root r))) jumps"

definition ancestor_roots :: "trie_storage \<Rightarrow> bytes option \<Rightarrow> u32 \<Rightarrow> marf_error + bytes list" where
  "ancestor_roots st parent height = bind_e (marf_jumps st parent height) (ancestor_roots_for st)"

definition pending_root :: "(bytes \<Rightarrow> bytes) \<Rightarrow> versioned_marf \<Rightarrow> marf_error + bytes" where
  "pending_root h m = (case vm_active m of
       None \<Rightarrow> Inl WriteNotBegun
     | Some active \<Rightarrow> bind_e (hash_children h (vm_storage m) TnNode256 [] (av_root_children active)) (\<lambda>content.
         bind_e (ancestor_roots (vm_storage m) (av_parent active) (av_height active)) (\<lambda>roots.
         Inr (state_root h content roots))))"

definition write_sealed ::
  "(bytes \<Rightarrow> bytes) \<Rightarrow> trie_storage \<Rightarrow> bytes \<Rightarrow> active_version \<Rightarrow> marf_error + bytes \<times> trie_storage" where
  "write_sealed h st block active =
     bind_e (case av_parent active of
         Some p \<Rightarrow> bind_e (storage_block st p) (\<lambda>found. Inr (map_option br_id found))
       | None \<Rightarrow> Inr None) (\<lambda>parent.
     bind_e (marf_jumps st (av_parent active) (av_height active)) (\<lambda>jumps.
     bind_e (ancestor_roots_for st jumps) (\<lambda>roots.
     bind_e (reserve_block st block parent (av_height active) jumps) (\<lambda>(rowid, reserved).
     bind_e (persist_root h rowid reserved 0 (av_root_children active)) (\<lambda>(written, node, content).
     Inr (state_root h content roots,
          complete_block written rowid (state_root h content roots) content (Some node)))))))"

definition marf_seal_to ::
  "(bytes \<Rightarrow> bytes) \<Rightarrow> versioned_marf \<Rightarrow> bytes \<Rightarrow> marf_error + bytes \<times> versioned_marf" where
  "marf_seal_to h m block = bind_e (storage_block (vm_storage m) block) (\<lambda>existing.
     if existing \<noteq> None then Inl VersionAlreadyExists
     else case vm_active m of
         None \<Rightarrow> Inl WriteNotBegun
       | Some active \<Rightarrow> bind_e (write_sealed h (vm_storage m) block active) (\<lambda>(root, st).
           Inr (root, \<lparr>vm_storage = st, vm_active = None\<rparr>)))"

definition marf_seal :: "(bytes \<Rightarrow> bytes) \<Rightarrow> versioned_marf \<Rightarrow> marf_error + bytes \<times> versioned_marf" where
  "marf_seal h m = (case vm_active m of None \<Rightarrow> Inl WriteNotBegun | Some active \<Rightarrow> marf_seal_to h m (av_block active))"

definition marf_abort :: "versioned_marf \<Rightarrow> marf_error + versioned_marf" where
  "marf_abort m = (if vm_active m = None then Inl WriteNotBegun else Inr (m\<lparr>vm_active := None\<rparr>))"

definition marf_discard_above :: "versioned_marf \<Rightarrow> u32 \<Rightarrow> marf_error + nat \<times> versioned_marf" where
  "marf_discard_above m height = (if vm_active m \<noteq> None then Inl WriteInProgress
     else let (n, st) = storage_discard_above (vm_storage m) height in Inr (n, m\<lparr>vm_storage := st\<rparr>))"

section \<open>Reading\<close>

definition sealed_root :: "trie_storage \<Rightarrow> bytes \<Rightarrow> marf_error + trie_node option" where
  "sealed_root st block = bind_e (storage_block st block) (\<lambda>found. case found of
       None \<Rightarrow> Inr None
     | Some r \<Rightarrow> (case br_node r of None \<Rightarrow> Inr None
         | Some index \<Rightarrow> bind_e (storage_node st (br_id r) index) (\<lambda>node. Inr (Some node))))"

definition marf_get_path :: "versioned_marf \<Rightarrow> bytes \<Rightarrow> bytes \<Rightarrow> marf_error + bytes option" where
  "marf_get_path m block path = bind_e (sealed_root (vm_storage m) block) (\<lambda>root. case root of
       None \<Rightarrow> Inr None | Some node \<Rightarrow> trie_get (vm_storage m) node path)"

definition marf_get :: "(bytes \<Rightarrow> bytes) \<Rightarrow> versioned_marf \<Rightarrow> bytes \<Rightarrow> bytes \<Rightarrow> marf_error + bytes option" where
  "marf_get h m block key = marf_get_path m block (key_path h key)"

definition get_active_path :: "versioned_marf \<Rightarrow> bytes \<Rightarrow> marf_error + bytes option" where
  "get_active_path m path = (case vm_active m of
       None \<Rightarrow> Inr None | Some active \<Rightarrow> find_path (vm_storage m) (av_root_children active) path)"

definition get_active :: "(bytes \<Rightarrow> bytes) \<Rightarrow> versioned_marf \<Rightarrow> bytes \<Rightarrow> marf_error + bytes option" where
  "get_active h m key = get_active_path m (key_path h key)"

definition marf_contains :: "versioned_marf \<Rightarrow> bytes \<Rightarrow> marf_error + bool" where
  "marf_contains m block = bind_e (storage_block (vm_storage m) block) (\<lambda>found. Inr (found \<noteq> None))"

definition marf_root :: "versioned_marf \<Rightarrow> bytes \<Rightarrow> marf_error + bytes option" where
  "marf_root m block = bind_e (storage_block (vm_storage m) block) (\<lambda>found. Inr (map_option br_root found))"

definition content_root :: "versioned_marf \<Rightarrow> bytes \<Rightarrow> marf_error + bytes option" where
  "content_root m block = bind_e (storage_block (vm_storage m) block) (\<lambda>found. Inr (map_option br_content found))"

definition marf_height :: "versioned_marf \<Rightarrow> bytes \<Rightarrow> marf_error + u32 option" where
  "marf_height m block = bind_e (storage_block (vm_storage m) block) (\<lambda>found. Inr (map_option br_height found))"

definition marf_parent :: "versioned_marf \<Rightarrow> bytes \<Rightarrow> marf_error + bytes option option" where
  "marf_parent m block = bind_e (storage_block (vm_storage m) block) (\<lambda>found. case found of
       None \<Rightarrow> Inr None
     | Some r \<Rightarrow> (case br_parent r of None \<Rightarrow> Inr (Some None)
         | Some p \<Rightarrow> bind_e (storage_block_hash (vm_storage m) p) (\<lambda>b. Inr (Some (Some b)))))"

definition marf_tip :: "versioned_marf \<Rightarrow> marf_error + bytes option" where
  "marf_tip m = storage_tip (vm_storage m)"

definition verify_tip :: "versioned_marf \<Rightarrow> marf_error + bytes option" where
  "verify_tip m = bind_e (storage_tip (vm_storage m)) (\<lambda>tip. case tip of
       None \<Rightarrow> Inr None
     | Some tip \<Rightarrow> bind_e (storage_block (vm_storage m) tip) (\<lambda>found. case found of
           None \<Rightarrow> Inl UnknownVersion
         | Some r \<Rightarrow> bind_e (sealed_root (vm_storage m) tip) (\<lambda>root.
             if root = None \<and> br_node r \<noteq> None then Inl UnknownVersion
             else bind_e (storage_jumps (vm_storage m) tip) (\<lambda>jumps.
               bind_e (ancestor_roots_for (vm_storage m) jumps) (\<lambda>_. Inr (Some tip))))))"

text \<open>\<open>u32::ilog2\<close>\<close>

fun ilog2 :: "nat \<Rightarrow> nat" where
  "ilog2 n = (if n < 2 then 0 else Suc (ilog2 (n div 2)))"

declare ilog2.simps [simp del]

text \<open>The walk to an ancestor is a loop over stored rows, whose heights need not fall in a database that is
  not well formed: not returning is \<open>None\<close>.\<close>

partial_function (option) walk_to_height ::
  "trie_storage \<Rightarrow> u32 \<Rightarrow> block_record \<Rightarrow> (marf_error + bytes option) option" where
  "walk_to_height st height r =
     (if height < br_height r then
        (case storage_jumps st (br_hash r) of
           Inl e \<Rightarrow> Some (Inl e)
         | Inr jumps \<Rightarrow>
             (let k = ilog2 (unat (br_height r - height)) in
              if k < length jumps then
                (case storage_block st (jumps ! k) of
                   Inl e \<Rightarrow> Some (Inl e)
                 | Inr None \<Rightarrow> Some (Inr None)
                 | Inr (Some next) \<Rightarrow> walk_to_height st height next)
              else Some (Inr None)))
      else Some (Inr (if br_height r = height then Some (br_hash r) else None)))"

definition block_at_height :: "versioned_marf \<Rightarrow> bytes \<Rightarrow> u32 \<Rightarrow> (marf_error + bytes option) option" where
  "block_at_height m block height = (case storage_block (vm_storage m) block of
       Inl e \<Rightarrow> Some (Inl e)
     | Inr None \<Rightarrow> Some (Inr None)
     | Inr (Some r) \<Rightarrow> walk_to_height (vm_storage m) height r)"

end
