(* ===== verification/Marf_Rows.thy ===== *)
theory Marf_Rows
  imports Versioned_Marf
begin

text \<open>
  The rows of a MARF database that only this code has written: what its two tables satisfy, the part of the
  database up to a height, and the ancestors of a row.
\<close>

section \<open>Reading more rows\<close>

lemma times_r_mono:
  "(\<And>r y. p r = Inr y \<Longrightarrow> q r = Inr y) \<Longrightarrow> times_r n p r = Inr y \<Longrightarrow> times_r n q r = Inr y"
  by (induction n arbitrary: r y) (fastforce simp: bind_r_def split: sum.splits)+

lemma decode_child_mono:
  assumes "\<And>b x. bh b = Inr x \<Longrightarrow> bh' b = Inr x" "decode_child bh block r = Inr y"
  shows "decode_child bh' block r = Inr y"
proof -
  obtain child r' where "y = (child, r')" by fastforce
  with assms(2) show ?thesis by (fastforce simp: decode_child_def dest!: assms(1) split: if_splits)
qed

lemma decode_node_mono:
  assumes "\<And>b x. bh b = Inr x \<Longrightarrow> bh' b = Inr x" "decode_node bh block data = Inr node"
  shows "decode_node bh' block data = Inr node"
proof -
  have "times_r n (decode_child bh' block) r = Inr y" if "times_r n (decode_child bh block) r = Inr y" for n r y
    using times_r_mono [OF decode_child_mono [OF assms(1)] that] .
  with assms(2) show ?thesis
    by (fastforce simp: decode_node_def decode_record_def bind_r_def split: sum.splits if_splits)
qed

lemma storage_le_rows:
  assumes "\<And>k x. ts_nodes st k = Some x \<Longrightarrow> ts_nodes st' k = Some x"
    and "\<And>b x. storage_block_hash st b = Inr x \<Longrightarrow> storage_block_hash st' b = Inr x"
  shows "storage_le st st'"
  using assms decode_node_mono [of "storage_block_hash st" "storage_block_hash st'"]
  unfolding storage_le_def storage_node_def storage_node_hash_def by (fastforce split: option.splits)

lemma child_owned_mono: "storage_le st st' \<Longrightarrow> child_owned st child = Inr x \<Longrightarrow> child_owned st' child = Inr x"
  by (cases "tc_referenced_block child")
    (auto simp: child_owned_def storage_le_def bind_e_Inr_iff split: child_target.splits)

lemma find_update_mono:
  assumes "\<And>x y. f x = Inr y \<Longrightarrow> g x = Inr y"
  shows "(find_update P f xs = None \<longleftrightarrow> find_update P g xs = None) \<and>
    (\<forall>ys. find_update P f xs = Some (Inr ys) \<longrightarrow> find_update P g xs = Some (Inr ys))"
  using assms by (induction xs) (auto simp: bind_e_Inr_iff find_update_None)

lemma trie_insert_mono:
  "storage_le st st' \<Longrightarrow> trie_insert st node path v = Inr node' \<Longrightarrow> trie_insert st' node path v = Inr node'"
proof (induction "length path" arbitrary: node path node' rule: less_induct)
  case less
  show ?case
  proof (cases node)
    case (Internal p children)
    let ?f = "\<lambda>st child. bind_e (child_owned st child) (\<lambda>node. bind_e (trie_insert st node (drop (length p + 1) path) v)
      (\<lambda>node'. Inr (TrieChild (tc_character child) None (Memory node'))))"
    show ?thesis
    proof (cases "length p < length path \<and> \<not> shared_prefix p path < length p")
      case True
      then have "?f st' x = Inr y" if "?f st x = Inr y" for x y
        using that less.hyps [of "drop (length p + 1) path"] child_owned_mono [OF less.prems(1)] less.prems(1)
        by (auto simp: bind_e_Inr_iff)
      from find_update_mono [of "?f st" "?f st'" "\<lambda>child. tc_character child = path ! length p" children, OF this]
        True less.prems(2) Internal show ?thesis
        by (auto simp: trie_insert.simps(2) Let_def bind_e_Inr_iff split: option.splits if_splits)
    qed (use less.prems(2) Internal in \<open>auto simp: trie_insert.simps(2) Let_def split: if_splits\<close>)
  qed (use less.prems(2) in \<open>simp add: trie_insert.simps(1)\<close>)
qed

lemma insert_under_root_mono:
  assumes "storage_le st st'" "insert_under_root st children path v = Inr children'"
  shows "insert_under_root st' children path v = Inr children'"
proof -
  have "child_insert st' x (tl path) v = Inr y" if "child_insert st x (tl path) v = Inr y" for x y
    using that child_owned_mono [OF assms(1)] trie_insert_mono [OF assms(1)] by (auto simp: child_insert_def bind_e_Inr_iff)
  from find_update_mono [of "\<lambda>child. child_insert st child (tl path) v" "\<lambda>child. child_insert st' child (tl path) v", OF this]
  show ?thesis using assms(2) by (auto simp: insert_under_root_def split: option.splits)
qed

section \<open>Persisting reads no rows\<close>

definition grow :: "trie_storage \<Rightarrow> (u32 \<times> u32 \<rightharpoonup> bytes \<times> bytes) \<Rightarrow> trie_storage" where
  "grow st w = st\<lparr>ts_nodes := ts_nodes st ++ w\<rparr>"

lemma grow_simps [simp]:
  "ts_blocks (grow st w) = ts_blocks st" "ts_nodes (grow st w) = ts_nodes st ++ w" "ts_sequence (grow st w) = ts_sequence st"
  "grow (grow st w) w' = grow st (w ++ w')" "grow st Map.empty = st"
  by (simp_all add: grow_def)

text \<open>A write that does the same to every storage: it fails with one error, or adds the same rows of one block.\<close>

definition uniform :: "u32 \<Rightarrow> (trie_storage \<Rightarrow> marf_error + (trie_storage \<times> 'a)) \<Rightarrow> bool" where
  "uniform block f \<longleftrightarrow> (\<exists>e. \<forall>st. f st = Inl e) \<or>
     (\<exists>w r. dom w \<subseteq> {block} \<times> UNIV \<and> (\<forall>st. f st = Inr (grow st w, r)))"

lemma uniform_Inl [simp]: "uniform block (\<lambda>st. Inl e)"
  by (auto simp: uniform_def)

lemma uniform_Inr [simp]: "uniform block (\<lambda>st. Inr (st, r))"
  unfolding uniform_def by (rule disjI2, rule exI [of _ Map.empty]) auto

lemma uniform_bind:
  assumes "uniform block f" "\<And>r. uniform block (\<lambda>st. g st r)"
  shows "uniform block (\<lambda>st. bind_e (f st) (\<lambda>(st', r). g st' r))"
  using assms(1) unfolding uniform_def [of block f]
proof (elim disjE exE conjE)
  fix w r
  assume w: "dom w \<subseteq> {block} \<times> UNIV" "\<forall>st. f st = Inr (grow st w, r)"
  from assms(2) [of r] show ?thesis unfolding uniform_def
  proof (elim disjE exE conjE)
    fix w' r'
    assume "dom w' \<subseteq> {block} \<times> UNIV" "\<forall>st. g st r = Inr (grow st w', r')"
    with w show "(\<exists>e. \<forall>st. bind_e (f st) (\<lambda>(st', r). g st' r) = Inl e) \<or>
      (\<exists>w r. dom w \<subseteq> {block} \<times> UNIV \<and> (\<forall>st. bind_e (f st) (\<lambda>(st', r). g st' r) = Inr (grow st w, r)))"
      by (intro disjI2 exI [of _ "w ++ w'"] exI [of _ r']) auto
  qed (use w in auto)
qed (auto simp: uniform_def)

lemma uniform_write: "uniform block (\<lambda>st. write_node st block index hash node)"
proof (cases "encode_node node")
  case (Inr data)
  let ?w = "[(block, index) \<mapsto> (hash, data)]"
  have "st\<lparr>ts_nodes := (ts_nodes st)((block, index) \<mapsto> (hash, data))\<rparr> = grow st ?w" for st by (simp add: grow_def)
  then have "insert_node st block index hash node = Inr (grow st ?w)" for st by (simp add: insert_node_def Inr)
  then show ?thesis
    unfolding uniform_def write_node_def
    by (cases "checked_add index 1") (auto intro!: exI [of _ ?w] split: if_splits)
qed (cases "checked_add index 1"; simp add: write_node_def insert_node_def)

lemma uniform_const: "(\<And>x. uniform block (\<lambda>st. g st x)) \<Longrightarrow> uniform block (\<lambda>st. bind_e c (\<lambda>x. g st x))"
  by (cases c) auto

lemma uniform_store:
  "uniform block (\<lambda>st. bind_e (write_node st block next hash node) (\<lambda>(st', next', index). Inr (st', next', r index)))"
  by (rule uniform_bind [OF uniform_write]) (simp add: case_prod_unfold)

lemma uniform_then:
  assumes "uniform block f" "\<And>n a b. uniform block (\<lambda>st. g st n a b)"
  shows "uniform block (\<lambda>st. bind_e (f st) (\<lambda>(st', n, a, b). g st' n a b))"
proof -
  have "uniform block (\<lambda>st. case r of (n, a, b) \<Rightarrow> g st n a b)" for r
    using assms(2) by (cases r) auto
  from uniform_bind [OF assms(1) this] show ?thesis by (simp add: case_prod_unfold)
qed

lemma uniform_then3:
  assumes "uniform block f" "\<And>n i a b. uniform block (\<lambda>st. g st n i a b)"
  shows "uniform block (\<lambda>st. bind_e (f st) (\<lambda>(st', n, i, a, b). g st' n i a b))"
proof -
  have "uniform block (\<lambda>st. case r of (n, i, a, b) \<Rightarrow> g st n i a b)" for r
    using assms(2) by (cases r) auto
  from uniform_bind [OF assms(1) this] show ?thesis by (simp add: case_prod_unfold)
qed

lemma persist_uniform:
  "active_node s node \<Longrightarrow> uniform block (\<lambda>st. persist_node h block st next node)"
  "list_all (active_child s) children \<Longrightarrow> uniform block (\<lambda>st. persist_children h block st next children)"
proof (induction h block s "next" node and h block s "next" children rule: persist_node_persist_children.induct)
  case (1 h block s "next" path v)
  show ?case unfolding persist_node.simps by (intro uniform_const uniform_store)
next
  case (2 h block s "next" path children)
  then have "uniform block (\<lambda>st. persist_children h block st next children)" by simp
  then show ?case unfolding persist_node.simps by (intro uniform_then uniform_const uniform_store)
next
  case (4 h block s "next" c referenced node children)
  then have ih: "uniform block (\<lambda>st. persist_node h block st next node)" "referenced = None"
      "uniform block (\<lambda>st. persist_children h block st n children)" for n
    by auto
  then show ?case by (auto intro!: uniform_then3 uniform_then)
next
  case (5 h block s "next" c referenced owner index kind children)
  then have ih: "uniform block (\<lambda>st. persist_children h block st next children)" "referenced \<noteq> None"
    by auto
  then show ?case by (auto intro!: uniform_then)
qed simp

lemma persist_root_uniform:
  assumes "list_all (active_child s) children"
  shows "uniform block (\<lambda>st. persist_root h block st 0 children)"
  unfolding persist_root_def
  by (intro uniform_then persist_uniform(2) [OF assms] uniform_const, rule uniform_bind [OF uniform_write])
    (simp add: case_prod_unfold)

section \<open>Rows\<close>

definition rows_distinct :: "trie_storage \<Rightarrow> bool" where
  "rows_distinct st \<longleftrightarrow> distinct (map br_id (ts_blocks st)) \<and> distinct (map br_hash (ts_blocks st))"

lemma find_distinct:
  "distinct (map f xs) \<Longrightarrow> List.find (\<lambda>x. f x = y) xs = Some x \<longleftrightarrow> x \<in> set xs \<and> f x = y"
  by (induction xs) auto

lemma rows_eqI:
  assumes "rows_distinct st" "r \<in> set (ts_blocks st)" "s \<in> set (ts_blocks st)" "br_id r = br_id s \<or> br_hash r = br_hash s"
  shows "r = s"
  using assms by (auto simp: rows_distinct_def distinct_map dest: inj_onD)

lemma find_row:
  assumes "rows_distinct st"
  shows "List.find (\<lambda>r. br_id r = i) (ts_blocks st) = Some r \<longleftrightarrow> r \<in> set (ts_blocks st) \<and> br_id r = i"
    "List.find (\<lambda>r. br_hash r = b) (ts_blocks st) = Some r \<longleftrightarrow> r \<in> set (ts_blocks st) \<and> br_hash r = b"
  using assms by (simp_all add: rows_distinct_def find_distinct)

lemma storage_block_hash_iff:
  assumes "rows_distinct st"
  shows "storage_block_hash st i = Inr b \<longleftrightarrow> (\<exists>r \<in> set (ts_blocks st). br_id r = i \<and> br_hash r = b \<and> length b = 32)"
proof -
  have "storage_block_hash st i = Inr b \<longleftrightarrow>
      (\<exists>r. List.find (\<lambda>r. br_id r = i) (ts_blocks st) = Some r \<and> br_hash r = b \<and> length b = 32)"
    by (auto simp: storage_block_hash_def as_block_id_def split: option.splits)
  then show ?thesis unfolding find_row [OF assms] by blast
qed

section \<open>The rows up to a height\<close>

definition rows_upto :: "trie_storage \<Rightarrow> u32 \<Rightarrow> trie_storage" where
  "rows_upto st height = snd (storage_discard_above st height)"

lemma upto_simps [simp]:
  "ts_blocks (rows_upto st height) = filter (\<lambda>r. br_height r \<le> height) (ts_blocks st)"
  "ts_sequence (rows_upto st height) = ts_sequence st"
  by (simp_all add: rows_upto_def storage_discard_above_def Let_def not_less)

lemma ts_nodes_upto:
  "ts_nodes (rows_upto st height) k =
    (if \<exists>r \<in> set (ts_blocks st). height < br_height r \<and> br_id r = fst k then None else ts_nodes st k)"
proof -
  have "(fst k \<in> br_id ` set (filter (\<lambda>r. height < br_height r) (ts_blocks st))) =
      (\<exists>r \<in> set (ts_blocks st). height < br_height r \<and> br_id r = fst k)"
    unfolding image_iff set_filter by (metis (mono_tags, lifting) mem_Collect_eq)
  then show ?thesis by (simp only: rows_upto_def storage_discard_above_def Let_def snd_conv) simp
qed

lemma rows_distinct_upto: "rows_distinct st \<Longrightarrow> rows_distinct (rows_upto st height)"
  by (simp add: rows_distinct_def distinct_map_filter)

lemma upto_le: "rows_distinct st \<Longrightarrow> storage_le (rows_upto st height) st"
  by (rule storage_le_rows)
    (auto simp: ts_nodes_upto storage_block_hash_iff rows_distinct_upto split: if_splits)

lemma upto_upto:
  assumes "height \<le> height'"
  shows "rows_upto (rows_upto st height') height = rows_upto st height"
proof (rule trie_storage.equality)
  have "(\<exists>r \<in> set (ts_blocks st). height < br_height r \<and> br_id r = b) \<longleftrightarrow>
      (\<exists>r \<in> set (ts_blocks st). height' < br_height r \<and> br_id r = b) \<or>
      (\<exists>r \<in> set (ts_blocks st). br_height r \<le> height' \<and> height < br_height r \<and> br_id r = b)" for b
    using assms by (meson not_less order.strict_trans1)
  then show "ts_nodes (rows_upto (rows_upto st height') height) = ts_nodes (rows_upto st height)"
    by (auto simp: fun_eq_iff ts_nodes_upto)
  have "br_height r \<le> height \<Longrightarrow> br_height r \<le> height'" for r using assms by (rule order_trans [rotated])
  then show "ts_blocks (rows_upto (rows_upto st height') height) = ts_blocks (rows_upto st height)"
    by (auto intro: filter_cong)
qed simp_all

lemma upto_mono: "rows_distinct st \<Longrightarrow> height \<le> height' \<Longrightarrow> storage_le (rows_upto st height) (rows_upto st height')"
  using upto_le [OF rows_distinct_upto [of st height'], of height] by (simp add: upto_upto)

section \<open>Ancestors\<close>

primrec ancestor :: "trie_storage \<Rightarrow> nat \<Rightarrow> block_record \<Rightarrow> block_record \<Rightarrow> bool" where
  "ancestor st 0 r a \<longleftrightarrow> a = r"
| "ancestor st (Suc n) r a \<longleftrightarrow> (\<exists>p \<in> set (ts_blocks st). br_parent r = Some (br_id p) \<and> ancestor st n p a)"

lemma ancestor_add: "ancestor st (m + n) r a \<longleftrightarrow> (\<exists>b. ancestor st m r b \<and> ancestor st n b a)"
  by (induction m arbitrary: r) auto

lemma ancestor_mono:
  "set (ts_blocks st) \<subseteq> set (ts_blocks st') \<Longrightarrow> ancestor st n r a \<Longrightarrow> ancestor st' n r a"
  by (induction n arbitrary: r) auto

lemma ancestor_row: "ancestor st n r a \<Longrightarrow> r \<in> set (ts_blocks st) \<Longrightarrow> a \<in> set (ts_blocks st)"
  by (induction n arbitrary: r) auto

lemma ancestor_unique:
  "rows_distinct st \<Longrightarrow> ancestor st n r a \<Longrightarrow> ancestor st n r b \<Longrightarrow> a = b"
  by (induction n arbitrary: r) (auto dest: rows_eqI)

definition parent_ok :: "trie_storage \<Rightarrow> block_record \<Rightarrow> bool" where
  "parent_ok st r \<longleftrightarrow> (case br_parent r of
       None \<Rightarrow> br_height r = 0
     | Some i \<Rightarrow> \<exists>p \<in> set (ts_blocks st). br_id p = i \<and> unat (br_height r) = Suc (unat (br_height p)))"

text \<open>The table of a row: its ancestors at the distances 1, 2, 4 and so on up to its height.\<close>

definition table_ok :: "trie_storage \<Rightarrow> block_record \<Rightarrow> bytes list \<Rightarrow> bool" where
  "table_ok st r js \<longleftrightarrow> (\<forall>k. k < length js \<longleftrightarrow> 2 ^ k \<le> unat (br_height r)) \<and>
     (\<forall>k < length js. \<exists>a. ancestor st (2 ^ k) r a \<and> br_hash a = js ! k)"

lemma ancestor_exists:
  assumes "\<forall>r \<in> set (ts_blocks st). parent_ok st r" "r \<in> set (ts_blocks st)" "n \<le> unat (br_height r)"
  obtains a where "ancestor st n r a" "unat (br_height a) = unat (br_height r) - n"
  using assms(2,3)
proof (induction n arbitrary: r thesis)
  case (Suc n)
  with assms(1) obtain p where p: "p \<in> set (ts_blocks st)" "br_parent r = Some (br_id p)" "unat (br_height r) = Suc (unat (br_height p))"
    by (fastforce simp: parent_ok_def split: option.splits)
  with Suc.prems(3) Suc.IH [of p] obtain a where "ancestor st n p a" "unat (br_height a) = unat (br_height p) - n" by auto
  with p Suc.prems(1) [of a] show ?case by auto
qed simp

lemma ancestor_height:
  assumes "rows_distinct st" "\<forall>r \<in> set (ts_blocks st). parent_ok st r" "r \<in> set (ts_blocks st)" "ancestor st n r a"
  shows "n \<le> unat (br_height r)" "unat (br_height a) = unat (br_height r) - n"
proof -
  have "n + unat (br_height a) = unat (br_height r)"
    using assms(3,4)
  proof (induction n arbitrary: r)
    case (Suc n)
    then obtain p where p: "p \<in> set (ts_blocks st)" "br_parent r = Some (br_id p)" "ancestor st n p a" by auto
    with assms(2) Suc.prems(1) obtain q where "q \<in> set (ts_blocks st)" "br_id q = br_id p"
        "unat (br_height r) = Suc (unat (br_height q))"
      by (fastforce simp: parent_ok_def)
    with rows_eqI [OF assms(1) _ p(1)] Suc.IH [OF p(1,3)] show ?case by auto
  qed simp
  then show "n \<le> unat (br_height r)" "unat (br_height a) = unat (br_height r) - n" by simp_all
qed

end
