(* ===== verification/Marf_Invariant.thy ===== *)
theory Marf_Invariant
  imports Marf_Rows
begin

text \<open>
  The invariant of a MARF database and of the state being written, and what it gives: reads that do not fail,
  the ancestor table and the walk to an ancestor at a height.
\<close>

section \<open>Well-formed databases\<close>

text \<open>The root node of a sealed state can be read, to its leaves, from the rows up to the state's height.\<close>

definition sealed_ok :: "trie_storage \<Rightarrow> block_record \<Rightarrow> bool" where
  "sealed_ok st r \<longleftrightarrow> (\<exists>index children. br_node r = Some index \<and>
     storage_node (rows_upto st (br_height r)) (br_id r) index = Inr (Internal [] children) \<and>
     children_ok (rows_upto st (br_height r)) 31 children)"

definition row_ok :: "trie_storage \<Rightarrow> block_record \<Rightarrow> bool" where
  "row_ok st r \<longleftrightarrow> length (br_hash r) = 32 \<and> length (br_root r) = 32 \<and> length (br_content r) = 32 \<and>
     unat (br_id r) \<le> ts_sequence st \<and> parent_ok st r \<and> sealed_ok st r \<and>
     (\<exists>js. br_jumps r = concat js \<and> table_ok st r js)"

definition storage_ok :: "trie_storage \<Rightarrow> bool" where
  "storage_ok st \<longleftrightarrow> rows_distinct st \<and> ts_sequence st < 2 ^ 32 \<and> (\<forall>r \<in> set (ts_blocks st). row_ok st r) \<and>
     (\<forall>k. ts_nodes st k \<noteq> None \<longrightarrow> (\<exists>r \<in> set (ts_blocks st). br_id r = fst k))"

text \<open>The state being written has a sealed parent one below it, and its stored nodes are at most at its height.\<close>

definition active_ok :: "trie_storage \<Rightarrow> active_version \<Rightarrow> bool" where
  "active_ok st a \<longleftrightarrow> root_ok (rows_upto st (av_height a)) (av_root_children a) \<and>
     (case av_parent a of
        None \<Rightarrow> av_height a = 0
      | Some p \<Rightarrow> \<exists>r \<in> set (ts_blocks st). br_hash r = p \<and> unat (av_height a) = Suc (unat (br_height r)))"

definition marf_ok :: "versioned_marf \<Rightarrow> bool" where
  "marf_ok m \<longleftrightarrow> storage_ok (vm_storage m) \<and> (\<forall>a. vm_active m = Some a \<longrightarrow> active_ok (vm_storage m) a)"

lemma storage_okD:
  assumes "storage_ok st"
  shows "rows_distinct st" "\<forall>r \<in> set (ts_blocks st). parent_ok st r"
    "r \<in> set (ts_blocks st) \<Longrightarrow> row_ok st r"
  using assms by (auto simp: storage_ok_def row_ok_def)

definition find_block :: "trie_storage \<Rightarrow> bytes \<Rightarrow> block_record option" where
  "find_block st b = List.find (\<lambda>r. br_hash r = b) (ts_blocks st)"

lemma find_block_Some:
  "storage_ok st \<Longrightarrow> find_block st b = Some r \<longleftrightarrow> r \<in> set (ts_blocks st) \<and> br_hash r = b"
  by (simp add: find_block_def find_row storage_okD)

lemma find_block_row: "storage_ok st \<Longrightarrow> r \<in> set (ts_blocks st) \<Longrightarrow> find_block st (br_hash r) = Some r"
  by (simp add: find_block_Some)

lemma find_block_None: "find_block st b = None \<longleftrightarrow> b \<notin> br_hash ` set (ts_blocks st)"
  by (auto simp: find_block_def find_None_iff)

lemma storage_block_ok:
  assumes "storage_ok st"
  shows "storage_block st b = Inr (find_block st b)"
proof (cases "find_block st b")
  case (Some r)
  then have "row_ok st r" using find_block_Some [OF assms] storage_okD(3) [OF assms] by blast
  with Some show ?thesis by (simp add: storage_block_def find_block_def as_block_id_def row_ok_def)
qed (simp add: storage_block_def find_block_def)

lemma chunks32_concat: "\<forall>j \<in> set js. length j = 32 \<Longrightarrow> chunks32 (concat js) = js"
proof (induction js)
  case (Cons j js)
  then have "j @ concat js \<noteq> []" by auto
  then show ?case using Cons by (simp add: chunks32.simps [of "j @ concat js"])
qed (simp add: chunks32.simps)

lemma storage_jumps_ok:
  assumes "storage_ok st" "r \<in> set (ts_blocks st)"
  obtains js where "storage_jumps st (br_hash r) = Inr js" "table_ok st r js"
proof -
  obtain js where js: "br_jumps r = concat js" "table_ok st r js"
    using storage_okD(3) [OF assms] by (auto simp: row_ok_def)
  have len: "\<forall>j \<in> set js. length j = 32"
  proof
    fix j assume "j \<in> set js"
    then obtain a where "a \<in> set (ts_blocks st)" "br_hash a = j"
      using js(2) ancestor_row [OF _ assms(2)] unfolding table_ok_def in_set_conv_nth by metis
    then show "length j = 32" using storage_okD(3) [OF assms(1)] by (auto simp: row_ok_def)
  qed
  have "map_e as_block_id js = Inr js" using len by (induction js) (auto simp: as_block_id_def)
  then have "storage_jumps st (br_hash r) = Inr js"
    using find_block_row [OF assms] js(1) chunks32_concat [OF len] by (simp add: storage_jumps_def find_block_def)
  with js(2) that show ?thesis by blast
qed

section \<open>The ancestor table\<close>

text \<open>The table of a state to be sealed above the row \<open>p\<close>: its entry \<open>k\<close> is the ancestor of \<open>p\<close> at distance \<open>2 ^ k - 1\<close>.\<close>

definition table_above :: "trie_storage \<Rightarrow> block_record \<Rightarrow> bytes list \<Rightarrow> bool" where
  "table_above st p js \<longleftrightarrow> (\<forall>k < length js. \<exists>a. ancestor st (2 ^ k - 1) p a \<and> br_hash a = js ! k)"

lemma table_above_step:
  assumes ok: "storage_ok st" "p \<in> set (ts_blocks st)" "unat height = Suc (unat (br_height p))"
    and js: "table_above st p js" "length js = Suc k" "2 ^ Suc k \<le> unat height"
  obtains table where "storage_jumps st (js ! k) = Inr table" "k < length table" "table_above st p (js @ [table ! k])"
proof -
  obtain a where a: "ancestor st (2 ^ k - 1) p a" "br_hash a = js ! k" using js(1,2) by (auto simp: table_above_def)
  have row: "a \<in> set (ts_blocks st)" using ancestor_row [OF a(1) ok(2)] .
  obtain table where table: "storage_jumps st (br_hash a) = Inr table" "table_ok st a table"
    using storage_jumps_ok [OF ok(1) row] .
  have "unat (br_height a) = unat (br_height p) - (2 ^ k - 1)"
    using ancestor_height(2) [OF storage_okD(1,2) [OF ok(1)] ok(2) a(1)] .
  then have "2 ^ k \<le> unat (br_height a)" using js(3) ok(3) by simp
  then have k: "k < length table" using table(2) by (simp add: table_ok_def)
  then obtain b where b: "ancestor st (2 ^ k) a b" "br_hash b = table ! k" using table(2) by (auto simp: table_ok_def)
  then have "ancestor st (2 ^ k - 1 + 2 ^ k) p b" using a(1) ancestor_add by blast
  moreover have "(2 :: nat) ^ k - 1 + 2 ^ k = 2 ^ Suc k - 1" by simp
  ultimately have b': "ancestor st (2 ^ Suc k - 1) p b" by metis
  have "table_above st p (js @ [table ! k])"
    unfolding table_above_def
  proof (intro allI impI)
    fix i assume "i < length (js @ [table ! k])"
    then consider "i < length js" | "i = Suc k" using js(2) by fastforce
    then show "\<exists>a. ancestor st (2 ^ i - 1) p a \<and> br_hash a = (js @ [table ! k]) ! i"
      using js(1,2) b' b(2) by cases (auto simp: table_above_def nth_append)
  qed
  with table(1) k a(2) that show ?thesis by metis
qed

lemma jumps_from_ok:
  assumes ok: "storage_ok st" "p \<in> set (ts_blocks st)" "unat height = Suc (unat (br_height p))"
    and js: "table_above st p js" "length js = Suc k" "\<forall>i \<le> k. 2 ^ i \<le> unat height"
  shows "\<exists>js'. jumps_from st height (Suc k) js = Inr js' \<and> table_above st p js' \<and>
    (\<forall>i. i < length js' \<longleftrightarrow> 2 ^ i \<le> unat height)"
  using js
proof (induction "unat height - k" arbitrary: k js rule: less_induct)
  case less
  show ?case
  proof (cases "2 ^ Suc k \<le> unat height")
    case True
    obtain table where table: "storage_jumps st (js ! k) = Inr table" "k < length table" "table_above st p (js @ [table ! k])"
      using table_above_step [OF ok less.prems(1,2) True] .
    have "k < unat height" using True less_exp [of "Suc k"] by linarith
    then have "unat height - Suc k < unat height - k" by simp
    from less.hyps [OF this table(3)] less.prems(2,3) True
    have "\<exists>js'. jumps_from st height (Suc (Suc k)) (js @ [table ! k]) = Inr js' \<and> table_above st p js' \<and>
        (\<forall>i. i < length js' \<longleftrightarrow> 2 ^ i \<le> unat height)"
      by (auto simp: le_Suc_eq)
    with True table(1,2) show ?thesis by (simp add: jumps_from.simps [of st height "Suc k"])
  next
    case False
    have "i < length js \<longleftrightarrow> 2 ^ i \<le> unat height" for i
    proof (cases "i \<le> k")
      case False
      then have "(2 :: nat) ^ Suc k \<le> 2 ^ i" by (intro power_increasing) auto
      with \<open>\<not> 2 ^ Suc k \<le> unat height\<close> False less.prems(2) show ?thesis by auto
    qed (use less.prems in auto)
    with False less.prems(1) show ?thesis by (simp add: jumps_from.simps [of st height "Suc k"])
  qed
qed

lemma ancestor_roots_for_ok:
  assumes "storage_ok st" "\<forall>j \<in> set js. j \<in> br_hash ` set (ts_blocks st)"
  shows "\<exists>roots. ancestor_roots_for st js = Inr roots"
  using assms(2)
proof (induction js)
  case (Cons j js)
  then have "find_block st j \<noteq> None" by (simp add: find_block_None)
  with Cons show ?case by (auto simp: ancestor_roots_for_def storage_block_ok [OF assms(1)])
qed (simp add: ancestor_roots_for_def)

text \<open>The jumps of the state being written, and the roots of the states they name.\<close>

lemma active_jumps:
  assumes "storage_ok st" "active_ok st a"
  obtains js roots where "marf_jumps st (av_parent a) (av_height a) = Inr js" "ancestor_roots_for st js = Inr roots"
    "\<forall>i. i < length js \<longleftrightarrow> 2 ^ i \<le> unat (av_height a)"
    "\<And>p. p \<in> set (ts_blocks st) \<Longrightarrow> av_parent a = Some (br_hash p) \<Longrightarrow> table_above st p js"
proof (cases "av_parent a")
  case None
  then have "av_height a = 0" using assms(2) by (simp add: active_ok_def)
  with None show ?thesis
    by (intro that [of "[]" "[]"]) (simp_all add: marf_jumps_def ancestor_roots_for_def)
next
  case (Some h)
  then have "\<exists>p \<in> set (ts_blocks st). br_hash p = h \<and> unat (av_height a) = Suc (unat (br_height p))"
    using assms(2) by (simp add: active_ok_def)
  then obtain p where p: "p \<in> set (ts_blocks st)" "br_hash p = h" "unat (av_height a) = Suc (unat (br_height p))"
    by blast
  have "table_above st p [h]" using p(2) by (simp add: table_above_def)
  moreover have "\<forall>i \<le> 0. 2 ^ i \<le> unat (av_height a)" using p(3) by simp
  ultimately obtain js where js: "jumps_from st (av_height a) 1 [h] = Inr js" "table_above st p js"
      "\<forall>i. i < length js \<longleftrightarrow> 2 ^ i \<le> unat (av_height a)"
    using jumps_from_ok [OF assms(1) p(1,3), of "[h]" 0] by (metis One_nat_def length_Cons list.size(3))
  have "j \<in> br_hash ` set (ts_blocks st)" if j: "j \<in> set js" for j
  proof -
    obtain k where "k < length js" "js ! k = j" using j by (auto simp: in_set_conv_nth)
    with js(2) obtain b where "ancestor st (2 ^ k - 1) p b" "br_hash b = j" by (auto simp: table_above_def)
    with ancestor_row [OF _ p(1)] show ?thesis by blast
  qed
  then obtain roots where "ancestor_roots_for st js = Inr roots" using ancestor_roots_for_ok [OF assms(1)] by blast
  moreover have "table_above st q js" if "q \<in> set (ts_blocks st)" "av_parent a = Some (br_hash q)" for q
  proof -
    have "br_hash q = br_hash p" using that(2) Some p(2) by simp
    then have "q = p" by (intro rows_eqI [OF storage_okD(1) [OF assms(1)] that(1) p(1)] disjI2)
    with js(2) show ?thesis by simp
  qed
  moreover have "marf_jumps st (av_parent a) (av_height a) = Inr js" using js(1) Some by (simp add: marf_jumps_def)
  ultimately show ?thesis using js(3) by (intro that [of js roots])
qed

section \<open>The walk to an ancestor\<close>

lemma ilog2_le: "0 < n \<Longrightarrow> 2 ^ ilog2 n \<le> n"
proof (induction n rule: ilog2.induct)
  case (1 n)
  show ?case
  proof (cases "n < 2")
    case False
    then have "2 * 2 ^ ilog2 (n div 2) \<le> 2 * (n div 2)" using 1 by simp
    also have "\<dots> \<le> n" by simp
    finally show ?thesis using False by (simp add: ilog2.simps [of n])
  qed (use 1 in \<open>simp add: ilog2.simps [of n]\<close>)
qed

text \<open>The ancestor at a height: the row reached by as many parents as the heights differ.\<close>

definition ancestor_at :: "trie_storage \<Rightarrow> block_record \<Rightarrow> u32 \<Rightarrow> block_record \<Rightarrow> bool" where
  "ancestor_at st r height a \<longleftrightarrow> height \<le> br_height r \<and> ancestor st (unat (br_height r) - unat height) r a"

lemma walk_step:
  assumes ok: "storage_ok st" "r \<in> set (ts_blocks st)" "height < br_height r"
  obtains js b where "storage_jumps st (br_hash r) = Inr js" "ilog2 (unat (br_height r - height)) < length js"
    "storage_block st (js ! ilog2 (unat (br_height r - height))) = Inr (Some b)" "b \<in> set (ts_blocks st)"
    "br_height b < br_height r" "height \<le> br_height b" "\<And>a. ancestor_at st b height a \<Longrightarrow> ancestor_at st r height a"
proof -
  let ?d = "unat (br_height r) - unat height"
  let ?k = "ilog2 ?d"
  have d: "unat (br_height r - height) = ?d" using ok(3) by (simp add: unat_sub order.strict_implies_order)
  have h: "unat height < unat (br_height r)" using ok(3) by (simp add: word_less_nat_alt)
  then have k: "2 ^ ?k \<le> ?d" using ilog2_le by simp
  obtain js where js: "storage_jumps st (br_hash r) = Inr js" "table_ok st r js" using storage_jumps_ok [OF ok(1,2)] .
  then have "?k < length js" using k by (simp add: table_ok_def)
  then obtain b where b: "ancestor st (2 ^ ?k) r b" "br_hash b = js ! ?k" using js(2) by (auto simp: table_ok_def)
  have row: "b \<in> set (ts_blocks st)" using ancestor_row [OF b(1) ok(2)] .
  have hb: "unat (br_height b) = unat (br_height r) - 2 ^ ?k"
    using ancestor_height(2) [OF storage_okD(1,2) [OF ok(1)] ok(2) b(1)] .
  have "ancestor_at st r height a" if "ancestor_at st b height a" for a
  proof -
    have "ancestor st (2 ^ ?k + (unat (br_height b) - unat height)) r a"
      using that b(1) ancestor_add unfolding ancestor_at_def by blast
    moreover have "2 ^ ?k + (unat (br_height b) - unat height) = ?d" using k hb h by simp
    ultimately show ?thesis using ok(3) by (simp add: ancestor_at_def)
  qed
  moreover have "storage_block st (js ! ?k) = Inr (Some b)"
    using find_block_row [OF ok(1) row] b(2) by (simp add: storage_block_ok [OF ok(1)])
  moreover have "br_height b < br_height r" "height \<le> br_height b"
    using hb k h by (simp_all add: word_less_nat_alt word_le_nat_alt)
  ultimately show ?thesis using js(1) \<open>?k < length js\<close> row by (intro that [of js b]) (simp_all only: d)
qed

lemma walk_to_height_ok:
  assumes "storage_ok st" "r \<in> set (ts_blocks st)"
  shows "height \<le> br_height r \<Longrightarrow> \<exists>a. walk_to_height st height r = Some (Inr (Some (br_hash a))) \<and> ancestor_at st r height a"
    "br_height r < height \<Longrightarrow> walk_to_height st height r = Some (Inr None)"
proof -
  show "walk_to_height st height r = Some (Inr None)" if "br_height r < height"
  proof -
    have "\<not> height < br_height r" "br_height r \<noteq> height" using that by auto
    then show ?thesis by (simp add: walk_to_height.simps [of st height r])
  qed
  show "\<exists>a. walk_to_height st height r = Some (Inr (Some (br_hash a))) \<and> ancestor_at st r height a" if "height \<le> br_height r"
    using assms(2) that
  proof (induction "br_height r" arbitrary: r rule: less_induct)
    case less
    show ?case
    proof (cases "height < br_height r")
      case True
      obtain js b where step: "storage_jumps st (br_hash r) = Inr js" "ilog2 (unat (br_height r - height)) < length js"
          "storage_block st (js ! ilog2 (unat (br_height r - height))) = Inr (Some b)" "b \<in> set (ts_blocks st)"
          "br_height b < br_height r" "height \<le> br_height b" "\<And>a. ancestor_at st b height a \<Longrightarrow> ancestor_at st r height a"
        by (rule walk_step [OF assms(1) less.prems(1) True], rule that)
      have "walk_to_height st height r = walk_to_height st height b"
        by (subst walk_to_height.simps) (simp add: True step(1-3) Let_def)
      with less.hyps [OF step(5,4,6)] step(7) show ?thesis by auto
    next
      case False
      then have "height = br_height r" using less.prems(2) by simp
      then show ?thesis by (intro exI [of _ r]) (simp add: walk_to_height.simps [of st "br_height r" r] ancestor_at_def)
    qed
  qed
qed

section \<open>Reads do not fail\<close>

lemma children_total:
  assumes "children_ok st 31 children" "length path = 32"
  shows "\<exists>v. find_path st children path = Inr v"
proof (cases "List.find (\<lambda>child. tc_character child = path ! 0) children")
  case (Some child)
  then have "child \<in> set children" by (auto simp: find_Some_iff)
  then obtain node where "child_node st child = Inr node" "node_ok st 31 node"
    using assms(1) by (auto simp: children_ok_def child_ok_def)
  with Some trie_get_total [of st 31 node "tl path"] assms(2) show ?thesis by (simp add: find_path_def)
qed (simp add: find_path_def)

text \<open>The children below the root of a sealed state, read from the whole database.\<close>

lemma sealed_children:
  assumes "storage_ok st" "r \<in> set (ts_blocks st)"
  obtains index children where "br_node r = Some index"
    "storage_node (rows_upto st (br_height r)) (br_id r) index = Inr (Internal [] children)"
    "storage_node st (br_id r) index = Inr (Internal [] children)"
    "children_ok (rows_upto st (br_height r)) 31 children" "children_ok st 31 children"
proof -
  obtain index children where root: "br_node r = Some index"
      "storage_node (rows_upto st (br_height r)) (br_id r) index = Inr (Internal [] children)"
      "children_ok (rows_upto st (br_height r)) 31 children"
    using storage_okD(3) [OF assms] by (auto simp: row_ok_def sealed_ok_def)
  note le = upto_le [OF storage_okD(1) [OF assms(1)], of "br_height r"]
  then have "storage_node st (br_id r) index = Inr (Internal [] children)" using root(2) by (simp add: storage_le_def)
  with root children_ok_mono [OF le] that show ?thesis by blast
qed

lemma get_root: "length path = 32 \<Longrightarrow> trie_get st (Internal [] children) path = find_path st children path"
  using trie_get_Internal [of st "[]" children "path ! 0" "tl path"]
  by (cases path) (simp_all add: find_path_get_under)

lemma sealed_get:
  assumes "storage_ok (vm_storage m)" "r \<in> set (ts_blocks (vm_storage m))" "br_node r = Some index"
    "storage_node (vm_storage m) (br_id r) index = Inr (Internal [] children)" "length path = 32"
  shows "marf_get_path m (br_hash r) path = find_path (vm_storage m) children path"
  using assms find_block_row [OF assms(1,2)]
  by (simp add: marf_get_path_def sealed_root_def storage_block_ok get_root)

text \<open>The content of a sealed state and of the state being written.\<close>

definition sealed_content :: "versioned_marf \<Rightarrow> bytes \<Rightarrow> bytes \<rightharpoonup> bytes" where
  "sealed_content m block path = (if length path = 32 then
     (case marf_get_path m block path of Inr v \<Rightarrow> v | Inl _ \<Rightarrow> None) else None)"

definition active_content :: "versioned_marf \<Rightarrow> bytes \<rightharpoonup> bytes" where
  "active_content m path = (if length path = 32 then
     (case get_active_path m path of Inr v \<Rightarrow> v | Inl _ \<Rightarrow> None) else None)"

lemma get_path_content:
  assumes "storage_ok (vm_storage m)" "length path = 32"
  shows "marf_get_path m block path = Inr (sealed_content m block path)"
proof (cases "find_block (vm_storage m) block")
  case None
  then show ?thesis
    using assms by (simp add: sealed_content_def marf_get_path_def sealed_root_def storage_block_ok)
next
  case (Some r)
  then have r: "r \<in> set (ts_blocks (vm_storage m))" "br_hash r = block" using find_block_Some [OF assms(1)] by auto
  obtain index children where root: "br_node r = Some index"
      "storage_node (vm_storage m) (br_id r) index = Inr (Internal [] children)" "children_ok (vm_storage m) 31 children"
    using sealed_children [OF assms(1) r(1)] by metis
  obtain v where "marf_get_path m block path = Inr v"
    using sealed_get [OF assms(1) r(1) root(1,2) assms(2)] children_total [OF root(3) assms(2)] r(2) by auto
  then show ?thesis using assms(2) by (simp add: sealed_content_def)
qed

lemma active_root_ok:
  assumes "storage_ok st" "active_ok st a"
  shows "root_ok st (av_root_children a)" "root_ok (rows_upto st (av_height a)) (av_root_children a)"
  using assms root_ok_mono [OF upto_le [OF storage_okD(1)]] by (auto simp: active_ok_def)

lemma get_active_content:
  assumes "marf_ok m" "length path = 32"
  shows "get_active_path m path = Inr (active_content m path)"
proof (cases "vm_active m")
  case (Some a)
  then have "children_ok (vm_storage m) 31 (av_root_children a)"
    using assms(1) active_root_ok(1) [of "vm_storage m" a] by (simp add: marf_ok_def root_ok_def)
  from children_total [OF this assms(2)] Some show ?thesis
    using assms(2) by (auto simp: active_content_def get_active_path_def)
qed (use assms(2) in \<open>simp add: active_content_def get_active_path_def\<close>)

end
