(* ===== verification/Marf_Ops.thy ===== *)
theory Marf_Ops
  imports Marf_Invariant
begin

text \<open>
  What each operation of the versioned MARF does to a well-formed MARF: beginning, inserting, sealing,
  aborting and discarding keep the invariant and change the contents as a forest of maps would.
\<close>

section \<open>Stores of values at paths\<close>

text \<open>What the writers of a state rely on: a put of a value at a path succeeds and changes this path only.\<close>

locale path_store =
  fixes ok :: "'s \<Rightarrow> bool"
    and put :: "'s \<Rightarrow> bytes \<Rightarrow> bytes \<Rightarrow> marf_error + 's"
    and get :: "'s \<Rightarrow> bytes \<Rightarrow> marf_error + bytes option"
  assumes put_ok: "ok s \<Longrightarrow> length path = 32 \<Longrightarrow> length v = 40 \<Longrightarrow>
    \<exists>s'. put s path v = Inr s' \<and> ok s' \<and> updates 32 path v (get s) (get s')"
begin

lemma put_all:
  assumes "ok s" "\<forall>(path, v) \<in> set entries. length path = 32 \<and> length v = 40"
  shows "\<exists>s'. fold_e (\<lambda>s (path, v). put s path v) s entries = Inr s' \<and> ok s' \<and>
    (\<forall>q. length q = 32 \<longrightarrow> get s' q = (case map_of (rev entries) q of Some v \<Rightarrow> Inr (Some v) | None \<Rightarrow> get s q))"
  using assms
proof (induction entries arbitrary: s)
  case (Cons entry entries)
  obtain path v where entry: "entry = (path, v)" by fastforce
  obtain s' where s': "put s path v = Inr s'" "ok s'" "updates 32 path v (get s) (get s')"
    using put_ok [OF Cons.prems(1), of path v] Cons.prems(2) entry by auto
  from Cons.IH [OF s'(2)] Cons.prems(2) obtain s'' where
    "fold_e (\<lambda>s (path, v). put s path v) s' entries = Inr s''" "ok s''"
    "\<forall>q. length q = 32 \<longrightarrow> get s'' q = (case map_of (rev entries) q of Some v \<Rightarrow> Inr (Some v) | None \<Rightarrow> get s' q)"
    by auto
  with s' entry show ?case by (auto simp: updates_def map_add_def split: option.splits)
qed simp

end

text \<open>The root of a state at a height, over the nodes of states at most at this height.\<close>

definition open_root :: "trie_storage \<Rightarrow> u32 \<Rightarrow> trie_child list \<Rightarrow> bool" where
  "open_root st height children \<longleftrightarrow> rows_distinct st \<and> root_ok (rows_upto st height) children"

interpretation state_trie: path_store "open_root st height" "insert_under_root st" "find_path st" for st height
proof
  fix children path v
  assume "open_root st height children" "length (path :: bytes) = 32" "length (v :: bytes) = 40"
  then have ok: "rows_distinct st" "root_ok (rows_upto st height) children" by (simp_all add: open_root_def)
  note le = upto_le [OF ok(1), of height]
  obtain children' where ins: "insert_under_root (rows_upto st height) children path v = Inr children'"
      "root_ok (rows_upto st height) children'"
      "updates 32 path v (find_path (rows_upto st height) children) (find_path (rows_upto st height) children')"
    using insert_under_root_ok [OF ok(2) \<open>length path = 32\<close> \<open>length v = 40\<close>] by blast
  have "find_path st cs q = find_path (rows_upto st height) cs q" if "root_ok (rows_upto st height) cs" "length q = 32" for cs q
    using find_path_mono [OF le _ that(2)] that(1) by (simp add: root_ok_def)
  then have "updates 32 path v (find_path st children) (find_path st children')"
    using ins(2,3) ok(2) by (simp add: updates_def)
  then show "\<exists>s'. insert_under_root st children path v = Inr s' \<and> open_root st height s' \<and>
      updates 32 path v (find_path st children) (find_path st s')"
    using insert_under_root_mono [OF le ins(1)] ins(2) ok(1) by (simp add: open_root_def)
qed

section \<open>The keys of a state's height\<close>

definition height_entries ::
  "(bytes \<Rightarrow> bytes) \<Rightarrow> bytes option \<Rightarrow> bytes \<Rightarrow> u32 \<Rightarrow> marf_error + (bytes \<times> bytes) list" where
  "height_entries h parent block height = bind_e (height_keys parent block height) (\<lambda>entries.
     Inr (map (\<lambda>(key, v). (key_path h key, v)) entries))"

lemma length_key_path: "\<forall>x. length (h x) = 32 \<Longrightarrow> length (key_path h key) = 32"
  by (simp add: key_path_def trie_hash_from_data_def trie_hash_empty_def)

lemma height_entries_ok:
  assumes "\<forall>x. length (h x) = 32" "length block = 32" "\<forall>p. parent = Some p \<longrightarrow> length p = 32 \<and> height \<noteq> 0"
  obtains entries where "height_entries h parent block height = Inr entries"
    "\<forall>(path, v) \<in> set entries. length path = 32 \<and> length v = 40"
  using assms length_key_path [OF assms(1)]
  by (cases parent) (auto simp: height_entries_def height_keys_def Let_def mv_from_u32_def mv_from_block_id_def)

lemma fold_e_map: "fold_e f s (map g xs) = fold_e (\<lambda>s x. f s (g x)) s xs"
  by (induction xs arbitrary: s) (auto intro: arg_cong2 [of _ _ _ _ bind_e])

lemma insert_metadata_entries:
  "insert_metadata h st children parent block height =
    bind_e (height_entries h parent block height) (fold_e (\<lambda>children (path, v). insert_under_root st children path v) children)"
  by (cases "height_keys parent block height")
    (simp_all add: insert_metadata_def height_entries_def fold_e_map case_prod_unfold)

lemma insert_metadata_ok:
  assumes "open_root st height children" "\<forall>x. length (h x) = 32" "length block = 32"
    "\<forall>p. parent = Some p \<longrightarrow> length p = 32 \<and> height \<noteq> 0"
  obtains children' entries where "insert_metadata h st children parent block height = Inr children'"
    "height_entries h parent block height = Inr entries" "open_root st height children'"
    "\<forall>(path, v) \<in> set entries. length path = 32 \<and> length v = 40"
    "\<And>q. length q = 32 \<Longrightarrow>
      find_path st children' q = (case map_of (rev entries) q of Some v \<Rightarrow> Inr (Some v) | None \<Rightarrow> find_path st children q)"
proof -
  obtain entries where entries: "height_entries h parent block height = Inr entries"
      "\<forall>(path, v) \<in> set entries. length path = 32 \<and> length v = 40"
    using height_entries_ok [OF assms(2-4)] by blast
  from state_trie.put_all [OF assms(1) entries(2)] entries that show ?thesis
    by (auto simp: insert_metadata_entries)
qed

section \<open>Adding a row\<close>

text \<open>The database with one more row, under a new hash and the next id, and nodes of this row.\<close>

definition extends :: "trie_storage \<Rightarrow> block_record \<Rightarrow> (u32 \<times> u32 \<rightharpoonup> bytes \<times> bytes) \<Rightarrow> trie_storage \<Rightarrow> bool" where
  "extends st r w st' \<longleftrightarrow> ts_blocks st' = ts_blocks st @ [r] \<and> ts_nodes st' = ts_nodes st ++ w \<and>
     ts_sequence st' = Suc (ts_sequence st) \<and> dom w \<subseteq> {br_id r} \<times> UNIV \<and>
     unat (br_id r) = Suc (ts_sequence st) \<and> br_hash r \<notin> br_hash ` set (ts_blocks st)"

lemma new_id:
  assumes "storage_ok st" "unat rowid = Suc (ts_sequence st)"
  shows "rowid \<notin> br_id ` set (ts_blocks st)" "ts_nodes st (rowid, i) = None"
proof -
  have "unat (br_id s) \<le> ts_sequence st" if "s \<in> set (ts_blocks st)" for s
    using storage_okD(3) [OF assms(1) that] by (simp add: row_ok_def)
  then show new: "rowid \<notin> br_id ` set (ts_blocks st)" using assms(2) by fastforce
  show "ts_nodes st (rowid, i) = None"
  proof (rule ccontr)
    assume "ts_nodes st (rowid, i) \<noteq> None"
    then obtain s where "s \<in> set (ts_blocks st)" "br_id s = rowid"
      using assms(1) unfolding storage_ok_def by (metis fst_conv)
    with new show False by blast
  qed
qed

lemma extends_distinct: "storage_ok st \<Longrightarrow> extends st r w st' \<Longrightarrow> rows_distinct st'"
  using new_id(1) [of st "br_id r"] storage_okD(1) [of st] by (auto simp: extends_def rows_distinct_def)

lemma extends_upto:
  assumes "storage_ok st" "extends st r w st'"
  shows "storage_le (rows_upto st height) (rows_upto st' height)"
proof (rule storage_le_rows)
  note ext = assms(2) [unfolded extends_def]
  show "storage_block_hash (rows_upto st' height) b = Inr x" if "storage_block_hash (rows_upto st height) b = Inr x" for b x
    using that ext extends_distinct [OF assms] storage_okD(1) [OF assms(1)]
    by (auto simp: storage_block_hash_iff rows_distinct_upto)
  fix k x
  assume k: "ts_nodes (rows_upto st height) k = Some x"
  then have node: "ts_nodes st k = Some x" "\<not> (\<exists>s \<in> set (ts_blocks st). height < br_height s \<and> br_id s = fst k)"
    by (auto simp: ts_nodes_upto split: if_splits)
  have "fst k \<noteq> br_id r" using new_id(2) [OF assms(1), of "br_id r" "snd k"] ext node(1) by (cases k) auto
  moreover from this have "w k = None" using ext by (cases k) auto
  ultimately show "ts_nodes (rows_upto st' height) k = Some x"
    using node ext by (auto simp: ts_nodes_upto map_add_def)
qed

lemma extends_row_ok:
  assumes "storage_ok st" "extends st r w st'" "s \<in> set (ts_blocks st)"
  shows "row_ok st' s"
proof -
  have sub: "set (ts_blocks st) \<subseteq> set (ts_blocks st')" "ts_sequence st \<le> ts_sequence st'"
    using assms(2) by (auto simp: extends_def)
  note ok = storage_okD(3) [OF assms(1,3), unfolded row_ok_def]
  have "parent_ok st' s" using ok sub(1) by (auto simp: parent_ok_def split: option.splits)
  moreover have "sealed_ok st' s"
  proof -
    note le = extends_upto [OF assms(1,2), of "br_height s"]
    obtain index children where "br_node s = Some index"
        "storage_node (rows_upto st (br_height s)) (br_id s) index = Inr (Internal [] children)"
        "children_ok (rows_upto st (br_height s)) 31 children"
      using ok by (auto simp: sealed_ok_def)
    with le children_ok_mono [OF le] show ?thesis by (auto simp: sealed_ok_def storage_le_def)
  qed
  moreover have "table_ok st' s js" if "table_ok st s js" for js
    using that ancestor_mono [OF sub(1)] unfolding table_ok_def by blast
  ultimately show ?thesis using ok sub(2) by (auto simp: row_ok_def)
qed

lemma extends_ok:
  assumes "storage_ok st" "extends st r w st'" "row_ok st' r"
  shows "storage_ok st'"
proof -
  note ext = assms(2) [unfolded extends_def]
  have "\<exists>s \<in> set (ts_blocks st'). br_id s = fst k" if "ts_nodes st' k \<noteq> None" for k
  proof (cases "w k")
    case None
    then have "ts_nodes st k \<noteq> None" using that ext by (simp add: map_add_def)
    then have "\<exists>s \<in> set (ts_blocks st). br_id s = fst k" using assms(1) unfolding storage_ok_def by blast
    then show ?thesis using ext by auto
  next
    case (Some x)
    then have "fst k = br_id r" using ext by (cases k) auto
    then show ?thesis using ext by auto
  qed
  moreover have "ts_sequence st' < 2 ^ 32" using ext unat_bound [of "br_id r"] by simp
  moreover have "\<forall>s \<in> set (ts_blocks st'). row_ok st' s"
    using ext extends_row_ok [OF assms(1,2)] assms(3) by auto
  ultimately show ?thesis using extends_distinct [OF assms(1,2)] unfolding storage_ok_def by blast
qed

lemma extends_active_ok: "storage_ok st \<Longrightarrow> extends st r w st' \<Longrightarrow> active_ok st a \<Longrightarrow> active_ok st' a"
  using root_ok_mono [OF extends_upto, of st r w st' "av_height a"]
  by (auto simp: active_ok_def extends_def split: option.splits)

lemma find_append_last: "List.find P (xs @ [x]) = (case List.find P xs of None \<Rightarrow> if P x then Some x else None | Some y \<Rightarrow> Some y)"
  by (induction xs) auto

lemma extends_content:
  assumes "storage_ok st" "extends st r w st'" "row_ok st' r" "block \<noteq> br_hash r" "length path = 32"
  shows "find_block st' block = find_block st block"
    "marf_get_path \<lparr>vm_storage = st', vm_active = x\<rparr> block path = marf_get_path \<lparr>vm_storage = st, vm_active = y\<rparr> block path"
proof -
  note ok' = extends_ok [OF assms(1-3)]
  note ext = assms(2) [unfolded extends_def]
  show same: "find_block st' block = find_block st block"
    using ext assms(4) by (auto simp: find_block_def find_append_last split: option.splits)
  show "marf_get_path \<lparr>vm_storage = st', vm_active = x\<rparr> block path = marf_get_path \<lparr>vm_storage = st, vm_active = y\<rparr> block path"
  proof (cases "find_block st block")
    case None
    then show ?thesis using same assms(1) ok' by (simp add: marf_get_path_def sealed_root_def storage_block_ok)
  next
    case (Some s)
    then have s: "s \<in> set (ts_blocks st)" "br_hash s = block" "s \<in> set (ts_blocks st')"
      using find_block_Some [OF assms(1)] ext by auto
    obtain index children where root: "br_node s = Some index"
        "storage_node (rows_upto st (br_height s)) (br_id s) index = Inr (Internal [] children)"
        "storage_node st (br_id s) index = Inr (Internal [] children)"
        "children_ok (rows_upto st (br_height s)) 31 children"
      using sealed_children [OF assms(1) s(1)] by metis
    have le: "storage_le (rows_upto st (br_height s)) st" "storage_le (rows_upto st (br_height s)) st'"
      using upto_le storage_okD(1) assms(1) ok' extends_upto [OF assms(1,2)] storage_le_trans by blast+
    then have "storage_node st' (br_id s) index = Inr (Internal [] children)" using root(2) by (simp add: storage_le_def)
    then have "marf_get_path \<lparr>vm_storage = st', vm_active = x\<rparr> (br_hash s) path = find_path st' children path"
      using sealed_get [of "\<lparr>vm_storage = st', vm_active = x\<rparr>" s index children path] ok' s(3) root(1) assms(5) by simp
    moreover have "marf_get_path \<lparr>vm_storage = st, vm_active = y\<rparr> (br_hash s) path = find_path st children path"
      using sealed_get [of "\<lparr>vm_storage = st, vm_active = y\<rparr>" s index children path] assms(1,5) s(1) root(1,3) by simp
    ultimately show ?thesis
      using find_path_mono [OF le(1) root(4) assms(5)] find_path_mono [OF le(2) root(4) assms(5)] s(2) by simp
  qed
qed

section \<open>Sealing\<close>

definition sealed_row ::
  "u32 \<Rightarrow> bytes \<Rightarrow> u32 option \<Rightarrow> u32 \<Rightarrow> bytes list \<Rightarrow> bytes \<Rightarrow> bytes \<Rightarrow> u32 option \<Rightarrow> block_record" where
  "sealed_row rowid block parent height js root content node = \<lparr>br_id = rowid, br_hash = block, br_parent = parent,
     br_height = height, br_root = root, br_content = content, br_node = node, br_jumps = concat js\<rparr>"

lemma sealed_row_simps [simp]:
  "br_id (sealed_row rowid block parent height js root content node) = rowid"
  "br_hash (sealed_row rowid block parent height js root content node) = block"
  "br_parent (sealed_row rowid block parent height js root content node) = parent"
  "br_height (sealed_row rowid block parent height js root content node) = height"
  "br_root (sealed_row rowid block parent height js root content node) = root"
  "br_content (sealed_row rowid block parent height js root content node) = content"
  "br_node (sealed_row rowid block parent height js root content node) = node"
  "br_jumps (sealed_row rowid block parent height js root content node) = concat js"
  by (simp_all add: sealed_row_def)

lemma reserve_block_ok:
  assumes "find_block st block = None"
  shows "reserve_block st block parent height js = Inl MarfStorage \<or>
    (\<exists>rowid st'. reserve_block st block parent height js = Inr (rowid, st') \<and>
       extends st (sealed_row rowid block parent height js (replicate 32 0) (replicate 32 0) None) Map.empty st')"
proof (cases "Suc (ts_sequence st) < 2 ^ 32")
  case True
  have "unat (word_of_nat n :: u32) = n" if "n < 2 ^ 32" for n :: nat using that by (simp add: unat_of_nat)
  from this [OF True] True assms show ?thesis
    by (simp add: reserve_block_def extends_def find_block_None sealed_row_def Let_def)
qed (simp add: reserve_block_def)

lemma hash_children_active:
  "list_all (active_child s) children \<Longrightarrow> hash_children h st kind path children = hash_children h st' kind path children"
  using map_e_cong [of children children "child_hash h st" "child_hash h st'"] active_hash(2) [of s _ h]
  unfolding hash_children_def list_all_iff by metis

lemma persist_reserved:
  assumes ok: "storage_ok st" "extends st r Map.empty st1" "root_ok (rows_upto st (br_height r)) children"
    and digest: "\<forall>x. length (h x) = 32"
  shows "persist_root h (br_id r) st1 0 children = Inl HeightOverflow \<or>
    (\<exists>w index content children'. persist_root h (br_id r) st1 0 children = Inr (grow st1 w, index, content) \<and>
       dom w \<subseteq> {br_id r} \<times> UNIV \<and> hash_children h st TnNode256 [] children = Inr content \<and> length content = 32 \<and>
       (\<forall>st'. storage_le (grow (rows_upto st1 (br_height r)) w) st' \<longrightarrow>
         storage_node st' (br_id r) index = Inr (Internal [] children') \<and> children_ok st' 31 children' \<and>
         (\<forall>path. length path = 32 \<longrightarrow> find_path st' children' path = find_path st children path)))"
proof -
  let ?base = "rows_upto st (br_height r)" and ?low = "rows_upto st1 (br_height r)"
  have le: "storage_le ?base ?low" "storage_le ?base st"
    using extends_upto [OF ok(1,2)] upto_le [OF storage_okD(1) [OF ok(1)]] by blast+
  have fresh: "fresh_from ?low (br_id r) 0"
    using new_id(2) [OF ok(1), of "br_id r"] ok(2) by (simp add: fresh_from_def ts_nodes_upto extends_def)
  note low = root_ok_mono [OF le(1) ok(3)]
  then have active: "list_all (active_child ?low) children" by (simp add: root_ok_def)
  from persist_root_uniform [OF active, of "br_id r" h] persist_root_ok [OF low fresh digest]
  show ?thesis unfolding uniform_def
  proof (elim disjE exE conjE)
    fix w p st' index content children'
    assume w: "dom w \<subseteq> {br_id r} \<times> UNIV" "\<forall>st. persist_root h (br_id r) st 0 children = Inr (grow st w, p)"
      and run: "persist_root h (br_id r) ?low 0 children = Inr (st', index, content)"
        "hash_children h ?low TnNode256 [] children = Inr content" "length content = 32"
        "storage_node st' (br_id r) index = Inr (Internal [] children')" "children_ok st' 31 children'"
        "\<forall>path. length path = 32 \<longrightarrow> find_path st' children' path = find_path ?low children path"
    have st': "st' = grow ?low w" "p = (index, content)" using w(2) run(1) by auto
    have "storage_node s (br_id r) index = Inr (Internal [] children')" "children_ok s 31 children'"
        "length path = 32 \<Longrightarrow> find_path s children' path = find_path st children path" if "storage_le st' s" for s path
    proof -
      show "storage_node s (br_id r) index = Inr (Internal [] children')" using that run(4) by (simp add: storage_le_def)
      show "children_ok s 31 children'" using children_ok_mono [OF that run(5)] .
      have base: "children_ok ?base 31 children" using ok(3) by (simp add: root_ok_def)
      show "find_path s children' path = find_path st children path" if "length path = 32"
        using find_path_mono [OF \<open>storage_le st' s\<close> run(5) that] run(6) that
          find_path_mono [OF le(1) base that] find_path_mono [OF le(2) base that] by simp
    qed
    then show ?thesis
      using w run(2,3) st' hash_children_active [OF active, of h ?low TnNode256 "[]" st]
      by (intro disjI2 exI [of _ w] exI [of _ index] exI [of _ content] exI [of _ children']) simp
  qed auto
qed

lemma complete_block_extends:
  assumes "storage_ok st"
    "extends st (sealed_row rowid block parent height js root0 content0 None) Map.empty st1" "dom w \<subseteq> {rowid} \<times> UNIV"
  shows "extends st (sealed_row rowid block parent height js root content node) w
    (complete_block (grow st1 w) rowid root content node)"
proof -
  note ext = assms(2) [unfolded extends_def]
  have "br_id s \<noteq> rowid" if "s \<in> set (ts_blocks st)" for s
    using new_id(1) [OF assms(1), of rowid] ext that by auto
  then have "map (\<lambda>r. if br_id r = rowid then r\<lparr>br_root := root, br_content := content, br_node := node\<rparr> else r) (ts_blocks st) = ts_blocks st"
    by (simp add: map_idI)
  with ext assms(3) show ?thesis by (simp add: extends_def complete_block_def sealed_row_def)
qed

lemma complete_block_low:
  assumes "storage_ok st" "extends st (sealed_row rowid block parent height js root0 content0 None) Map.empty st1"
    "extends st (sealed_row rowid block parent height js root content node) w st'"
  shows "storage_le (grow (rows_upto st1 height) w) (rows_upto st' height)"
proof (rule storage_le_rows)
  note ext = assms(2,3) [unfolded extends_def]
  have dist: "rows_distinct st1" "rows_distinct st'" using extends_distinct assms by blast+
  have "rows_distinct (grow (rows_upto st1 height) w)" using rows_distinct_upto [OF dist(1)] by (simp add: rows_distinct_def)
  then show "storage_block_hash (rows_upto st' height) b = Inr x"
    if "storage_block_hash (grow (rows_upto st1 height) w) b = Inr x" for b x
    using that ext dist by (auto simp: storage_block_hash_iff rows_distinct_upto)
  fix k x
  assume k: "ts_nodes (grow (rows_upto st1 height) w) k = Some x"
  have new: "rowid \<notin> br_id ` set (ts_blocks st)" using new_id(1) [OF assms(1)] ext(1) by simp
  show "ts_nodes (rows_upto st' height) k = Some x"
  proof (cases "w k")
    case None
    with k ext show ?thesis by (auto simp: ts_nodes_upto map_add_def split: if_splits)
  next
    case (Some y)
    then have "fst k = rowid" using ext(2) by (cases k) auto
    with new have "\<forall>r \<in> set (ts_blocks st). br_id r \<noteq> fst k" by force
    then have "\<not> (\<exists>r \<in> set (ts_blocks st'). height < br_height r \<and> br_id r = fst k)" using ext(2) by auto
    with Some k ext show ?thesis by (simp add: ts_nodes_upto map_add_def)
  qed
qed

text \<open>The row of the state being written.\<close>

lemma sealed_row_table:
  assumes ok: "storage_ok st" "active_ok st a" and ext: "extends st r w st'"
    and r: "br_height r = av_height a" "br_parent r = map_option br_id (Option.bind (av_parent a) (find_block st))"
    and js: "\<forall>i. i < length js \<longleftrightarrow> 2 ^ i \<le> unat (av_height a)"
      "\<And>p. p \<in> set (ts_blocks st) \<Longrightarrow> av_parent a = Some (br_hash p) \<Longrightarrow> table_above st p js"
  shows "parent_ok st' r \<and> table_ok st' r js"
proof (cases "av_parent a")
  case None
  then have "av_height a = 0" using ok(2) by (simp add: active_ok_def)
  then show ?thesis using js(1) r None by (simp add: parent_ok_def table_ok_def)
next
  case (Some b)
  then have "\<exists>p \<in> set (ts_blocks st). br_hash p = b \<and> unat (av_height a) = Suc (unat (br_height p))"
    using ok(2) by (simp add: active_ok_def)
  then obtain p where p: "p \<in> set (ts_blocks st)" "br_hash p = b" "unat (av_height a) = Suc (unat (br_height p))" by blast
  have sub: "set (ts_blocks st) \<subseteq> set (ts_blocks st')" using ext by (auto simp: extends_def)
  have parent: "br_parent r = Some (br_id p)" using r(2) Some find_block_row [OF ok(1) p(1)] p(2) by simp
  have "\<exists>a. ancestor st' (2 ^ k) r a \<and> br_hash a = js ! k" if k: "k < length js" for k
  proof -
    obtain c where c: "ancestor st (2 ^ k - 1) p c" "br_hash c = js ! k"
      using js(2) [OF p(1)] Some p(2) k by (auto simp: table_above_def)
    have "ancestor st' (Suc (2 ^ k - 1)) r c"
      unfolding ancestor.simps(2) using ancestor_mono [OF sub c(1)] parent p(1) sub by blast
    moreover have "Suc (2 ^ k - 1) = (2 :: nat) ^ k" by simp
    ultimately show ?thesis using c(2) by metis
  qed
  with parent p(1,3) sub js(1) r(1) show ?thesis by (auto simp: parent_ok_def table_ok_def)
qed

lemma complete_block_ok:
  assumes ok: "storage_ok st" "active_ok st a" "length block = 32" "length content = 32" "length root = 32"
    and js: "\<forall>i. i < length js \<longleftrightarrow> 2 ^ i \<le> unat (av_height a)"
      "\<And>p. p \<in> set (ts_blocks st) \<Longrightarrow> av_parent a = Some (br_hash p) \<Longrightarrow> table_above st p js"
    and parent: "parent = map_option br_id (Option.bind (av_parent a) (find_block st))"
    and ext: "extends st (sealed_row rowid block parent (av_height a) js root0 content0 None) Map.empty st1" "dom w \<subseteq> {rowid} \<times> UNIV"
    and st': "st' = complete_block (grow st1 w) rowid root content (Some index)"
    and node: "\<forall>st'. storage_le (grow (rows_upto st1 (av_height a)) w) st' \<longrightarrow>
        storage_node st' rowid index = Inr (Internal [] children') \<and> children_ok st' 31 children' \<and>
        (\<forall>path. length path = 32 \<longrightarrow> find_path st' children' path = find_path st children path)"
  defines "r \<equiv> sealed_row rowid block parent (av_height a) js root content (Some index)"
  shows "extends st r w st'" "row_ok st' r"
    "length path = 32 \<Longrightarrow> marf_get_path \<lparr>vm_storage = st', vm_active = None\<rparr> block path = find_path st children path"
proof -
  show ext': "extends st r w st'" unfolding st' r_def by (rule complete_block_extends [OF ok(1) ext])
  note low = complete_block_low [OF ok(1) ext(1) ext' [unfolded r_def]]
  note low' = storage_le_trans [OF low upto_le [OF extends_distinct [OF ok(1) ext']]]
  have "parent_ok st' r \<and> table_ok st' r js"
    by (rule sealed_row_table [OF ok(1,2) ext' _ _ js]) (simp_all add: r_def parent)
  then show row: "row_ok st' r"
    using node [rule_format, OF low] ext' ok(3-5) by (auto simp: row_ok_def sealed_ok_def extends_def r_def)
  show "marf_get_path \<lparr>vm_storage = st', vm_active = None\<rparr> block path = find_path st children path" if "length path = 32"
    using sealed_get [of "\<lparr>vm_storage = st', vm_active = None\<rparr>" r index children' path] extends_ok [OF ok(1) ext' row]
      ext' node [rule_format, OF low'] that by (simp add: extends_def r_def)
qed

text \<open>Sealing: it fails when ids or node numbers run out, otherwise the state has the pending root, the invariant
  is kept, and the new state has the content that was written.\<close>

lemma write_sealed_ok:
  assumes ok: "storage_ok st" "active_ok st a" "find_block st block = None" "length block = 32"
    and digest: "\<forall>x. length (h x) = 32"
  shows "write_sealed h st block a \<in> {Inl MarfStorage, Inl HeightOverflow} \<or>
    (\<exists>root st' r w. write_sealed h st block a = Inr (root, st') \<and> extends st r w st' \<and> row_ok st' r \<and>
       br_hash r = block \<and> br_height r = av_height a \<and> br_root r = root \<and>
       br_parent r = map_option br_id (Option.bind (av_parent a) (find_block st)) \<and>
       pending_root h \<lparr>vm_storage = st, vm_active = Some a\<rparr> = Inr root \<and>
       (\<forall>path. length path = 32 \<longrightarrow> marf_get_path \<lparr>vm_storage = st', vm_active = None\<rparr> block path =
          find_path st (av_root_children a) path))"
proof -
  obtain js roots where js: "marf_jumps st (av_parent a) (av_height a) = Inr js" "ancestor_roots_for st js = Inr roots"
      "\<forall>i. i < length js \<longleftrightarrow> 2 ^ i \<le> unat (av_height a)"
      "\<And>p. p \<in> set (ts_blocks st) \<Longrightarrow> av_parent a = Some (br_hash p) \<Longrightarrow> table_above st p js"
    by (rule active_jumps [OF ok(1,2)], rule that)
  let ?parent = "map_option br_id (Option.bind (av_parent a) (find_block st))"
  let ?row = "\<lambda>rowid. sealed_row rowid block ?parent (av_height a) js"
  have parent: "(case av_parent a of Some p \<Rightarrow> bind_e (storage_block st p) (\<lambda>found. Inr (map_option br_id found)) | None \<Rightarrow> Inr None) = Inr ?parent"
    by (cases "av_parent a") (simp_all add: storage_block_ok [OF ok(1)])
  from reserve_block_ok [OF ok(3), of ?parent "av_height a" js] show ?thesis
  proof (elim disjE exE conjE)
    fix rowid st1
    assume reserve: "reserve_block st block ?parent (av_height a) js = Inr (rowid, st1)"
      and ext: "extends st (?row rowid (replicate 32 0) (replicate 32 0) None) Map.empty st1"
    have "root_ok (rows_upto st (br_height (?row rowid (replicate 32 0) (replicate 32 0) None))) (av_root_children a)"
      using active_root_ok(2) [OF ok(1,2)] by simp
    from persist_reserved [OF ok(1) ext this digest, unfolded sealed_row_simps] show ?thesis
    proof (elim disjE exE conjE)
      fix w index content children'
      assume run: "persist_root h rowid st1 0 (av_root_children a) = Inr (grow st1 w, index, content)"
          "dom w \<subseteq> {rowid} \<times> UNIV" "hash_children h st TnNode256 [] (av_root_children a) = Inr content" "length content = 32"
        and node: "\<forall>st'. storage_le (grow (rows_upto st1 (av_height a)) w) st' \<longrightarrow>
            storage_node st' rowid index = Inr (Internal [] children') \<and> children_ok st' 31 children' \<and>
            (\<forall>path. length path = 32 \<longrightarrow> find_path st' children' path = find_path st (av_root_children a) path)"
      let ?root = "state_root h content roots"
      have root: "length ?root = 32" using run(4) digest by (simp add: state_root_def)
      note complete = complete_block_ok [OF ok(1,2,4) run(4) root js(3,4) refl ext run(2) refl node]
      have "write_sealed h st block a = Inr (?root, complete_block (grow st1 w) rowid ?root content (Some index))"
        using parent js(1,2) reserve run(1) by (simp add: write_sealed_def)
      moreover have "pending_root h \<lparr>vm_storage = st, vm_active = Some a\<rparr> = Inr ?root"
        using js(1,2) run(3) by (simp add: pending_root_def ancestor_roots_def)
      ultimately show ?thesis
        using complete by (intro disjI2 exI [of _ ?root] exI conjI) (assumption | simp)+
    qed (use parent js(1,2) reserve in \<open>simp add: write_sealed_def\<close>)
  qed (use parent js(1,2) in \<open>simp add: write_sealed_def\<close>)
qed

section \<open>Extending a sealed state\<close>

lemma extend_root_ok:
  assumes "storage_ok (vm_storage m)" "r \<in> set (ts_blocks (vm_storage m))"
  obtains children where "extend_root (vm_storage m) r = Inr children"
    "root_ok (rows_upto (vm_storage m) (br_height r)) children"
    "\<And>path. length path = 32 \<Longrightarrow> find_path (vm_storage m) children path = marf_get_path m (br_hash r) path"
proof -
  let ?st = "vm_storage m"
  let ?base = "rows_upto ?st (br_height r)"
  obtain index children where root: "br_node r = Some index"
      "storage_node ?base (br_id r) index = Inr (Internal [] children)"
      "storage_node ?st (br_id r) index = Inr (Internal [] children)" "children_ok ?base 31 children"
    using sealed_children [OF assms] by metis
  have "length (br_hash r) = 32" using storage_okD(3) [OF assms] by (simp add: row_ok_def)
  then have "storage_block_hash ?base (br_id r) = Inr (br_hash r)"
    using assms(2) by (auto simp: storage_block_hash_iff rows_distinct_upto storage_okD(1) [OF assms(1)])
  from active_prepare_stored [OF root(2) this] have "list_all (active_child ?base) (map (refer_to (br_hash r)) children)"
    by (simp add: prepare_for_copy_def)
  with root(4) have "root_ok ?base (map (refer_to (br_hash r)) children)" by (simp add: root_ok_def)
  moreover have "extend_root ?st r = Inr (map (refer_to (br_hash r)) children)"
    using root(1,3) by (simp add: extend_root_def prepare_root_for_copy_def)
  moreover have "find_path ?st (map (refer_to (br_hash r)) children) path = marf_get_path m (br_hash r) path"
    if "length path = 32" for path
    using sealed_get [OF assms root(1,3) that] that by (simp add: find_path_get_under)
  ultimately show ?thesis using that by blast
qed

section \<open>Discarding\<close>

lemma ancestor_upto:
  assumes "rows_distinct st" "\<forall>r \<in> set (ts_blocks st). parent_ok st r"
  shows "r \<in> set (ts_blocks st) \<Longrightarrow> br_height r \<le> height \<Longrightarrow> ancestor st n r a \<Longrightarrow> ancestor (rows_upto st height) n r a"
proof (induction n arbitrary: r)
  case (Suc n)
  then obtain p where p: "p \<in> set (ts_blocks st)" "br_parent r = Some (br_id p)" "ancestor st n p a" by auto
  have "unat (br_height p) = unat (br_height r) - 1"
    using ancestor_height(2) [OF assms Suc.prems(1), of 1 p] p(1,2) by simp
  then have "br_height p \<le> height" using Suc.prems(2) by (simp add: word_le_nat_alt)
  with p Suc.IH show ?case by auto
qed simp

lemma upto_row_ok:
  assumes "storage_ok st" "r \<in> set (ts_blocks st)" "br_height r \<le> height"
  shows "row_ok (rows_upto st height) r"
proof -
  note ok = storage_okD(3) [OF assms(1,2), unfolded row_ok_def]
  note rows = storage_okD(1,2) [OF assms(1)]
  have "parent_ok (rows_upto st height) r"
  proof (cases "br_parent r")
    case (Some i)
    then obtain p where "p \<in> set (ts_blocks st)" "br_id p = i" "unat (br_height r) = Suc (unat (br_height p))"
      using ok by (auto simp: parent_ok_def)
    moreover from this have "br_height p \<le> height" using assms(3) by (simp add: word_le_nat_alt)
    ultimately show ?thesis using Some by (auto simp: parent_ok_def)
  qed (use ok in \<open>simp add: parent_ok_def\<close>)
  moreover have "sealed_ok (rows_upto st height) r" using ok assms(3) by (simp add: sealed_ok_def upto_upto)
  moreover have "table_ok (rows_upto st height) r js" if "table_ok st r js" for js
    using that ancestor_upto [OF rows assms(2,3)] unfolding table_ok_def by blast
  ultimately show ?thesis using ok by (auto simp: row_ok_def)
qed

lemma upto_ok:
  assumes "storage_ok st"
  shows "storage_ok (rows_upto st height)"
proof -
  have "\<exists>r \<in> set (ts_blocks (rows_upto st height)). br_id r = fst k" if k: "ts_nodes (rows_upto st height) k \<noteq> None" for k
  proof -
    have "ts_nodes st k \<noteq> None" "\<not> (\<exists>r \<in> set (ts_blocks st). height < br_height r \<and> br_id r = fst k)"
      using k by (auto simp: ts_nodes_upto split: if_splits)
    moreover from this(1) obtain r where "r \<in> set (ts_blocks st)" "br_id r = fst k"
      using assms unfolding storage_ok_def by blast
    ultimately show ?thesis by (auto simp: not_less)
  qed
  then show ?thesis
    using assms upto_row_ok [OF assms] rows_distinct_upto [of st height] by (auto simp: storage_ok_def)
qed

lemma upto_content:
  assumes "storage_ok st" "length path = 32"
  shows "find_block (rows_upto st height) block = (case find_block st block of
      Some r \<Rightarrow> if br_height r \<le> height then Some r else None | None \<Rightarrow> None)"
    "find_block (rows_upto st height) block = Some r \<Longrightarrow>
      marf_get_path \<lparr>vm_storage = rows_upto st height, vm_active = x\<rparr> block path =
      marf_get_path \<lparr>vm_storage = st, vm_active = y\<rparr> block path"
proof -
  note ok = upto_ok [OF assms(1), of height]
  show "find_block (rows_upto st height) block = (case find_block st block of
      Some r \<Rightarrow> if br_height r \<le> height then Some r else None | None \<Rightarrow> None)"
  proof (cases "find_block (rows_upto st height) block")
    case None
    then have "block \<notin> br_hash ` set (ts_blocks (rows_upto st height))" by (simp add: find_block_None)
    then show ?thesis using None find_block_Some [OF assms(1), of block] by (auto split: option.splits)
  next
    case (Some r)
    then have "r \<in> set (ts_blocks st)" "br_hash r = block" "br_height r \<le> height" using find_block_Some [OF ok] by auto
    then show ?thesis using Some find_block_row [OF assms(1)] by auto
  qed
  assume "find_block (rows_upto st height) block = Some r"
  then have r: "r \<in> set (ts_blocks st)" "br_hash r = block" "br_height r \<le> height" using find_block_Some [OF ok] by auto
  obtain index children where root: "br_node r = Some index"
      "storage_node (rows_upto st (br_height r)) (br_id r) index = Inr (Internal [] children)"
      "children_ok (rows_upto st (br_height r)) 31 children"
    using sealed_children [OF assms(1) r(1)] by metis
  have get: "marf_get_path \<lparr>vm_storage = s, vm_active = z\<rparr> block path = find_path (rows_upto st (br_height r)) children path"
    if "storage_ok s" "r \<in> set (ts_blocks s)" "storage_le (rows_upto st (br_height r)) s" for s z
    using sealed_get [of "\<lparr>vm_storage = s, vm_active = z\<rparr>" r index children path] that root(1,2) r(2) assms(2)
      find_path_mono [OF that(3) root(3) assms(2)] by (simp add: storage_le_def)
  note rows = storage_okD(1) [OF assms(1)]
  show "marf_get_path \<lparr>vm_storage = rows_upto st height, vm_active = x\<rparr> block path =
      marf_get_path \<lparr>vm_storage = st, vm_active = y\<rparr> block path"
    using get [OF ok _ upto_mono [OF rows r(3)]] get [OF assms(1) r(1) upto_le [OF rows]] r(1,3) by simp
qed

end
