(* ===== verification/Marf_Forest.thy ===== *)
theory Marf_Forest
  imports Marf_Ops
begin

text \<open>
  The versioned MARF as a forest of maps: an abstract specification in which every state is a parent, a height
  and a map from paths to values, the runs of the MARF, and the theorem that each operation of the MARF does
  what the operation of the forest does. The history of a sealed state, the ancestor walk and the check of the
  tip follow.
\<close>

section \<open>Specification\<close>

record forest_state =
  fs_parent :: "bytes option"
  fs_height :: u32
  fs_content :: "bytes \<rightharpoonup> bytes"

record forest =
  fo_sealed :: "bytes \<rightharpoonup> forest_state"
  fo_active :: "(bytes \<times> forest_state) option"

text \<open>A state starts as its parent, with the keys of its height written over it.\<close>

definition forest_start ::
  "(bytes \<Rightarrow> bytes) \<Rightarrow> bytes option \<Rightarrow> bytes \<Rightarrow> u32 \<Rightarrow> (bytes \<rightharpoonup> bytes) \<Rightarrow> marf_error + forest_state" where
  "forest_start h parent block height content = bind_e (height_entries h parent block height) (\<lambda>entries.
     Inr \<lparr>fs_parent = parent, fs_height = height, fs_content = content ++ map_of (rev entries)\<rparr>)"

definition forest_begin :: "(bytes \<Rightarrow> bytes) \<Rightarrow> forest \<Rightarrow> bytes option \<Rightarrow> bytes \<Rightarrow> marf_error + forest" where
  "forest_begin h F parent block =
     (if fo_active F \<noteq> None then Inl WriteInProgress
      else if fo_sealed F block \<noteq> None then Inl VersionAlreadyExists
      else bind_e (case parent of
          None \<Rightarrow> forest_start h None block 0 Map.empty
        | Some p \<Rightarrow> (case fo_sealed F p of
            None \<Rightarrow> Inl UnknownVersion
          | Some s \<Rightarrow> (case checked_add (fs_height s) 1 of
              None \<Rightarrow> Inl HeightOverflow
            | Some height \<Rightarrow> forest_start h parent block height (fs_content s))))
        (\<lambda>s. Inr (F\<lparr>fo_active := Some (block, s)\<rparr>)))"

definition forest_insert :: "forest \<Rightarrow> bytes \<Rightarrow> bytes \<Rightarrow> marf_error + forest" where
  "forest_insert F path v = (case fo_active F of
       None \<Rightarrow> Inl WriteNotBegun
     | Some (block, s) \<Rightarrow> Inr (F\<lparr>fo_active := Some (block, s\<lparr>fs_content := (fs_content s)(path \<mapsto> v)\<rparr>)\<rparr>))"

definition forest_seal_to :: "forest \<Rightarrow> bytes \<Rightarrow> marf_error + forest" where
  "forest_seal_to F block = (if fo_sealed F block \<noteq> None then Inl VersionAlreadyExists
     else case fo_active F of
       None \<Rightarrow> Inl WriteNotBegun
     | Some (_, s) \<Rightarrow> Inr \<lparr>fo_sealed = (fo_sealed F)(block \<mapsto> s), fo_active = None\<rparr>)"

definition forest_abort :: "forest \<Rightarrow> marf_error + forest" where
  "forest_abort F = (if fo_active F = None then Inl WriteNotBegun else Inr (F\<lparr>fo_active := None\<rparr>))"

definition forest_discard_above :: "forest \<Rightarrow> u32 \<Rightarrow> marf_error + forest" where
  "forest_discard_above F height = (if fo_active F \<noteq> None then Inl WriteInProgress
     else Inr (F\<lparr>fo_sealed := (\<lambda>b. case fo_sealed F b of
       Some s \<Rightarrow> if fs_height s \<le> height then Some s else None | None \<Rightarrow> None)\<rparr>))"

section \<open>Runs\<close>

datatype marf_op = OpBegin "bytes option" bytes | OpInsert bytes bytes | OpSealTo bytes | OpAbort | OpDiscardAbove u32

text \<open>The lengths the types of the arguments have.\<close>

fun op_ok :: "marf_op \<Rightarrow> bool" where
  "op_ok (OpBegin parent block) \<longleftrightarrow> length block = 32 \<and> (case parent of None \<Rightarrow> True | Some p \<Rightarrow> length p = 32)"
| "op_ok (OpInsert path v) \<longleftrightarrow> length path = 32 \<and> length v = 40"
| "op_ok (OpSealTo block) \<longleftrightarrow> length block = 32"
| "op_ok _ \<longleftrightarrow> True"

fun marf_apply :: "(bytes \<Rightarrow> bytes) \<Rightarrow> marf_op \<Rightarrow> versioned_marf \<Rightarrow> marf_error + versioned_marf" where
  "marf_apply h (OpBegin parent block) m = marf_begin h m parent block"
| "marf_apply h (OpInsert path v) m = marf_insert_path m path v"
| "marf_apply h (OpSealTo block) m = bind_e (marf_seal_to h m block) (\<lambda>(_, m'). Inr m')"
| "marf_apply h OpAbort m = marf_abort m"
| "marf_apply h (OpDiscardAbove height) m = bind_e (marf_discard_above m height) (\<lambda>(_, m'). Inr m')"

fun forest_apply :: "(bytes \<Rightarrow> bytes) \<Rightarrow> marf_op \<Rightarrow> forest \<Rightarrow> marf_error + forest" where
  "forest_apply h (OpBegin parent block) F = forest_begin h F parent block"
| "forest_apply h (OpInsert path v) F = forest_insert F path v"
| "forest_apply h (OpSealTo block) F = forest_seal_to F block"
| "forest_apply h OpAbort F = forest_abort F"
| "forest_apply h (OpDiscardAbove height) F = forest_discard_above F height"

text \<open>The states an empty MARF can reach, with the snapshots taken so far. No snapshot is kept over a discard,
  which may take away the states it extends.\<close>

inductive marf_reachable :: "(bytes \<Rightarrow> bytes) \<Rightarrow> versioned_marf \<Rightarrow> active_version option set \<Rightarrow> bool" for h where
  reach_new: "marf_reachable h (marf_from_storage storage_new) {}"
| reach_apply: "marf_reachable h m S \<Longrightarrow> op_ok op \<Longrightarrow> marf_apply h op m = Inr m' \<Longrightarrow>
    S' = (case op of OpDiscardAbove _ \<Rightarrow> {} | _ \<Rightarrow> S) \<Longrightarrow> marf_reachable h m' S'"
| reach_snapshot: "marf_reachable h m S \<Longrightarrow> marf_reachable h m (insert (marf_snapshot m) S)"
| reach_restore: "marf_reachable h m S \<Longrightarrow> s \<in> S \<Longrightarrow> marf_reachable h (marf_restore m s) S"

section \<open>The forest of a MARF\<close>

definition parent_hash :: "trie_storage \<Rightarrow> block_record \<Rightarrow> bytes option" where
  "parent_hash st r = (case br_parent r of None \<Rightarrow> None
     | Some i \<Rightarrow> (case storage_block_hash st i of Inr b \<Rightarrow> Some b | Inl _ \<Rightarrow> None))"

definition forest_of :: "versioned_marf \<Rightarrow> forest" where
  "forest_of m = \<lparr>fo_sealed = (\<lambda>b. map_option (\<lambda>r. \<lparr>fs_parent = parent_hash (vm_storage m) r, fs_height = br_height r,
       fs_content = sealed_content m b\<rparr>) (find_block (vm_storage m) b)),
     fo_active = map_option (\<lambda>a. (av_block a, \<lparr>fs_parent = av_parent a, fs_height = av_height a,
       fs_content = active_content m\<rparr>)) (vm_active m)\<rparr>"

lemma forest_of_simps [simp]:
  "fo_active (forest_of m) = None \<longleftrightarrow> vm_active m = None"
  "fo_sealed (forest_of m) b = None \<longleftrightarrow> find_block (vm_storage m) b = None"
  by (simp_all add: forest_of_def)

section \<open>The operations refine the forest's\<close>

lemma sealed_content_cong:
  "(\<And>path. length path = 32 \<Longrightarrow> marf_get_path m b path = marf_get_path m' b' path) \<Longrightarrow>
    sealed_content m b = sealed_content m' b'"
  by (auto simp: sealed_content_def fun_eq_iff)

lemma sealed_content_active: "sealed_content (m\<lparr>vm_active := x\<rparr>) = sealed_content m"
proof -
  have "vm_storage (m\<lparr>vm_active := x\<rparr>) = vm_storage m" by simp
  then show ?thesis by (simp only: sealed_content_def [abs_def] marf_get_path_def)
qed

lemma insert_path_ok:
  assumes "marf_ok m" "vm_active m = Some a" "length path = 32" "length v = 40"
  obtains a' where "marf_insert_path m path v = Inr (m\<lparr>vm_active := Some a'\<rparr>)" "active_ok (vm_storage m) a'"
    "av_block a' = av_block a" "av_parent a' = av_parent a" "av_height a' = av_height a"
    "active_content (m\<lparr>vm_active := Some a'\<rparr>) = (active_content m)(path \<mapsto> v)"
proof -
  have ok: "storage_ok (vm_storage m)" "active_ok (vm_storage m) a" using assms(1,2) by (simp_all add: marf_ok_def)
  then have "open_root (vm_storage m) (av_height a) (av_root_children a)"
    by (simp add: open_root_def storage_okD(1) active_ok_def)
  from state_trie.put_ok [OF this assms(3,4)] obtain children where
    ins: "insert_under_root (vm_storage m) (av_root_children a) path v = Inr children"
      "open_root (vm_storage m) (av_height a) children"
      "updates 32 path v (find_path (vm_storage m) (av_root_children a)) (find_path (vm_storage m) children)" by blast
  let ?a = "a\<lparr>av_root_children := children\<rparr>"
  have "active_content (m\<lparr>vm_active := Some ?a\<rparr>) = (active_content m)(path \<mapsto> v)"
    using ins(3) assms(2,3) by (auto simp: active_content_def get_active_path_def updates_def fun_eq_iff)
  moreover have "active_ok (vm_storage m) ?a" using ok(2) ins(2)
    by (simp add: active_ok_def open_root_def split: option.splits)
  ultimately show ?thesis using ins(1) assms(2) by (intro that [of ?a]) (simp_all add: marf_insert_path_def)
qed

lemma insert_refines:
  assumes "marf_ok m" "length path = 32" "length v = 40"
  shows "map_sum id forest_of (marf_insert_path m path v) = forest_insert (forest_of m) path v"
    "marf_insert_path m path v = Inr m' \<Longrightarrow> marf_ok m' \<and> vm_storage m' = vm_storage m"
proof -
  have "map_sum id forest_of (marf_insert_path m path v) = forest_insert (forest_of m) path v \<and>
      (\<forall>m'. marf_insert_path m path v = Inr m' \<longrightarrow> marf_ok m' \<and> vm_storage m' = vm_storage m)"
  proof (cases "vm_active m")
    case (Some a)
    obtain a' where a': "marf_insert_path m path v = Inr (m\<lparr>vm_active := Some a'\<rparr>)" "active_ok (vm_storage m) a'"
        "av_block a' = av_block a" "av_parent a' = av_parent a" "av_height a' = av_height a"
        "active_content (m\<lparr>vm_active := Some a'\<rparr>) = (active_content m)(path \<mapsto> v)"
      by (rule insert_path_ok [OF assms(1) Some assms(2,3)])
    then have "forest_of (m\<lparr>vm_active := Some a'\<rparr>) = (forest_of m)\<lparr>fo_active := Some (av_block a,
        \<lparr>fs_parent = av_parent a, fs_height = av_height a, fs_content = (active_content m)(path \<mapsto> v)\<rparr>)\<rparr>"
      by (simp add: forest_of_def sealed_content_active)
    with a' Some assms(1) show ?thesis by (simp add: forest_insert_def forest_of_def marf_ok_def)
  qed (simp add: marf_insert_path_def forest_insert_def forest_of_def)
  then show "map_sum id forest_of (marf_insert_path m path v) = forest_insert (forest_of m) path v"
    "marf_insert_path m path v = Inr m' \<Longrightarrow> marf_ok m' \<and> vm_storage m' = vm_storage m" by blast+
qed

lemma abort_refines:
  "map_sum id forest_of (marf_abort m) = forest_abort (forest_of m)"
  "marf_ok m \<Longrightarrow> marf_abort m = Inr m' \<Longrightarrow> marf_ok m' \<and> vm_storage m' = vm_storage m"
proof -
  have "forest_of (m\<lparr>vm_active := None\<rparr>) = (forest_of m)\<lparr>fo_active := None\<rparr>"
    by (simp add: forest_of_def sealed_content_active)
  then show "map_sum id forest_of (marf_abort m) = forest_abort (forest_of m)"
    by (simp add: marf_abort_def forest_abort_def)
  show "marf_ok m \<Longrightarrow> marf_abort m = Inr m' \<Longrightarrow> marf_ok m' \<and> vm_storage m' = vm_storage m"
    by (auto simp: marf_abort_def marf_ok_def split: if_splits)
qed

lemma parent_hash_row:
  assumes "storage_ok st" "p \<in> set (ts_blocks st)" "br_parent r = Some (br_id p)"
  shows "parent_hash st r = Some (br_hash p)"
proof -
  have "storage_block_hash st (br_id p) = Inr (br_hash p)"
    using assms(1,2) storage_okD(3) [OF assms(1,2)] by (auto simp: storage_block_hash_iff storage_okD(1) row_ok_def)
  then show ?thesis using assms(3) by (simp add: parent_hash_def)
qed

lemma parent_hash_mono:
  assumes "storage_ok st" "storage_ok st'" "row_ok st r" "\<And>p. p \<in> set (ts_blocks st) \<Longrightarrow> br_parent r = Some (br_id p) \<Longrightarrow> p \<in> set (ts_blocks st')"
  shows "parent_hash st' r = parent_hash st r"
proof (cases "br_parent r")
  case (Some i)
  then obtain p where p: "p \<in> set (ts_blocks st)" "br_id p = i" using assms(3) by (auto simp: row_ok_def parent_ok_def)
  with Some parent_hash_row [OF assms(1), of p r] parent_hash_row [OF assms(2), of p r] assms(4) show ?thesis by simp
qed (simp add: parent_hash_def)

lemma discard_upto:
  "storage_discard_above st height = (length (filter (\<lambda>r. height < br_height r) (ts_blocks st)), rows_upto st height)"
  by (simp add: rows_upto_def storage_discard_above_def Let_def)

lemma discard_refines:
  assumes "marf_ok m"
  shows "map_sum id forest_of (bind_e (marf_discard_above m height) (\<lambda>(_, m'). Inr m')) = forest_discard_above (forest_of m) height"
    "marf_discard_above m height = Inr (n, m') \<Longrightarrow> marf_ok m'"
proof -
  have ok: "storage_ok (vm_storage m)" using assms by (simp add: marf_ok_def)
  let ?m = "\<lparr>vm_storage = rows_upto (vm_storage m) height, vm_active = None\<rparr>"
  show "marf_ok m'" if "marf_discard_above m height = Inr (n, m')"
    using that upto_ok [OF ok, of height] by (cases m) (auto simp: marf_discard_above_def discard_upto marf_ok_def split: if_splits)
  show "map_sum id forest_of (bind_e (marf_discard_above m height) (\<lambda>(_, m'). Inr m')) = forest_discard_above (forest_of m) height"
  proof (cases "vm_active m")
    case None
    have m: "m = \<lparr>vm_storage = vm_storage m, vm_active = None\<rparr>" using None by (cases m) simp
    have "fo_sealed (forest_of ?m) b = (case fo_sealed (forest_of m) b of
        Some s \<Rightarrow> if fs_height s \<le> height then Some s else None | None \<Rightarrow> None)" for b
    proof (cases "find_block (vm_storage m) b")
      case (Some r)
      then have r: "r \<in> set (ts_blocks (vm_storage m))" using find_block_Some [OF ok] by blast
      have "parent_hash (rows_upto (vm_storage m) height) r = parent_hash (vm_storage m) r" if "br_height r \<le> height"
      proof (rule parent_hash_mono [OF upto_ok [OF ok] ok upto_row_ok [OF ok r that], symmetric])
      qed simp
      moreover have "sealed_content ?m b = sealed_content m b" if "br_height r \<le> height"
        using upto_content(2) [OF ok] upto_content(1) [OF ok, of _ height b] Some that
        by (subst m, intro sealed_content_cong) auto
      ultimately show ?thesis using upto_content(1) [OF ok, of "replicate 32 0" height b] Some by (simp add: forest_of_def)
    qed (use upto_content(1) [OF ok, of "replicate 32 0" height b] in \<open>simp add: forest_of_def\<close>)
    then have "forest_of ?m = (forest_of m)\<lparr>fo_sealed := (\<lambda>b. case fo_sealed (forest_of m) b of
        Some s \<Rightarrow> if fs_height s \<le> height then Some s else None | None \<Rightarrow> None)\<rparr>"
      using None by (intro forest.equality) (simp_all add: fun_eq_iff forest_of_def [of ?m] forest_of_def [of m])
    moreover have "bind_e (marf_discard_above m height) (\<lambda>(_, m'). Inr m') = Inr ?m"
      by (subst m, subst marf_discard_above_def) (simp add: discard_upto)
    ultimately show ?thesis using None by (simp add: forest_discard_above_def)
  qed (simp add: marf_discard_above_def forest_discard_above_def)
qed

text \<open>A new state is open, and its content is its start's with the height keys written over it.\<close>

lemma start_ok:
  assumes ok: "marf_ok m" "open_root (vm_storage m) height children" and digest: "\<forall>x. length (h x) = 32"
    and len: "length block = 32" "\<forall>p. parent = Some p \<longrightarrow> length p = 32 \<and> height \<noteq> 0"
    and content: "\<forall>path. length path = 32 \<longrightarrow> find_path (vm_storage m) children path = Inr (content path)"
      "\<forall>path. length path \<noteq> 32 \<longrightarrow> content path = None"
    and parent: "case parent of None \<Rightarrow> height = 0
      | Some p \<Rightarrow> \<exists>r \<in> set (ts_blocks (vm_storage m)). br_hash r = p \<and> unat height = Suc (unat (br_height r))"
  obtains children' where "insert_metadata h (vm_storage m) children parent block height = Inr children'"
    "forest_start h parent block height content = Inr \<lparr>fs_parent = parent, fs_height = height, fs_content =
       active_content (m\<lparr>vm_active := Some \<lparr>av_block = block, av_parent = parent, av_height = height, av_root_children = children'\<rparr>\<rparr>)\<rparr>"
    "active_ok (vm_storage m) \<lparr>av_block = block, av_parent = parent, av_height = height, av_root_children = children'\<rparr>"
proof -
  obtain children' entries where run: "insert_metadata h (vm_storage m) children parent block height = Inr children'"
      "height_entries h parent block height = Inr entries" "open_root (vm_storage m) height children'"
      "\<forall>(path, v) \<in> set entries. length path = 32 \<and> length v = 40"
      "\<And>q. length q = 32 \<Longrightarrow> find_path (vm_storage m) children' q =
        (case map_of (rev entries) q of Some v \<Rightarrow> Inr (Some v) | None \<Rightarrow> find_path (vm_storage m) children q)"
    by (rule insert_metadata_ok [OF ok(2) digest len], rule that)
  let ?a = "\<lparr>av_block = block, av_parent = parent, av_height = height, av_root_children = children'\<rparr>"
  have other: "map_of (rev entries) q = None" if "length q \<noteq> 32" for q
    using run(4) that by (auto simp: map_of_eq_None_iff)
  have "active_content (m\<lparr>vm_active := Some ?a\<rparr>) q = (content ++ map_of (rev entries)) q" for q
  proof (cases "length q = 32")
    case True
    then show ?thesis
      using run(5) [OF True] content(1) True
      by (simp add: active_content_def get_active_path_def map_add_def split: option.splits)
  qed (simp add: active_content_def map_add_def other content(2))
  then have "active_content (m\<lparr>vm_active := Some ?a\<rparr>) = content ++ map_of (rev entries)" by (rule ext)
  moreover have "active_ok (vm_storage m) ?a"
    using run(3) parent by (simp add: active_ok_def open_root_def split: option.splits)
  ultimately show ?thesis using run(1,2) that [of children'] by (simp add: forest_start_def)
qed

lemma open_root_Nil: "storage_ok st \<Longrightarrow> open_root st height []"
  by (simp add: open_root_def root_ok_def children_ok_def storage_okD(1))

lemma begin_some:
  assumes ok: "marf_ok m" "vm_active m = None" "find_block (vm_storage m) block = None" and digest: "\<forall>x. length (h x) = 32"
    and len: "length block = 32" and r: "r \<in> set (ts_blocks (vm_storage m))" "checked_add (br_height r) 1 = Some height"
  obtains a where "marf_begin h m (Some (br_hash r)) block = Inr (m\<lparr>vm_active := Some a\<rparr>)" "active_ok (vm_storage m) a"
    "forest_start h (Some (br_hash r)) block height (sealed_content m (br_hash r)) = Inr \<lparr>fs_parent = av_parent a,
       fs_height = av_height a, fs_content = active_content (m\<lparr>vm_active := Some a\<rparr>)\<rparr>" "av_block a = block"
proof -
  have st: "storage_ok (vm_storage m)" using ok(1) by (simp add: marf_ok_def)
  have height: "unat height = Suc (unat (br_height r))" using r(2) by (auto dest: unat_checked_add)
  then have above: "br_height r \<le> height" "height \<noteq> 0" by (auto simp: word_le_nat_alt)
  have hash: "length (br_hash r) = 32" using storage_okD(3) [OF st r(1)] by (simp add: row_ok_def)
  obtain children where root: "extend_root (vm_storage m) r = Inr children"
      "root_ok (rows_upto (vm_storage m) (br_height r)) children"
      "\<And>path. length path = 32 \<Longrightarrow> find_path (vm_storage m) children path = marf_get_path m (br_hash r) path"
    by (rule extend_root_ok [OF st r(1)], rule that)
  have opened: "open_root (vm_storage m) height children"
    using root_ok_mono [OF upto_mono [OF storage_okD(1) [OF st] above(1)] root(2)] storage_okD(1) [OF st] by (simp add: open_root_def)
  have named: "\<forall>p. Some (br_hash r) = Some p \<longrightarrow> length p = 32 \<and> height \<noteq> 0" using above(2) hash by simp
  have content: "\<forall>path. length path = 32 \<longrightarrow> find_path (vm_storage m) children path = Inr (sealed_content m (br_hash r) path)"
    using root(3) get_path_content [OF st] by metis
  have outside: "\<forall>path. length path \<noteq> 32 \<longrightarrow> sealed_content m (br_hash r) path = None"
    by (simp add: sealed_content_def)
  have parent: "case Some (br_hash r) of None \<Rightarrow> height = 0
      | Some p \<Rightarrow> \<exists>r \<in> set (ts_blocks (vm_storage m)). br_hash r = p \<and> unat height = Suc (unat (br_height r))"
    using r(1) height by auto
  obtain children' where run: "insert_metadata h (vm_storage m) children (Some (br_hash r)) block height = Inr children'"
      "forest_start h (Some (br_hash r)) block height (sealed_content m (br_hash r)) = Inr \<lparr>fs_parent = Some (br_hash r),
        fs_height = height, fs_content = active_content (m\<lparr>vm_active := Some \<lparr>av_block = block,
          av_parent = Some (br_hash r), av_height = height, av_root_children = children'\<rparr>\<rparr>)\<rparr>"
      "active_ok (vm_storage m) \<lparr>av_block = block, av_parent = Some (br_hash r), av_height = height, av_root_children = children'\<rparr>"
    by (rule start_ok [OF ok(1) opened digest len named content outside parent], rule that)
  show ?thesis
    by (rule that [OF _ run(3)])
      (use run ok(2,3) root(1) r(2) find_block_row [OF st r(1)] in \<open>simp_all add: marf_begin_def storage_block_ok [OF st]\<close>)
qed

lemma forest_of_active:
  "forest_of (m\<lparr>vm_active := Some a\<rparr>) = (forest_of m)\<lparr>fo_active := Some (av_block a, \<lparr>fs_parent = av_parent a,
     fs_height = av_height a, fs_content = active_content (m\<lparr>vm_active := Some a\<rparr>)\<rparr>)\<rparr>"
  by (simp add: forest_of_def sealed_content_active)

text \<open>The outcome of beginning: refused alike, or the same state begun.\<close>

definition begun :: "(bytes \<Rightarrow> bytes) \<Rightarrow> versioned_marf \<Rightarrow> bytes option \<Rightarrow> bytes \<Rightarrow> bool" where
  "begun h m parent block \<longleftrightarrow> map_sum id forest_of (marf_begin h m parent block) = forest_begin h (forest_of m) parent block \<and>
     (\<forall>m'. marf_begin h m parent block = Inr m' \<longrightarrow> marf_ok m' \<and> vm_storage m' = vm_storage m)"

lemma begun_none:
  assumes ok: "marf_ok m" "vm_active m = None" "find_block (vm_storage m) block = None" and digest: "\<forall>x. length (h x) = 32"
    and len: "length block = 32"
  shows "begun h m None block"
proof -
  have st: "storage_ok (vm_storage m)" using ok(1) by (simp add: marf_ok_def)
  have facts: "\<forall>p. None = Some p \<longrightarrow> length p = 32 \<and> (0 :: u32) \<noteq> 0"
      "\<forall>path. length path = 32 \<longrightarrow> find_path (vm_storage m) [] path = Inr (Map.empty path)"
      "\<forall>path. length path \<noteq> 32 \<longrightarrow> Map.empty path = None"
      "case None of None \<Rightarrow> (0 :: u32) = 0
        | Some p \<Rightarrow> \<exists>r \<in> set (ts_blocks (vm_storage m)). br_hash r = p \<and> unat (0 :: u32) = Suc (unat (br_height r))"
    by (simp_all add: find_path_def)
  obtain children' where run: "insert_metadata h (vm_storage m) [] None block 0 = Inr children'"
      "forest_start h None block 0 Map.empty = Inr \<lparr>fs_parent = None, fs_height = 0, fs_content = active_content
        (m\<lparr>vm_active := Some \<lparr>av_block = block, av_parent = None, av_height = 0, av_root_children = children'\<rparr>\<rparr>)\<rparr>"
      "active_ok (vm_storage m) \<lparr>av_block = block, av_parent = None, av_height = 0, av_root_children = children'\<rparr>"
    by (rule start_ok [OF ok(1) open_root_Nil [OF st] digest len facts], rule that)
  then show ?thesis
    using ok st by (simp add: begun_def marf_begin_def storage_block_ok forest_begin_def forest_of_active marf_ok_def)
qed

lemma begun_some:
  assumes ok: "marf_ok m" "vm_active m = None" "find_block (vm_storage m) block = None" and digest: "\<forall>x. length (h x) = 32"
    and len: "length block = 32"
  shows "begun h m (Some p) block"
proof -
  have st: "storage_ok (vm_storage m)" using ok(1) by (simp add: marf_ok_def)
  show ?thesis
  proof (cases "find_block (vm_storage m) p")
    case None
    then show ?thesis
      using ok st by (simp add: begun_def marf_begin_def storage_block_ok forest_begin_def forest_of_def)
  next
    case (Some r)
    then have r: "r \<in> set (ts_blocks (vm_storage m))" "br_hash r = p" using find_block_Some [OF st] by auto
    show ?thesis
    proof (cases "checked_add (br_height r) 1")
      case None
      obtain children where "extend_root (vm_storage m) r = Inr children" by (rule extend_root_ok [OF st r(1)])
      then show ?thesis
        using ok st Some None by (simp add: begun_def marf_begin_def storage_block_ok forest_begin_def forest_of_def)
    next
      case (Some height)
      obtain a where a: "marf_begin h m (Some (br_hash r)) block = Inr (m\<lparr>vm_active := Some a\<rparr>)" "active_ok (vm_storage m) a"
          "forest_start h (Some (br_hash r)) block height (sealed_content m (br_hash r)) = Inr \<lparr>fs_parent = av_parent a,
            fs_height = av_height a, fs_content = active_content (m\<lparr>vm_active := Some a\<rparr>)\<rparr>" "av_block a = block"
        by (rule begin_some [OF ok digest len r(1) Some], rule that)
      have "fo_sealed (forest_of m) p = Some \<lparr>fs_parent = parent_hash (vm_storage m) r, fs_height = br_height r,
          fs_content = sealed_content m p\<rparr>"
        using \<open>find_block (vm_storage m) p = Some r\<close> by (simp add: forest_of_def)
      with a Some r(2) ok st show ?thesis
        by (simp add: begun_def forest_begin_def forest_of_active marf_ok_def)
    qed
  qed
qed

lemma begin_refines:
  assumes "marf_ok m" "\<forall>x. length (h x) = 32" "length block = 32"
  shows "begun h m parent block"
proof (cases "vm_active m = None \<and> find_block (vm_storage m) block = None")
  case True
  then show ?thesis using begun_none begun_some assms by (cases parent) auto
next
  case False
  then show ?thesis
    using assms(1) by (auto simp: begun_def marf_begin_def forest_begin_def marf_ok_def storage_block_ok)
qed

section \<open>Sealing refines the forest's\<close>

lemma sealed_forest:
  assumes st: "storage_ok st" "active_ok st a" "extends st r w st'" "row_ok st' r"
    and r: "br_hash r = block" "br_height r = av_height a"
      "br_parent r = map_option br_id (Option.bind (av_parent a) (find_block st))"
    and get: "\<forall>path. length path = 32 \<longrightarrow> marf_get_path \<lparr>vm_storage = st', vm_active = None\<rparr> block path =
      find_path st (av_root_children a) path"
  shows "forest_of \<lparr>vm_storage = st', vm_active = None\<rparr> =
    \<lparr>fo_sealed = (fo_sealed (forest_of \<lparr>vm_storage = st, vm_active = Some a\<rparr>))(block \<mapsto> \<lparr>fs_parent = av_parent a,
       fs_height = av_height a, fs_content = active_content \<lparr>vm_storage = st, vm_active = Some a\<rparr>\<rparr>), fo_active = None\<rparr>"
proof -
  let ?m' = "\<lparr>vm_storage = st', vm_active = None\<rparr>" and ?m = "\<lparr>vm_storage = st, vm_active = Some a\<rparr>"
  have ok': "storage_ok st'" by (rule extends_ok [OF st(1,3,4)])
  have rows: "set (ts_blocks st') = insert r (set (ts_blocks st))" using st(3) by (auto simp: extends_def)
  have "parent_hash st' r = av_parent a"
  proof (cases "av_parent a")
    case (Some b)
    then obtain p where p: "p \<in> set (ts_blocks st)" "br_hash p = b" using st(2) by (auto simp: active_ok_def)
    then have "br_parent r = Some (br_id p)" using r(3) Some find_block_row [OF st(1) p(1)] by simp
    with parent_hash_row [OF ok', of p r] p rows Some show ?thesis by simp
  qed (use r(3) in \<open>simp add: parent_hash_def\<close>)
  moreover have "sealed_content ?m' block = active_content ?m"
    using get by (auto simp: sealed_content_def active_content_def get_active_path_def fun_eq_iff)
  moreover have "find_block st' block = Some r" using find_block_row [OF ok', of r] rows r(1) by simp
  ultimately have new: "fo_sealed (forest_of ?m') block = Some \<lparr>fs_parent = av_parent a, fs_height = av_height a,
      fs_content = active_content ?m\<rparr>"
    using r(2) by (simp add: forest_of_def)
  have "fo_sealed (forest_of ?m') b = fo_sealed (forest_of ?m) b" if "b \<noteq> block" for b
  proof (cases "find_block st b")
    case (Some s)
    then have s: "s \<in> set (ts_blocks st)" using find_block_Some [OF st(1)] by blast
    have "parent_hash st' s = parent_hash st s"
      by (rule parent_hash_mono [OF st(1) ok' storage_okD(3) [OF st(1) s]]) (simp add: rows)
    moreover have "sealed_content ?m' b = sealed_content ?m b"
      by (rule sealed_content_cong, rule extends_content(2) [OF st(1,3,4)]) (use that r(1) in auto)
    ultimately show ?thesis
      using Some extends_content(1) [OF st(1,3,4), of b "replicate 32 0"] that r(1) by (simp add: forest_of_def)
  qed (use extends_content(1) [OF st(1,3,4), of b "replicate 32 0"] that r(1) in \<open>simp add: forest_of_def\<close>)
  with new have "fo_sealed (forest_of ?m') = (fo_sealed (forest_of ?m))(block \<mapsto> \<lparr>fs_parent = av_parent a,
      fs_height = av_height a, fs_content = active_content ?m\<rparr>)"
    by (simp add: fun_eq_iff)
  moreover have "fo_active (forest_of ?m') = None" by simp
  ultimately show ?thesis by (intro forest.equality) simp_all
qed

text \<open>Sealing is refused for want of ids or node numbers, or is the forest's.\<close>

definition exhausted :: "(bytes \<Rightarrow> bytes) \<Rightarrow> versioned_marf \<Rightarrow> bytes \<Rightarrow> bool" where
  "exhausted h m block \<longleftrightarrow> marf_seal_to h m block \<in> {Inl MarfStorage, Inl HeightOverflow} \<and>
     vm_active m \<noteq> None \<and> find_block (vm_storage m) block = None"

definition sealed_as :: "(bytes \<Rightarrow> bytes) \<Rightarrow> versioned_marf \<Rightarrow> bytes \<Rightarrow> bytes \<Rightarrow> versioned_marf \<Rightarrow> bool" where
  "sealed_as h m block root m' \<longleftrightarrow> marf_ok m' \<and> vm_active m' = None \<and> pending_root h m = Inr root \<and>
     marf_root m' block = Inr (Some root) \<and> marf_height m' block = Inr (map_option av_height (vm_active m)) \<and>
     (\<forall>a. active_ok (vm_storage m) a \<longrightarrow> active_ok (vm_storage m') a) \<and>
     (\<forall>b r. find_block (vm_storage m) b = Some r \<longrightarrow> find_block (vm_storage m') b = Some r) \<and>
     (\<forall>path. length path = 32 \<longrightarrow> marf_get_path m' block path = get_active_path m path)"

lemma seal_refines:
  assumes "marf_ok m" "\<forall>x. length (h x) = 32" "length block = 32"
  shows "(exhausted h m block \<or> map_sum id (\<lambda>(_, m'). forest_of m') (marf_seal_to h m block) = forest_seal_to (forest_of m) block) \<and>
    (\<forall>root m'. marf_seal_to h m block = Inr (root, m') \<longrightarrow> sealed_as h m block root m')"
proof -
  have st: "storage_ok (vm_storage m)" using assms(1) by (simp add: marf_ok_def)
  show ?thesis
  proof (cases "vm_active m = None \<or> find_block (vm_storage m) block \<noteq> None")
    case True
    then show ?thesis using st
      by (cases "vm_active m") (auto simp: marf_seal_to_def storage_block_ok forest_seal_to_def forest_of_def)
  next
    case False
    then obtain a where a: "vm_active m = Some a" by auto
    then have m: "m = \<lparr>vm_storage = vm_storage m, vm_active = Some a\<rparr>" by (cases m) simp
    have ok: "active_ok (vm_storage m) a" "find_block (vm_storage m) block = None"
      using assms(1) a False by (simp_all add: marf_ok_def)
    have seal: "marf_seal_to h m block = bind_e (write_sealed h (vm_storage m) block a)
        (\<lambda>(root, st). Inr (root, \<lparr>vm_storage = st, vm_active = None\<rparr>))"
      using st a ok(2) by (simp add: marf_seal_to_def storage_block_ok)
    from write_sealed_ok [OF st ok assms(3,2)] show ?thesis
    proof (elim disjE exE conjE)
      fix root st' r w
      assume run: "write_sealed h (vm_storage m) block a = Inr (root, st')" "extends (vm_storage m) r w st'" "row_ok st' r"
          "br_hash r = block" "br_height r = av_height a" "br_root r = root"
          "br_parent r = map_option br_id (Option.bind (av_parent a) (find_block (vm_storage m)))"
          "pending_root h \<lparr>vm_storage = vm_storage m, vm_active = Some a\<rparr> = Inr root"
        and get: "\<forall>path. length path = 32 \<longrightarrow> marf_get_path \<lparr>vm_storage = st', vm_active = None\<rparr> block path =
            find_path (vm_storage m) (av_root_children a) path"
      note ok' = extends_ok [OF st run(2,3)]
      have "find_block st' block = Some r" using find_block_row [OF ok', of r] run(2,4) by (simp add: extends_def)
      then have "marf_root \<lparr>vm_storage = st', vm_active = None\<rparr> block = Inr (Some root)"
          "marf_height \<lparr>vm_storage = st', vm_active = None\<rparr> block = Inr (Some (av_height a))"
        using run(5,6) by (simp_all add: marf_root_def marf_height_def storage_block_ok [OF ok'])
      moreover have "find_block st' b = Some s" if "find_block (vm_storage m) b = Some s" for b s
        using extends_content(1) [OF st run(2,3), of b "replicate 32 0"] that ok(2) run(4) by (cases "b = br_hash r") auto
      ultimately have "sealed_as h m block root \<lparr>vm_storage = st', vm_active = None\<rparr>"
        using run(8) get ok' m a extends_active_ok [OF st run(2)]
        by (simp add: sealed_as_def marf_ok_def get_active_path_def)
      moreover have "forest_seal_to (forest_of m) block = Inr (forest_of \<lparr>vm_storage = st', vm_active = None\<rparr>)"
        using sealed_forest [OF st ok(1) run(2,3,4,5,7) get] ok(2) a m by (simp add: forest_seal_to_def forest_of_def)
      ultimately show ?thesis using seal run(1) by auto
    qed (use seal False in \<open>auto simp: exhausted_def\<close>)
  qed
qed

section \<open>Reachable states\<close>

lemma apply_ok:
  assumes "marf_ok m" "\<forall>x. length (h x) = 32" "op_ok op" "marf_apply h op m = Inr m'"
  shows "marf_ok m'"
    "(\<And>height. op \<noteq> OpDiscardAbove height) \<Longrightarrow> active_ok (vm_storage m) a \<Longrightarrow> active_ok (vm_storage m') a"
proof -
  have "marf_ok m' \<and> ((\<forall>height. op \<noteq> OpDiscardAbove height) \<longrightarrow> active_ok (vm_storage m) a \<longrightarrow> active_ok (vm_storage m') a)"
  proof (cases op)
    case (OpBegin parent block)
    then show ?thesis using begin_refines [OF assms(1,2), of block parent] assms(3,4) by (simp add: begun_def)
  next
    case (OpInsert path v)
    then show ?thesis using insert_refines(2) [OF assms(1), of path v m'] assms(3,4) by simp
  next
    case (OpSealTo block)
    then show ?thesis
      using seal_refines [OF assms(1,2), of block] assms(3,4) by (auto simp: bind_e_Inr_iff sealed_as_def)
  next
    case OpAbort
    then show ?thesis using abort_refines(2) [OF assms(1)] assms(4) by simp
  next
    case (OpDiscardAbove height)
    then show ?thesis using discard_refines(2) [OF assms(1)] assms(4) by (auto simp: bind_e_Inr_iff)
  qed
  then show "marf_ok m'"
    "(\<And>height. op \<noteq> OpDiscardAbove height) \<Longrightarrow> active_ok (vm_storage m) a \<Longrightarrow> active_ok (vm_storage m') a" by blast+
qed

lemma reachable_ok:
  assumes "marf_reachable h m S" "\<forall>x. length (h x) = 32"
  shows "marf_ok m \<and> (\<forall>s a. s \<in> S \<longrightarrow> s = Some a \<longrightarrow> active_ok (vm_storage m) a)"
  using assms(1)
proof (induction rule: marf_reachable.induct)
  case reach_new
  then show ?case by (simp add: marf_ok_def marf_from_storage_def storage_ok_def storage_new_def rows_distinct_def)
next
  case (reach_apply m S op m' S')
  then have ok: "marf_ok m" by blast
  note step = apply_ok [OF ok assms(2) reach_apply.hyps(2,3)]
  have "active_ok (vm_storage m') a" if "s \<in> S'" "s = Some a" for s a
    using step(2) reach_apply.IH reach_apply.hyps(4) that by (cases op) auto
  with step(1) show ?case by blast
next
  case (reach_snapshot m S)
  then show ?case by (auto simp: marf_snapshot_def marf_ok_def)
next
  case (reach_restore m S s)
  then show ?case by (auto simp: marf_restore_def marf_ok_def)
qed

lemmas reachable_marf_ok = reachable_ok [THEN conjunct1]

lemma marf_refines_apply:
  assumes "marf_ok m" "\<forall>x. length (h x) = 32" "op_ok op"
  shows "map_sum id forest_of (marf_apply h op m) = forest_apply h op (forest_of m) \<or>
    (\<exists>block. op = OpSealTo block \<and> exhausted h m block)"
proof (cases op)
  case (OpBegin parent block)
  then show ?thesis using begin_refines [OF assms(1,2), of block parent] assms(3) by (simp add: begun_def)
next
  case (OpInsert path v)
  then show ?thesis using insert_refines(1) [OF assms(1), of path v] assms(3) by simp
next
  case (OpSealTo block)
  have "map_sum id forest_of (bind_e x (\<lambda>(_, m'). Inr m')) = map_sum id (\<lambda>(_, m'). forest_of m') x" for x :: "marf_error + bytes \<times> versioned_marf"
    by (cases x) auto
  then show ?thesis using seal_refines [OF assms(1,2), of block] assms(3) OpSealTo by auto
next
  case OpAbort
  then show ?thesis by (simp add: abort_refines(1))
next
  case (OpDiscardAbove height)
  then show ?thesis using discard_refines(1) [OF assms(1)] by simp
qed



section \<open>The history of a sealed state\<close>

definition keeps :: "u32 \<Rightarrow> marf_op \<Rightarrow> bool" where
  "keeps height op = (case op of OpDiscardAbove limit \<Rightarrow> height \<le> limit | _ \<Rightarrow> True)"

lemma apply_keeps_row:
  assumes "marf_ok m" "\<forall>x. length (h x) = 32" "op_ok op" "marf_apply h op m = Inr m'"
    "find_block (vm_storage m) b = Some r" "keeps (br_height r) op"
  shows "find_block (vm_storage m') b = Some r"
proof (cases op)
  case (OpBegin parent block)
  then have "length block = 32" "marf_begin h m parent block = Inr m'" using assms(3,4) by simp_all
  then have "vm_storage m' = vm_storage m" using begin_refines [OF assms(1,2)] unfolding begun_def by blast
  with assms(5) show ?thesis by simp
next
  case (OpInsert path v)
  then have "vm_storage m' = vm_storage m" using insert_refines(2) [OF assms(1), of path v m'] assms(3,4) by simp
  with assms(5) show ?thesis by simp
next
  case (OpSealTo block)
  then obtain root where "marf_seal_to h m block = Inr (root, m')" using assms(4) by (auto simp: bind_e_Inr_iff)
  moreover have "length block = 32" using assms(3) OpSealTo by simp
  ultimately have "sealed_as h m block root m'" using seal_refines [OF assms(1,2)] by blast
  then show ?thesis using assms(5) by (simp add: sealed_as_def)
next
  case OpAbort
  then have "marf_abort m = Inr m'" using assms(4) by simp
  from abort_refines(2) [OF assms(1) this] assms(5) show ?thesis by simp
next
  case (OpDiscardAbove height)
  then have "vm_storage m' = rows_upto (vm_storage m) height"
    using assms(4) by (cases "vm_active m") (auto simp: marf_discard_above_def discard_upto)
  moreover have "br_height r \<le> height" using assms(6) OpDiscardAbove by (simp add: keeps_def)
  moreover have "storage_ok (vm_storage m)" using assms(1) by (simp add: marf_ok_def)
  ultimately show ?thesis using upto_content(1) [of "vm_storage m" "replicate 32 0" height b] assms(5) by simp
qed

lemma forest_keeps:
  assumes "forest_apply h op F = Inr F'" "fo_sealed F b = Some s" "keeps (fs_height s) op"
  shows "fo_sealed F' b = Some s"
proof (cases op)
  case (OpBegin parent block)
  then show ?thesis using assms(1,2) by (auto simp: forest_begin_def bind_e_Inr_iff split: if_splits)
next
  case (OpInsert path v)
  then show ?thesis using assms(1,2) by (auto simp: forest_insert_def split: option.splits)
next
  case (OpSealTo block)
  then show ?thesis using assms(1,2) by (auto simp: forest_seal_to_def split: if_splits option.splits)
next
  case OpAbort
  then show ?thesis using assms(1,2) by (auto simp: forest_abort_def split: if_splits)
next
  case (OpDiscardAbove height)
  then show ?thesis using assms by (auto simp: forest_discard_above_def keeps_def split: if_splits)
qed

lemma apply_keeps_content:
  assumes "marf_ok m" "\<forall>x. length (h x) = 32" "op_ok op" "marf_apply h op m = Inr m'"
    "find_block (vm_storage m) b = Some r" "keeps (br_height r) op"
  shows "sealed_content m' b = sealed_content m b"
proof -
  have "forest_apply h op (forest_of m) = Inr (forest_of m')"
    using marf_refines_apply [OF assms(1-3)] assms(4) by (auto simp: exhausted_def)
  from forest_keeps [OF this, of b] assms(5,6) apply_keeps_row [OF assms] show ?thesis by (simp add: forest_of_def)
qed

text \<open>C9: a sealed state is immutable. Whatever operations follow (new states begun on it or beside it, writes, seals,
  aborts, discards above its height or higher), as long as no discard reaches below its height the state keeps its root,
  its content root, its height and the value of every path.\<close>

theorem sealed_state_immutable:
  assumes "marf_reachable h m S" "\<forall>x. length (h x) = 32" "\<forall>op \<in> set ops. op_ok op \<and> keeps height op"
    and "marf_height m b = Inr (Some height)" "fold_e (\<lambda>m op. marf_apply h op m) m ops = Inr m'"
  shows "marf_root m' b = marf_root m b \<and> content_root m' b = content_root m b \<and> marf_height m' b = Inr (Some height) \<and>
    (\<forall>path. length path = 32 \<longrightarrow> marf_get_path m' b path = marf_get_path m b path)"
proof -
  have ok: "marf_ok m" by (rule reachable_marf_ok [OF assms(1,2)])
  then obtain r where r: "find_block (vm_storage m) b = Some r" "br_height r = height"
    using assms(4) by (auto simp: marf_height_def marf_ok_def storage_block_ok)
  have "marf_ok m' \<and> find_block (vm_storage m') b = Some r \<and> sealed_content m' b = sealed_content m b"
    using ok r(1) assms(3,5)
  proof (induction ops arbitrary: m)
    case (Cons op ops)
    then obtain m1 where m1: "marf_apply h op m = Inr m1" "fold_e (\<lambda>m op. marf_apply h op m) m1 ops = Inr m'"
      by (auto simp: bind_e_Inr_iff)
    have op: "op_ok op" "keeps (br_height r) op" using Cons.prems(3) r(2) by auto
    note step = Cons.prems(1) assms(2) op(1) m1(1)
    show ?case
      using Cons.IH [OF apply_ok(1) [OF step] apply_keeps_row [OF step Cons.prems(2) op(2)] _ m1(2)]
        apply_keeps_content [OF step Cons.prems(2) op(2)] Cons.prems(3) by simp
  qed simp
  then show ?thesis
    using ok r by (simp add: marf_root_def content_root_def marf_height_def marf_ok_def storage_block_ok get_path_content)
qed

section \<open>Ancestors and the tip\<close>

text \<open>The ancestor a number of parents up, by the reads of the MARF.\<close>

fun nth_parent :: "versioned_marf \<Rightarrow> nat \<Rightarrow> bytes \<Rightarrow> bytes option" where
  "nth_parent m 0 b = Some b"
| "nth_parent m (Suc n) b = (case marf_parent m b of Inr (Some (Some p)) \<Rightarrow> nth_parent m n p | _ \<Rightarrow> None)"

lemma nth_parent_ancestor:
  assumes "storage_ok (vm_storage m)"
  shows "r \<in> set (ts_blocks (vm_storage m)) \<Longrightarrow> ancestor (vm_storage m) n r a \<Longrightarrow> nth_parent m n (br_hash r) = Some (br_hash a)"
proof (induction n arbitrary: r)
  case (Suc n)
  then obtain p where p: "p \<in> set (ts_blocks (vm_storage m))" "br_parent r = Some (br_id p)" "ancestor (vm_storage m) n p a" by auto
  have "storage_block_hash (vm_storage m) (br_id p) = Inr (br_hash p)"
    using storage_okD(3) [OF assms p(1)] p(1) by (auto simp: storage_block_hash_iff storage_okD(1) [OF assms] row_ok_def)
  then have "marf_parent m (br_hash r) = Inr (Some (Some (br_hash p)))"
    using find_block_row [OF assms Suc.prems(1)] p(2) by (simp add: marf_parent_def storage_block_ok [OF assms])
  with Suc.IH [OF p(1,3)] show ?case by simp
qed simp

text \<open>C11: the walk over the ancestor table ends and finds the true ancestor. In a reachable MARF \<open>block_at_height\<close> returns,
  for a state at some height and a height not above it, the block reached by as many single parent steps as the two
  heights differ; for a greater height it returns nothing.\<close>

theorem block_at_height_is_ancestor:
  assumes "marf_reachable h m S" "\<forall>x. length (h x) = 32" "marf_height m block = Inr (Some own)"
  shows "if height \<le> own
    then \<exists>a. nth_parent m (unat own - unat height) block = Some a \<and> block_at_height m block height = Some (Inr (Some a))
    else block_at_height m block height = Some (Inr None)"
proof -
  have st: "storage_ok (vm_storage m)" using reachable_marf_ok [OF assms(1,2)] by (simp add: marf_ok_def)
  obtain r where r: "find_block (vm_storage m) block = Some r" "br_height r = own"
    using assms(3) by (auto simp: marf_height_def storage_block_ok [OF st])
  then have row: "r \<in> set (ts_blocks (vm_storage m))" "br_hash r = block" using find_block_Some [OF st] by auto
  have walk: "block_at_height m block height = walk_to_height (vm_storage m) height r"
    using r(1) by (simp add: block_at_height_def storage_block_ok [OF st])
  show ?thesis
  proof (cases "height \<le> own")
    case True
    then obtain a where a: "walk_to_height (vm_storage m) height r = Some (Inr (Some (br_hash a)))"
        "ancestor (vm_storage m) (unat own - unat height) r a"
      using walk_to_height_ok(1) [OF st row(1), of height, unfolded ancestor_at_def r(2)] by blast
    have "nth_parent m (unat own - unat height) block = Some (br_hash a)"
      using nth_parent_ancestor [OF st row(1) a(2)] unfolding row(2) .
    with a(1) True walk show ?thesis by simp
  next
    case False
    then show ?thesis using walk_to_height_ok(2) [OF st row(1), of height] walk r(2) by (simp add: not_le)
  qed
qed

lemma latest_row:
  assumes "r' = foldl (\<lambda>best s. if later_row s best then s else best) r rows"
  shows "r' \<in> set (r # rows) \<and> (\<forall>s \<in> set (r # rows). br_height s \<le> br_height r')"
  using assms
proof (induction rows arbitrary: r)
  case (Cons s rows)
  let ?best = "if later_row s r then s else r"
  have "r' \<in> set (?best # rows)" "\<forall>t \<in> set (?best # rows). br_height t \<le> br_height r'"
    using Cons.IH [of ?best] Cons.prems by auto
  moreover have "br_height r \<le> br_height ?best" "br_height s \<le> br_height ?best" by (auto simp: later_row_def)
  ultimately show ?case by (auto split: if_splits intro: order_trans)
qed simp

lemma table_rows:
  assumes "table_ok st r js" "r \<in> set (ts_blocks st)"
  shows "\<forall>j \<in> set js. j \<in> br_hash ` set (ts_blocks st)"
proof
  fix j assume "j \<in> set js"
  then obtain k where "k < length js" "js ! k = j" by (auto simp: in_set_conv_nth)
  with assms(1) obtain a where "ancestor st (2 ^ k) r a" "br_hash a = j" by (auto simp: table_ok_def)
  with ancestor_row [OF _ assms(2)] show "j \<in> br_hash ` set (ts_blocks st)" by blast
qed

lemma verify_row:
  assumes "storage_ok (vm_storage m)" "r \<in> set (ts_blocks (vm_storage m))" "marf_tip m = Inr (Some (br_hash r))"
  shows "verify_tip m = Inr (Some (br_hash r))"
proof -
  obtain js where js: "storage_jumps (vm_storage m) (br_hash r) = Inr js" "table_ok (vm_storage m) r js"
    using storage_jumps_ok [OF assms(1,2)] .
  obtain roots where "ancestor_roots_for (vm_storage m) js = Inr roots"
    using ancestor_roots_for_ok [OF assms(1) table_rows [OF js(2) assms(2)]] by blast
  moreover obtain index children where "br_node r = Some index"
      "storage_node (vm_storage m) (br_id r) index = Inr (Internal [] children)"
    using sealed_children [OF assms(1,2)] by metis
  ultimately show ?thesis
    using assms(3) js(1) find_block_row [OF assms(1,2)]
    by (simp add: verify_tip_def marf_tip_def sealed_root_def storage_block_ok [OF assms(1)])
qed

text \<open>C13: the check at startup accepts every database this code has written: \<open>verify_tip\<close> succeeds in every reachable
  state, and it returns what \<open>tip\<close> returns, which is nothing for a MARF without sealed states and otherwise a sealed state
  of the greatest height.\<close>

theorem verify_tip_accepts:
  assumes "marf_reachable h m S" "\<forall>x. length (h x) = 32"
  shows "\<exists>tip. verify_tip m = Inr tip \<and> marf_tip m = Inr tip \<and> (case tip of
      None \<Rightarrow> \<forall>b. marf_contains m b = Inr False
    | Some b \<Rightarrow> \<exists>height. marf_height m b = Inr (Some height) \<and>
        (\<forall>c height'. marf_height m c = Inr (Some height') \<longrightarrow> height' \<le> height))"
proof -
  have st: "storage_ok (vm_storage m)" using reachable_marf_ok [OF assms] by (simp add: marf_ok_def)
  show ?thesis
  proof (cases "ts_blocks (vm_storage m)")
    case Nil
    then show ?thesis
      by (simp add: verify_tip_def marf_tip_def storage_tip_def marf_contains_def storage_block_ok [OF st] find_block_def)
  next
    case (Cons first rows)
    define r where "r = foldl (\<lambda>best s. if later_row s best then s else best) first rows"
    then have r: "r \<in> set (ts_blocks (vm_storage m))" "\<forall>s \<in> set (ts_blocks (vm_storage m)). br_height s \<le> br_height r"
      using latest_row [of r first rows] Cons by auto
    then have "length (br_hash r) = 32" using storage_okD(3) [OF st] by (simp add: row_ok_def)
    then have tip: "marf_tip m = Inr (Some (br_hash r))"
      using Cons by (simp add: marf_tip_def storage_tip_def as_block_id_def r_def)
    have "height' \<le> br_height r" if c: "marf_height m c = Inr (Some height')" for c height'
    proof -
      obtain s where "find_block (vm_storage m) c = Some s" "br_height s = height'"
        using c by (auto simp: marf_height_def storage_block_ok [OF st])
      then show ?thesis using r(2) find_block_Some [OF st] by blast
    qed
    moreover have "marf_height m (br_hash r) = Inr (Some (br_height r))"
      using find_block_row [OF st r(1)] by (simp add: marf_height_def storage_block_ok [OF st])
    ultimately show ?thesis using tip verify_row [OF st r(1) tip] by auto
  qed
qed

section \<open>A whole cycle of writing\<close>

interpretation marf_store: path_store "\<lambda>m. marf_ok m \<and> vm_active m \<noteq> None" marf_insert_path get_active_path
proof
  fix m :: versioned_marf and path v :: bytes
  assume ok: "marf_ok m \<and> vm_active m \<noteq> None" "length path = 32" "length v = 40"
  then obtain a where a: "vm_active m = Some a" by auto
  obtain a' where a': "marf_insert_path m path v = Inr (m\<lparr>vm_active := Some a'\<rparr>)" "active_ok (vm_storage m) a'"
      "active_content (m\<lparr>vm_active := Some a'\<rparr>) = (active_content m)(path \<mapsto> v)"
    by (rule insert_path_ok [OF ok(1) [THEN conjunct1] a ok(2,3)])
  have ok': "marf_ok (m\<lparr>vm_active := Some a'\<rparr>)" using ok(1) a'(2) by (simp add: marf_ok_def)
  have "updates 32 path v (get_active_path m) (get_active_path (m\<lparr>vm_active := Some a'\<rparr>))"
    using get_active_content [OF ok'] get_active_content [OF ok(1) [THEN conjunct1]] a'(3) by (simp add: updates_def)
  with a'(1) ok' show "\<exists>s'. marf_insert_path m path v = Inr s' \<and> (marf_ok s' \<and> vm_active s' \<noteq> None) \<and>
      updates 32 path v (get_active_path m) (get_active_path s')" by simp
qed

lemma fold_insert_frame:
  "fold_e (\<lambda>m (path, v). marf_insert_path m path v) m entries = Inr m' \<Longrightarrow>
    vm_storage m' = vm_storage m \<and> map_option av_height (vm_active m') = map_option av_height (vm_active m)"
proof (induction entries arbitrary: m)
  case (Cons entry entries)
  obtain path v where entry: "entry = (path, v)" by fastforce
  with Cons.prems obtain m1 where m1: "marf_insert_path m path v = Inr m1"
      "fold_e (\<lambda>m (path, v). marf_insert_path m path v) m1 entries = Inr m'"
    by (auto simp: bind_e_Inr_iff)
  then show ?case
    using Cons.IH [OF m1(2)] by (auto simp: marf_insert_path_def bind_e_Inr_iff split: option.splits)
qed simp


section \<open>A small run\<close>

text \<open>A genesis state begun and sealed, and a child of it begun and aborted, with a constant digest.\<close>

definition constant_digest :: "bytes \<Rightarrow> bytes" where
  "constant_digest x = replicate 32 0"

definition genesis_block :: bytes where
  "genesis_block = replicate 32 7"

definition genesis_open :: versioned_marf where
  "genesis_open = \<lparr>vm_storage = storage_new, vm_active = Some \<lparr>av_block = genesis_block, av_parent = None, av_height = 0,
     av_root_children = [TrieChild 0 None (Memory (Leaf (replicate 31 0) (replicate 40 0)))]\<rparr>\<rparr>"

definition genesis_sealed :: versioned_marf where
  "genesis_sealed = (case marf_seal_to constant_digest genesis_open genesis_block of Inr (_, m) \<Rightarrow> m | Inl _ \<Rightarrow> genesis_open)"

lemma genesis_digest: "\<forall>x. length (constant_digest x) = 32"
  by (simp add: constant_digest_def)

lemma genesis_height_entries:
  "height_entries constant_digest None genesis_block 0 = Inr [(replicate 32 0, mv_from_u32 0),
     (replicate 32 0, mv_from_block_id genesis_block), (replicate 32 0, mv_from_u32 0)]"
  by (simp add: height_entries_def height_keys_def key_path_def trie_hash_from_data_def constant_digest_def as_key_def)

lemma genesis_inserts:
  "insert_under_root st [] (replicate 32 0) v = Inr [TrieChild 0 None (Memory (Leaf (replicate 31 0) v))]"
  "insert_under_root st [TrieChild 0 None (Memory (Leaf (replicate 31 0) w))] (replicate 32 0) v =
    Inr [TrieChild 0 None (Memory (Leaf (replicate 31 0) v))]"
  by (simp_all add: insert_under_root_def child_local_def child_insert_def child_owned_def trie_insert.simps)

lemma genesis_value: "mv_from_u32 0 = replicate 40 0"
  by (simp add: mv_from_u32_def u32_to_le_def u32_to_be_def) code_simp

lemma genesis_begin: "marf_begin constant_digest (marf_from_storage storage_new) None genesis_block = Inr genesis_open"
  using genesis_height_entries
  by (simp add: marf_begin_def marf_from_storage_def storage_block_def storage_new_def insert_metadata_entries
      genesis_inserts genesis_open_def genesis_value)

lemma genesis_seal: "\<exists>root. marf_seal_to constant_digest genesis_open genesis_block = Inr (root, genesis_sealed)"
proof -
  let ?child = "TrieChild 0 None (Stored 1 0 TnLeaf)"
  let ?leaf = "Leaf (replicate 31 0) (replicate 40 0)"
  have "child_ok storage_new 31 (TrieChild 0 None (Memory ?leaf))" by (rule child_ok_memory) simp
  then have "\<exists>hash. hash_slots constant_digest TnNode256 [] [TrieChild 0 None (Memory ?leaf)] [constant_digest x] = Inr hash" for x
    by (intro hash_slots_ok) auto
  moreover have "hash_slots constant_digest TnNode256 [] [?child] hs = hash_slots constant_digest TnNode256 [] [TrieChild 0 None (Memory ?leaf)] hs" for hs
    by (rule hash_slots_cong) (simp add: child_pointer_def child_kind_def node_id_def)
  ultimately obtain hash where "hash_slots constant_digest TnNode256 [] [?child] [replicate 32 0] = Inr hash"
    by (auto simp: constant_digest_def)
  moreover have "checked_add (0 :: u32) 1 = Some 1" "checked_add (1 :: u32) 1 = Some 2"
    by (simp_all add: checked_add_def)
  ultimately have "\<exists>root m. marf_seal_to constant_digest genesis_open genesis_block = Inr (root, m)"
    by (auto simp: marf_seal_to_def genesis_open_def storage_block_def storage_new_def write_sealed_def marf_jumps_def
        ancestor_roots_for_def reserve_block_def persist_root_def leaf_hash_def write_node_def insert_node_def encode_node_def
        path_length_def encode_child_def constant_digest_def [of "_ # _"])
  then show ?thesis by (auto simp: genesis_sealed_def)
qed

lemma genesis_open_reachable: "marf_reachable constant_digest genesis_open {}"
  by (rule reach_apply [OF reach_new, of "OpBegin None genesis_block"]) (simp_all add: genesis_block_def genesis_begin [unfolded genesis_block_def])

lemma genesis_sealed_reachable: "marf_reachable constant_digest genesis_sealed {}"
  using genesis_seal by (auto intro!: reach_apply [OF genesis_open_reachable, of "OpSealTo genesis_block"] simp: genesis_block_def)

lemma genesis_sealed_state:
  "marf_height genesis_sealed genesis_block = Inr (Some 0)" "vm_active genesis_sealed = None"
  "marf_get_path genesis_sealed genesis_block (replicate 32 0) = get_active_path genesis_open (replicate 32 0)"
proof -
  obtain root where root: "marf_seal_to constant_digest genesis_open genesis_block = Inr (root, genesis_sealed)" using genesis_seal by blast
  have "sealed_as constant_digest genesis_open genesis_block root genesis_sealed"
    using seal_refines [OF reachable_marf_ok [OF genesis_open_reachable genesis_digest] genesis_digest, of genesis_block] root
    by (simp add: genesis_block_def)
  then show "marf_height genesis_sealed genesis_block = Inr (Some 0)" "vm_active genesis_sealed = None"
    "marf_get_path genesis_sealed genesis_block (replicate 32 0) = get_active_path genesis_open (replicate 32 0)"
    by (simp_all add: sealed_as_def) (simp add: genesis_open_def)
qed

lemma genesis_other: "find_block (vm_storage genesis_sealed) (replicate 32 9) = None"
proof -
  obtain root where root: "marf_seal_to constant_digest genesis_open genesis_block = Inr (root, genesis_sealed)" using genesis_seal by blast
  have "forest_seal_to (forest_of genesis_open) genesis_block = Inr (forest_of genesis_sealed)"
    using seal_refines [OF reachable_marf_ok [OF genesis_open_reachable genesis_digest] genesis_digest, of genesis_block] root
    by (auto simp: genesis_block_def exhausted_def)
  then obtain s where F: "\<lparr>fo_sealed = (fo_sealed (forest_of genesis_open))(genesis_block \<mapsto> s), fo_active = None\<rparr> = forest_of genesis_sealed"
    by (auto simp: forest_seal_to_def split: if_splits option.splits)
  have "fo_sealed (forest_of genesis_sealed) (replicate 32 9) = fo_sealed (forest_of genesis_open) (replicate 32 9)"
    unfolding F [symmetric] by (simp add: genesis_block_def)
  also have "\<dots> = None" by (simp add: genesis_open_def find_block_def storage_new_def)
  finally show ?thesis by simp
qed

lemma genesis_child:
  obtains a where "marf_begin constant_digest genesis_sealed (Some genesis_block) (replicate 32 9) = Inr (genesis_sealed\<lparr>vm_active := Some a\<rparr>)"
proof -
  have ok: "marf_ok genesis_sealed" by (rule reachable_marf_ok [OF genesis_sealed_reachable genesis_digest])
  then have st: "storage_ok (vm_storage genesis_sealed)" by (simp add: marf_ok_def)
  obtain r where r: "r \<in> set (ts_blocks (vm_storage genesis_sealed))" "br_hash r = genesis_block" "br_height r = 0"
    using genesis_sealed_state(1) find_block_Some [OF st] by (auto simp: marf_height_def storage_block_ok [OF st])
  have "checked_add (br_height r) 1 = Some 1" using r(3) by (simp add: checked_add_def)
  from begin_some [OF ok genesis_sealed_state(2) genesis_other genesis_digest _ r(1) this] r(2) that show ?thesis
    by (metis length_replicate)
qed



theorem sealed_state_immutable_witness:
  "\<exists>m'. fold_e (\<lambda>m op. marf_apply constant_digest op m) genesis_sealed [OpBegin (Some genesis_block) (replicate 32 9), OpAbort] = Inr m' \<and>
    marf_root m' genesis_block = marf_root genesis_sealed genesis_block \<and>
    marf_get_path m' genesis_block (replicate 32 0) = Inr (Some (replicate 40 0))"
proof -
  let ?ops = "[OpBegin (Some genesis_block) (replicate 32 9), OpAbort]"
  obtain a where "marf_begin constant_digest genesis_sealed (Some genesis_block) (replicate 32 9) = Inr (genesis_sealed\<lparr>vm_active := Some a\<rparr>)"
    by (rule genesis_child)
  then have run: "fold_e (\<lambda>m op. marf_apply constant_digest op m) genesis_sealed ?ops = Inr (genesis_sealed\<lparr>vm_active := None\<rparr>)"
    by (simp add: marf_abort_def)
  have "\<forall>op \<in> set ?ops. op_ok op \<and> keeps 0 op" by (simp add: keeps_def genesis_block_def)
  from sealed_state_immutable [OF genesis_sealed_reachable genesis_digest this genesis_sealed_state(1) run] run
  show ?thesis
    using genesis_sealed_state(3) by (simp add: genesis_open_def get_active_path_def find_path_def child_node_def)
qed

theorem block_at_height_is_ancestor_witness:
  "block_at_height genesis_sealed genesis_block 0 = Some (Inr (Some genesis_block)) \<and>
    block_at_height genesis_sealed genesis_block 1 = Some (Inr None)"
  using block_at_height_is_ancestor [OF genesis_sealed_reachable genesis_digest genesis_sealed_state(1), of 0]
    block_at_height_is_ancestor [OF genesis_sealed_reachable genesis_digest genesis_sealed_state(1), of 1] by simp

theorem verify_tip_accepts_witness: "verify_tip genesis_sealed = marf_tip genesis_sealed"
  using verify_tip_accepts [OF genesis_sealed_reachable genesis_digest] by auto


end
