(* ===== verification/Bitcoin_Ops.thy ===== *)
theory Bitcoin_Ops
  imports Address Crypto "HOL-Library.Monad_Syntax"
begin

text \<open>
  The protocol operations of \<open>nano-bitcoin\<close>: the payloads a miner writes into a Bitcoin transaction, the
  parsers that read every operation back, and the classification of one transaction. The Bitcoin crate's
  script reader and writer and its block decoder are parameters.
\<close>

section \<open>Data\<close>

record bitcoin_input =
  bi_txid :: bytes
  bi_output_index :: u32

record bitcoin_output =
  bo_amount_sats :: u64
  bo_recipient :: pox_address

text \<open>The fields of \<open>LeaderBlockCommit\<close> are the block header hash, the new seed, the parent block height and
  transaction index, the key block height and transaction index, the memo and the parent modulus.\<close>

datatype bitcoin_operation_kind =
    LeaderBlockCommit bytes bytes u32 u16 u32 u16 byte byte
  | LeaderKeyRegistration bytes bytes "bytes option" bytes
  | PreStx stacks_address
  | StackStx stacks_address pox_address u128 byte "bytes option" "u128 option" "u32 option"
  | TransferStx stacks_address stacks_address u128 bytes
  | DelegateStx stacks_address stacks_address u128 "pox_address option" "u32 option" "u64 option"
  | VoteForAggregateKey stacks_address u16 bytes u32 u64

record bitcoin_operation =
  bop_txid :: bytes
  bop_transaction_index :: u32
  bop_inputs :: "bitcoin_input list"
  bop_outputs :: "bitcoin_output list"
  bop_kind :: bitcoin_operation_kind

record bitcoin_block =
  bb_height :: u64
  bb_hash :: bytes
  bb_timestamp :: u64
  bb_operations :: "bitcoin_operation list"

record leader_block_commitment =
  lbc_block_header_hash :: bytes
  lbc_new_seed :: bytes
  lbc_parent_block_height :: u32
  lbc_parent_transaction_index :: u16
  lbc_key_block_height :: u32
  lbc_key_transaction_index :: u16
  lbc_memo :: byte
  lbc_parent_modulus :: byte

record leader_key_registration =
  lkr_consensus_hash :: bytes
  lkr_vrf_public_key :: bytes
  lkr_block_signing_key_hash :: bytes
  lkr_memo :: bytes

datatype leader_key_registration_error = InvalidVrfPublicKey | KeyMemoTooLarge

datatype leader_commitment_error = CommitMemoTooLarge | InvalidParentModulus

datatype leader_commitment_transaction_error =
    ZeroCommitmentAmount
  | ZeroChangeAmount
  | CommitInvalidProtocolPayload
  | CommitmentError leader_commitment_error

datatype leader_key_registration_transaction_error =
    KeyInvalidProtocolPayload
  | RegistrationError leader_key_registration_error

text \<open>What the code reads and builds of the Bitcoin crate's transactions and blocks. Transaction and block
  identifiers are in the crate's internal byte order.\<close>

record tx_in =
  ti_previous_txid :: bytes
  ti_previous_vout :: u32

record tx_out =
  to_value :: u64
  to_script :: bytes

record btc_transaction =
  bt_version :: nat
  bt_lock_time :: u32
  bt_inputs :: "tx_in list"
  bt_outputs :: "tx_out list"

record btc_block =
  bk_block_hash :: bytes
  bk_time :: u32
  bk_txdata :: "btc_transaction list"

datatype instruction = OpCode byte | PushBytes bytes

text \<open>The third-party calls: \<open>Script::instructions_minimal\<close> as the list of what the iterator yields, an error
  being \<open>None\<close>; \<open>ScriptBuf::new_op_return\<close>; \<open>Transaction::compute_txid\<close>; and
  \<open>bitcoin::consensus::deserialize\<close> of a block.\<close>

record btc_api =
  instructions_minimal :: "bytes \<Rightarrow> instruction option list"
  new_op_return :: "bytes \<Rightarrow> bytes"
  compute_txid :: "btc_transaction \<Rightarrow> bytes"
  deserialize_block :: "bytes \<Rightarrow> btc_block option"

section \<open>Payloads a miner writes\<close>

definition lbc_encode :: "leader_block_commitment \<Rightarrow> leader_commitment_error + bytes" where
  "lbc_encode c =
     (if lbc_memo c > 0x1f then Inl CommitMemoTooLarge
      else if lbc_parent_modulus c > 4 then Inl InvalidParentModulus
      else Inr (lbc_block_header_hash c @ lbc_new_seed c
             @ u32_to_be (lbc_parent_block_height c) @ u16_to_be (lbc_parent_transaction_index c)
             @ u32_to_be (lbc_key_block_height c) @ u16_to_be (lbc_key_transaction_index c)
             @ [or (push_bit 3 (lbc_memo c)) (lbc_parent_modulus c)]))"

definition lkr_encode ::
  "('pt, 'sc) curve \<Rightarrow> leader_key_registration \<Rightarrow> leader_key_registration_error + bytes" where
  "lkr_encode crv k =
     (if length (lkr_memo k) > 5 then Inl KeyMemoTooLarge
      else case vrf_public_key_from_bytes crv (lkr_vrf_public_key k) of
        Inl _ \<Rightarrow> Inl InvalidVrfPublicKey
      | Inr _ \<Rightarrow> Inr (lkr_consensus_hash k @ lkr_vrf_public_key k @ lkr_block_signing_key_hash k @ lkr_memo k))"

text \<open>\<open>PushBytesBuf::try_from\<close> refuses only pushes of four gigabytes and more.\<close>

definition push_bytes_buf :: "bytes \<Rightarrow> bytes option" where
  "push_bytes_buf p = (if length p < 2 ^ 32 then Some p else None)"

definition build_leader_key_registration_transaction ::
  "btc_api \<Rightarrow> ('pt, 'sc) curve \<Rightarrow> bytes \<Rightarrow> leader_key_registration \<Rightarrow> tx_in list
   \<Rightarrow> leader_key_registration_transaction_error + btc_transaction" where
  "build_leader_key_registration_transaction api crv magic registration inputs =
     (case lkr_encode crv registration of
        Inl e \<Rightarrow> Inl (RegistrationError e)
      | Inr payload \<Rightarrow>
          (case push_bytes_buf (magic @ [0x5e] @ payload) of
             None \<Rightarrow> Inl KeyInvalidProtocolPayload
           | Some p \<Rightarrow> Inr \<lparr>bt_version = 2, bt_lock_time = 0, bt_inputs = inputs,
               bt_outputs = [\<lparr>to_value = 0, to_script = new_op_return api p\<rparr>]\<rparr>))"

definition build_leader_commitment_transaction ::
  "btc_api \<Rightarrow> bytes \<Rightarrow> leader_block_commitment \<Rightarrow> tx_in list \<Rightarrow> pox_address \<Rightarrow> u64
   \<Rightarrow> (pox_address \<times> u64) option \<Rightarrow> leader_commitment_transaction_error + btc_transaction" where
  "build_leader_commitment_transaction api magic commitment inputs sbtc_address commitment_amount change =
     (if commitment_amount = 0 then Inl ZeroCommitmentAmount
      else if (case change of Some (_, amount) \<Rightarrow> amount = 0 | None \<Rightarrow> False) then Inl ZeroChangeAmount
      else case lbc_encode commitment of
        Inl e \<Rightarrow> Inl (CommitmentError e)
      | Inr payload \<Rightarrow>
          (case push_bytes_buf (magic @ [0x5b] @ payload) of
             None \<Rightarrow> Inl CommitInvalidProtocolPayload
           | Some p \<Rightarrow> Inr \<lparr>bt_version = 2, bt_lock_time = 0, bt_inputs = inputs,
               bt_outputs =
                 [\<lparr>to_value = 0, to_script = new_op_return api p\<rparr>,
                  \<lparr>to_value = commitment_amount, to_script = script_pubkey sbtc_address\<rparr>]
                 @ (case change of None \<Rightarrow> []
                    | Some (address, amount) \<Rightarrow> [\<lparr>to_value = amount, to_script = script_pubkey address\<rparr>])\<rparr>))"

section \<open>Payloads read back\<close>

text \<open>\<open>data.get(a..b)\<close>\<close>

definition get_range :: "nat \<Rightarrow> nat \<Rightarrow> bytes \<Rightarrow> bytes option" where
  "get_range a b data = (if a \<le> b \<and> b \<le> length data then Some (take (b - a) (drop a data)) else None)"

definition get_at :: "nat \<Rightarrow> 'a list \<Rightarrow> 'a option" where
  "get_at i xs = (if i < length xs then Some (xs ! i) else None)"

definition u128_from_be :: "bytes \<Rightarrow> u128" where
  "u128_from_be bs = word_of_nat (be_nat bs)"

definition protocol_payload :: "btc_api \<Rightarrow> bytes \<Rightarrow> bytes \<Rightarrow> (byte \<times> bytes) option" where
  "protocol_payload api script magic =
     (case instructions_minimal api script of
        Some (OpCode op) # rest \<Rightarrow>
          if op \<noteq> 0x6a then None
          else (case rest of
            [Some (PushBytes data)] \<Rightarrow>
              if take (length magic) data = magic \<and> length data > length magic
              then Some (data ! 2, drop 3 data) else None
          | _ \<Rightarrow> None)
      | _ \<Rightarrow> None)"

definition parse_leader_block_commit :: "bytes \<Rightarrow> bitcoin_operation_kind option" where
  "parse_leader_block_commit data = do {
     block_header_hash \<leftarrow> get_range 0 32 data;
     new_seed \<leftarrow> get_range 32 64 data;
     parent_block_height \<leftarrow> map_option u32_from_be (get_range 64 68 data);
     parent_transaction_index \<leftarrow> map_option u16_from_be (get_range 68 70 data);
     key_block_height \<leftarrow> map_option u32_from_be (get_range 70 74 data);
     key_transaction_index \<leftarrow> map_option u16_from_be (get_range 74 76 data);
     flags \<leftarrow> get_at 76 data;
     Some (LeaderBlockCommit block_header_hash new_seed parent_block_height parent_transaction_index
       key_block_height key_transaction_index (drop_bit 3 flags) (and flags 7 mod 5))
   }"

definition parse_leader_key_registration ::
  "('pt, 'sc) curve \<Rightarrow> bytes \<Rightarrow> bitcoin_operation_kind option" where
  "parse_leader_key_registration crv data = do {
     consensus_hash \<leftarrow> get_range 0 20 data;
     vrf_public_key \<leftarrow> get_range 20 52 data;
     _ \<leftarrow> (case vrf_public_key_from_bytes crv vrf_public_key of Inl _ \<Rightarrow> None | Inr k \<Rightarrow> Some k);
     memo \<leftarrow> get_range 52 (length data) data;
     Some (LeaderKeyRegistration consensus_hash vrf_public_key (get_range 0 20 memo) memo)
   }"

definition parse_stack_stx ::
  "bytes \<Rightarrow> bitcoin_output list \<Rightarrow> stacks_address \<Rightarrow> bitcoin_operation_kind option" where
  "parse_stack_stx data outputs sender = do {
     amount \<leftarrow> map_option u128_from_be (get_range 0 16 data);
     cycles \<leftarrow> get_at 16 data;
     let signer_key = get_range 17 50 data;
     let max_amount = map_option u128_from_be (get_range 50 66 data);
     let authorization_id = map_option u32_from_be (get_range 66 70 data);
     first \<leftarrow> get_at 0 outputs;
     Some (StackStx sender (bo_recipient first) amount cycles signer_key max_amount authorization_id)
   }"

definition parse_transfer_stx ::
  "bytes \<Rightarrow> bitcoin_output list \<Rightarrow> stacks_address \<Rightarrow> bitcoin_operation_kind option" where
  "parse_transfer_stx data outputs sender =
     (if \<not> (16 \<le> length data \<and> length data \<le> 77) then None
      else do {
        first \<leftarrow> get_at 0 outputs;
        recipient \<leftarrow> as_stacks_address (bo_recipient first);
        amount \<leftarrow> map_option u128_from_be (get_range 0 16 data);
        memo \<leftarrow> get_range 16 (length data) data;
        Some (TransferStx sender recipient amount memo)
      })"

definition parse_delegate_stx ::
  "bytes \<Rightarrow> bitcoin_output list \<Rightarrow> stacks_address \<Rightarrow> bitcoin_operation_kind option" where
  "parse_delegate_stx data outputs sender = do {
     amount \<leftarrow> map_option u128_from_be (get_range 0 16 data);
     has_output \<leftarrow> get_at 16 data;
     reward_address_output \<leftarrow> (if has_output = 0 then Some None
       else if has_output = 1 then map_option (Some \<circ> u32_from_be) (get_range 17 21 data) else None);
     has_until \<leftarrow> get_at 21 data;
     until_bitcoin_height \<leftarrow> (if has_until = 0 then Some None
       else if has_until = 1 then map_option (Some \<circ> u64_from_be) (get_range 22 30 data) else None);
     first \<leftarrow> get_at 0 outputs;
     delegate \<leftarrow> as_stacks_address (bo_recipient first);
     Some (DelegateStx sender delegate amount
       (map_option bo_recipient (Option.bind reward_address_output (\<lambda>index. get_at (unat index) outputs)))
       reward_address_output until_bitcoin_height)
   }"

definition parse_vote_for_aggregate_key :: "bytes \<Rightarrow> stacks_address \<Rightarrow> bitcoin_operation_kind option" where
  "parse_vote_for_aggregate_key data sender =
     (if length data \<noteq> 47 then None
      else do {
        signer_index \<leftarrow> map_option u16_from_be (get_range 0 2 data);
        aggregate_key \<leftarrow> get_range 2 35 data;
        round \<leftarrow> map_option u32_from_be (get_range 35 39 data);
        reward_cycle \<leftarrow> map_option u64_from_be (get_range 39 47 data);
        Some (VoteForAggregateKey sender signer_index aggregate_key round reward_cycle)
      })"

definition parse_operation ::
  "('pt, 'sc) curve \<Rightarrow> byte \<Rightarrow> bytes \<Rightarrow> bitcoin_output list \<Rightarrow> stacks_address option
   \<Rightarrow> bitcoin_operation_kind option" where
  "parse_operation crv opcode data outputs sender =
     (if opcode = 0x5b then parse_leader_block_commit data
      else if opcode = 0x5e then parse_leader_key_registration crv data
      else if opcode = 0x70 then do {
        first \<leftarrow> get_at 0 outputs;
        a \<leftarrow> as_stacks_address (bo_recipient first);
        Some (PreStx a)
      }
      else if opcode = 0x78 then Option.bind sender (parse_stack_stx data outputs)
      else if opcode = 0x24 then Option.bind sender (parse_transfer_stx data outputs)
      else if opcode = 0x23 then Option.bind sender (parse_delegate_stx data outputs)
      else if opcode = 0x76 then Option.bind sender (parse_vote_for_aggregate_key data)
      else None)"

section \<open>Payloads survive the chain\<close>

lemma get_range_append:
  "a = length pre \<Longrightarrow> b = length pre + length x \<Longrightarrow> get_range a b (pre @ x @ post) = Some x"
  by (simp add: get_range_def)

lemma flags_all:
  "list_all (\<lambda>i. list_all (\<lambda>j.
     drop_bit 3 (or (push_bit 3 (word_of_nat i)) (word_of_nat j) :: byte) = word_of_nat i
     \<and> and (or (push_bit 3 (word_of_nat i)) (word_of_nat j) :: byte) 7 mod 5 = word_of_nat j) [0 ..< 5]) [0 ..< 32]"
  by code_simp

text \<open>The memo and the modulus share a byte and come apart again.\<close>

lemma flags_split:
  fixes memo modulus :: byte
  assumes "memo \<le> 0x1f" "modulus \<le> 4"
  shows "drop_bit 3 (or (push_bit 3 memo) modulus) = memo" "and (or (push_bit 3 memo) modulus) 7 mod 5 = modulus"
proof -
  have "unat memo \<in> set [0 ..< 32]" "unat modulus \<in> set [0 ..< 5]"
    using assms by (simp_all add: word_le_nat_alt)
  then show "drop_bit 3 (or (push_bit 3 memo) modulus) = memo" "and (or (push_bit 3 memo) modulus) 7 mod 5 = modulus"
    using flags_all unfolding list_all_iff by fastforce+
qed

lemma parse_encoded_commitment:
  assumes "lbc_encode c = Inr payload" and "length (lbc_block_header_hash c) = 32" "length (lbc_new_seed c) = 32"
  shows "parse_leader_block_commit payload = Some (LeaderBlockCommit (lbc_block_header_hash c) (lbc_new_seed c)
      (lbc_parent_block_height c) (lbc_parent_transaction_index c) (lbc_key_block_height c)
      (lbc_key_transaction_index c) (lbc_memo c) (lbc_parent_modulus c))" (is ?parse)
    and "length payload = 77" (is ?len)
proof -
  define flags where "flags = or (push_bit 3 (lbc_memo c)) (lbc_parent_modulus c)"
  have payload: "payload = lbc_block_header_hash c @ lbc_new_seed c
      @ u32_to_be (lbc_parent_block_height c) @ u16_to_be (lbc_parent_transaction_index c)
      @ u32_to_be (lbc_key_block_height c) @ u16_to_be (lbc_key_transaction_index c) @ [flags]"
    and small: "lbc_memo c \<le> 0x1f" "lbc_parent_modulus c \<le> 4"
    using assms(1) by (auto simp: lbc_encode_def flags_def not_less split: if_splits)
  show ?len by (simp add: payload assms)
  show ?parse
    using flags_split [OF small]
    by (simp add: parse_leader_block_commit_def payload get_range_def get_at_def assms flags_def [symmetric] nth_append)
qed

lemma parse_encoded_registration:
  assumes "lkr_encode crv k = Inr payload" and "length (lkr_consensus_hash k) = 20"
    "length (lkr_vrf_public_key k) = 32" "length (lkr_block_signing_key_hash k) = 20"
  shows "parse_leader_key_registration crv payload = Some (LeaderKeyRegistration (lkr_consensus_hash k)
      (lkr_vrf_public_key k) (Some (lkr_block_signing_key_hash k)) (lkr_block_signing_key_hash k @ lkr_memo k))"
proof -
  obtain v where "vrf_public_key_from_bytes crv (lkr_vrf_public_key k) = Inr v"
    and "payload = lkr_consensus_hash k @ lkr_vrf_public_key k @ lkr_block_signing_key_hash k @ lkr_memo k"
    using assms(1) by (auto simp: lkr_encode_def split: if_splits sum.splits)
  then show ?thesis
    by (simp add: parse_leader_key_registration_def get_range_def assms(2-4))
qed

text \<open>What the code relies on of the Bitcoin crate: an \<open>OP_RETURN\<close> script written for a payload of standard size
  reads back as that opcode and one push of the payload. (A push of one byte may be re-encoded as a small-integer
  opcode, and the protocol payloads are longer.)\<close>

definition op_return_law :: "btc_api \<Rightarrow> bool" where
  "op_return_law api \<longleftrightarrow> (\<forall>p. 2 \<le> length p \<and> length p \<le> 80 \<longrightarrow>
     instructions_minimal api (new_op_return api p) = [Some (OpCode 0x6a), Some (PushBytes p)])"

lemma protocol_payload_written:
  assumes "op_return_law api" "length magic = 2" "length payload \<le> 77"
  shows "protocol_payload api (new_op_return api (magic @ [opcode] @ payload)) magic = Some (opcode, payload)"
proof -
  have "instructions_minimal api (new_op_return api (magic @ [opcode] @ payload))
      = [Some (OpCode 0x6a), Some (PushBytes (magic @ [opcode] @ payload))]"
    using assms unfolding op_return_law_def by simp
  then show ?thesis
    using assms(2) by (simp add: protocol_payload_def nth_append)
qed

text \<open>Whether a script is readable does not depend on the network, only the address it is read as does.\<close>

lemma from_script_pubkey_any_network:
  assumes "pox_ok net p"
  shows "\<exists>q. from_script_pubkey (script_pubkey p) other = Inr q \<and> script_pubkey q = script_pubkey p"
proof -
  have "from_script_pubkey (script_pubkey p) net = Inr p"
    using assms by (rule from_script_pubkey_complete)
  then have "\<exists>q. from_script_pubkey (script_pubkey p) other = Inr q"
    by (auto simp: from_script_pubkey_def standard_pox_def stacks_address_new_eq split: if_splits)
  then show ?thesis
    using from_script_pubkey_sound by blast
qed

end
