(* ===== verification/Sortition_Schedule.thy ===== *)
theory Sortition_Schedule
  imports Bitcoin_Ops Sorted_Map "HOL-Library.Product_Lexorder"
begin

text \<open>
  The rules of \<open>nano-sortition\<close> that depend on a Bitcoin height alone: reward cycles, the proof-of-transfer
  history they extend, payout outputs and mining windows; the registry of leader keys; and which
  commitments of a Bitcoin block count.
\<close>

datatype sortition_error =
    EmptyCommitmentWindow
  | InvalidCommitmentWindow
  | WindowTooLong
  | BurnOverflow
  | ZeroBurnDistribution
  | ZeroRewardCycleLength
  | HeightOverflow
  | UnexpectedHeight u64 u64
  | ReorgBeyondChainRoot u64
  | ReorgTooDeep nat nat

definition mining_commitment_window :: nat where
  "mining_commitment_window = 6"

definition saturating_sub :: "'w::len word \<Rightarrow> 'w word \<Rightarrow> 'w word" where
  "saturating_sub a b = (if a \<ge> b then a - b else 0)"

lemma unat_saturating_sub [simp]: "unat (saturating_sub a b) = unat a - unat b"
  by (simp add: saturating_sub_def unat_sub word_le_nat_alt)

section \<open>Reward cycles\<close>

record reward_cycle_schedule =
  rc_first_bitcoin_height :: u64
  rc_reward_cycle_length :: u64
  rc_first_waterfall_height :: "u64 option"

definition rc_new :: "u64 \<Rightarrow> u64 \<Rightarrow> u64 option \<Rightarrow> sortition_error + reward_cycle_schedule" where
  "rc_new first_bitcoin_height reward_cycle_length first_waterfall_height =
     (if reward_cycle_length = 0 then Inl ZeroRewardCycleLength
      else Inr \<lparr>rc_first_bitcoin_height = first_bitcoin_height, rc_reward_cycle_length = reward_cycle_length,
             rc_first_waterfall_height = first_waterfall_height\<rparr>)"

definition offset_in_cycle :: "reward_cycle_schedule \<Rightarrow> u64 \<Rightarrow> u64" where
  "offset_in_cycle c bitcoin_height =
     saturating_sub bitcoin_height (rc_first_bitcoin_height c) mod rc_reward_cycle_length c"

definition rc_is_waterfall_at :: "reward_cycle_schedule \<Rightarrow> u64 \<Rightarrow> bool" where
  "rc_is_waterfall_at c bitcoin_height =
     (case rc_first_waterfall_height c of None \<Rightarrow> False | Some height \<Rightarrow> bitcoin_height \<ge> height)"

definition starts_at :: "reward_cycle_schedule \<Rightarrow> u64 \<Rightarrow> bool" where
  "starts_at c bitcoin_height =
     (let relative_height = saturating_sub bitcoin_height (rc_first_bitcoin_height c) in
      if rc_is_waterfall_at c bitcoin_height then relative_height mod rc_reward_cycle_length c = 0
      else relative_height mod rc_reward_cycle_length c = 1)"

section \<open>The proof-of-transfer history\<close>

type_synonym pox_id = "bool list"

definition pox_id_initial :: pox_id where
  "pox_id_initial = [True]"

definition extend_with_anchor :: "bool \<Rightarrow> pox_id \<Rightarrow> pox_id" where
  "extend_with_anchor present p = p @ [present]"

definition as_consensus_bytes :: "pox_id \<Rightarrow> bytes" where
  "as_consensus_bytes p = map (\<lambda>present. if present then 0x31 else 0x30) p"

record pox_id_tracker =
  pt_schedule :: reward_cycle_schedule
  pt_pox_id :: pox_id
  pt_bitcoin_height :: u64

definition pt_new :: "reward_cycle_schedule \<Rightarrow> pox_id_tracker" where
  "pt_new schedule = \<lparr>pt_schedule = schedule, pt_pox_id = pox_id_initial,
     pt_bitcoin_height = rc_first_bitcoin_height schedule\<rparr>"

definition pt_advance :: "u64 \<Rightarrow> bool \<Rightarrow> pox_id_tracker \<Rightarrow> sortition_error + pox_id_tracker" where
  "pt_advance bitcoin_height anchor_known t =
     (case checked_add (pt_bitcoin_height t) 1 of
        None \<Rightarrow> Inl HeightOverflow
      | Some expected \<Rightarrow>
          if bitcoin_height \<noteq> expected then Inl (UnexpectedHeight expected bitcoin_height)
          else Inr (t\<lparr>pt_pox_id := (if starts_at (pt_schedule t) bitcoin_height
                                   then extend_with_anchor anchor_known (pt_pox_id t) else pt_pox_id t),
                      pt_bitcoin_height := bitcoin_height\<rparr>))"

text \<open>The heights \<open>bitcoin_height + 1 ..= self.bitcoin_height\<close> that opened a cycle.\<close>

definition starts_between :: "reward_cycle_schedule \<Rightarrow> u64 \<Rightarrow> u64 \<Rightarrow> nat" where
  "starts_between c low high =
     length (filter (\<lambda>h. starts_at c (word_of_nat h)) [Suc (unat low) ..< Suc (unat high)])"

definition pt_retract_to :: "u64 \<Rightarrow> pox_id_tracker \<Rightarrow> sortition_error + pox_id_tracker" where
  "pt_retract_to bitcoin_height t =
     (if bitcoin_height > pt_bitcoin_height t
      then Inl (UnexpectedHeight (pt_bitcoin_height t) bitcoin_height)
      else Inr (t\<lparr>pt_pox_id := take (length (pt_pox_id t)
                     - starts_between (pt_schedule t) bitcoin_height (pt_bitcoin_height t)) (pt_pox_id t),
                  pt_bitcoin_height := bitcoin_height\<rparr>))"

section \<open>Payouts\<close>

record payout_schedule =
  ps_cycles :: reward_cycle_schedule
  ps_prepare_phase_length :: u64
  ps_waterfall_recipient :: "pox_address option"
  ps_epoch_four_activation :: "u64 option"

definition outputs_per_commit :: nat where
  "outputs_per_commit = 2"

definition ps_new :: "reward_cycle_schedule \<Rightarrow> u64 \<Rightarrow> sortition_error + payout_schedule" where
  "ps_new cycles prepare_phase_length =
     (if prepare_phase_length \<ge> rc_reward_cycle_length cycles then Inl ZeroRewardCycleLength
      else Inr \<lparr>ps_cycles = cycles, ps_prepare_phase_length = prepare_phase_length,
             ps_waterfall_recipient = None, ps_epoch_four_activation = None\<rparr>)"

definition paying_waterfall_to :: "pox_address \<Rightarrow> payout_schedule \<Rightarrow> payout_schedule" where
  "paying_waterfall_to recipient p = p\<lparr>ps_waterfall_recipient := Some recipient\<rparr>"

definition activating_epoch_four_at :: "u64 \<Rightarrow> payout_schedule \<Rightarrow> payout_schedule" where
  "activating_epoch_four_at bitcoin_height p = p\<lparr>ps_epoch_four_activation := Some bitcoin_height\<rparr>"

definition is_in_prepare_phase :: "payout_schedule \<Rightarrow> u64 \<Rightarrow> bool" where
  "is_in_prepare_phase p bitcoin_height =
     (if bitcoin_height \<le> rc_first_bitcoin_height (ps_cycles p) then False
      else let offset = offset_in_cycle (ps_cycles p) bitcoin_height in
           offset = 0 \<or> offset > rc_reward_cycle_length (ps_cycles p) - ps_prepare_phase_length p)"

definition outputs_at :: "payout_schedule \<Rightarrow> u64 \<Rightarrow> nat" where
  "outputs_at p bitcoin_height =
     (if rc_is_waterfall_at (ps_cycles p) bitcoin_height then 1
      else if is_in_prepare_phase p bitcoin_height then 1 else outputs_per_commit)"

definition ps_is_waterfall_at :: "payout_schedule \<Rightarrow> u64 \<Rightarrow> bool" where
  "ps_is_waterfall_at p bitcoin_height = rc_is_waterfall_at (ps_cycles p) bitcoin_height"

definition accepts_commitment_outputs :: "payout_schedule \<Rightarrow> u64 \<Rightarrow> bitcoin_output list \<Rightarrow> bool" where
  "accepts_commitment_outputs p bitcoin_height outputs =
     (case get_at 0 outputs of
        None \<Rightarrow> False
      | Some first \<Rightarrow>
          if \<not> bo_amount_sats first > 0 then False
          else if rc_is_waterfall_at (ps_cycles p) bitcoin_height then
            (case ps_waterfall_recipient p of
               None \<Rightarrow> False
             | Some recipient \<Rightarrow> script_pubkey recipient = script_pubkey (bo_recipient first))
          else if is_in_prepare_phase p bitcoin_height then
            (case as_stacks_address (bo_recipient first) of None \<Rightarrow> False | Some address \<Rightarrow> sa_is_burn address)
          else
            (case get_at 1 outputs of
               None \<Rightarrow> False
             | Some second \<Rightarrow> bo_amount_sats second > 0 \<and> bo_amount_sats second = bo_amount_sats first))"

definition mining_window_at :: "payout_schedule \<Rightarrow> u64 \<Rightarrow> nat" where
  "mining_window_at p bitcoin_height =
     (if is_in_prepare_phase p bitcoin_height then 1
      else case ps_epoch_four_activation p of
        Some activation \<Rightarrow>
          if bitcoin_height \<ge> activation \<and> bitcoin_height - activation \<le> word_of_nat mining_commitment_window
          then 1 else mining_commitment_window
      | None \<Rightarrow> mining_commitment_window)"

definition starts_reward_cycle :: "payout_schedule \<Rightarrow> u64 \<Rightarrow> bool" where
  "starts_reward_cycle p bitcoin_height = starts_at (ps_cycles p) bitcoin_height"

section \<open>Leader keys\<close>

record leader_key_entry =
  lk_vrf_public_key :: bytes
  lk_signing_key_hash :: "bytes option"

record leader_keys =
  lk_registered :: "(u64 \<times> u32, leader_key_entry) sorted_map"
  lk_spent :: "(u64 \<times> u32) set"

definition lk_new :: leader_keys where
  "lk_new = \<lparr>lk_registered = [], lk_spent = {}\<rparr>"

definition lk_register :: "u64 \<Rightarrow> u32 \<Rightarrow> leader_key_entry \<Rightarrow> leader_keys \<Rightarrow> leader_keys" where
  "lk_register block_height transaction_index registration ks =
     ks\<lparr>lk_registered := sm_insert (block_height, transaction_index) registration (lk_registered ks)\<rparr>"

definition lk_registration :: "leader_keys \<Rightarrow> u64 \<Rightarrow> u32 \<Rightarrow> leader_key_entry option" where
  "lk_registration ks block_height transaction_index =
     (if (block_height, transaction_index) \<in> lk_spent ks then None
      else sm_lookup (lk_registered ks) (block_height, transaction_index))"

definition lk_usable :: "leader_keys \<Rightarrow> u64 \<Rightarrow> u32 \<Rightarrow> bytes option" where
  "lk_usable ks block_height transaction_index =
     map_option lk_vrf_public_key (lk_registration ks block_height transaction_index)"

definition lk_entries :: "leader_keys \<Rightarrow> (u64 \<times> u32 \<times> leader_key_entry) list" where
  "lk_entries ks = map (\<lambda>((height, index), registration). (height, index, registration)) (lk_registered ks)"

definition lk_spend :: "u64 \<Rightarrow> u32 \<Rightarrow> leader_keys \<Rightarrow> leader_keys" where
  "lk_spend block_height transaction_index ks =
     ks\<lparr>lk_spent := insert (block_height, transaction_index) (lk_spent ks)\<rparr>"

definition lk_available :: "leader_keys \<Rightarrow> nat" where
  "lk_available ks = length (filter (\<lambda>at. at \<notin> lk_spent ks) (map fst (lk_registered ks)))"

section \<open>Commitments of a Bitcoin block\<close>

record mining_commitment =
  mc_txid :: bytes
  mc_spent_txid :: bytes
  mc_spent_output :: u32
  mc_burn_sats :: u64
  mc_vrf_seed :: bytes
  mc_vrf_public_key :: "bytes option"
  mc_signing_key_hash :: "bytes option"
  mc_committed_block_hash :: bytes
  mc_parent_bitcoin_height :: u64

record missed_commitment =
  ms_txid :: bytes
  ms_spent_txid :: bytes
  ms_spent_output :: u32

record window_block =
  cw_commitments :: "mining_commitment list"
  cw_missed_commitments :: "missed_commitment list"
  cw_requires_single_commit :: bool

definition burn_block_mined_at_modulus :: u64 where
  "burn_block_mined_at_modulus = 5"

definition commitment_miss_distance :: "byte \<Rightarrow> u64 \<Rightarrow> u64" where
  "commitment_miss_distance parent_modulus bitcoin_height =
     (let intended = (ucast parent_modulus mod burn_block_mined_at_modulus + 1) mod burn_block_mined_at_modulus;
          actual = bitcoin_height mod burn_block_mined_at_modulus
      in if actual \<ge> intended then actual - intended
         else burn_block_mined_at_modulus + actual - intended)"

definition commitment_is_on_time :: "byte \<Rightarrow> u64 \<Rightarrow> bool" where
  "commitment_is_on_time parent_modulus bitcoin_height = (commitment_miss_distance parent_modulus bitcoin_height = 0)"

definition timely_operation_txids :: "bitcoin_block \<Rightarrow> bytes list" where
  "timely_operation_txids block = map bop_txid (filter (\<lambda>operation.
     case bop_kind operation of
       LeaderBlockCommit _ _ _ _ _ _ _ parent_modulus \<Rightarrow> commitment_is_on_time parent_modulus (bb_height block)
     | _ \<Rightarrow> True) (bb_operations block))"

definition commitment_is_admissible :: "u64 \<Rightarrow> bitcoin_operation \<Rightarrow> payout_schedule \<Rightarrow> bool" where
  "commitment_is_admissible bitcoin_height operation payouts =
     (case bop_kind operation of
        LeaderBlockCommit _ _ parent_block_height parent_transaction_index key_block_height _ _ _ \<Rightarrow>
          bop_inputs operation \<noteq> []
          \<and> (parent_block_height \<noteq> 0 \<or> parent_transaction_index = 0)
          \<and> ucast parent_block_height < bitcoin_height
          \<and> key_block_height \<noteq> 0
          \<and> ucast key_block_height < bitcoin_height
          \<and> accepts_commitment_outputs payouts bitcoin_height (bop_outputs operation)
      | _ \<Rightarrow> False)"

definition accepted_operation_txids :: "bitcoin_block \<Rightarrow> payout_schedule \<Rightarrow> bytes list" where
  "accepted_operation_txids block payouts = map bop_txid (filter (\<lambda>operation.
     case bop_kind operation of
       LeaderBlockCommit _ _ _ _ _ _ _ parent_modulus \<Rightarrow>
         commitment_is_admissible (bb_height block) operation payouts
         \<and> commitment_is_on_time parent_modulus (bb_height block)
     | _ \<Rightarrow> True) (bb_operations block))"

text \<open>The UTXO a commitment chained from, its first input.\<close>

definition chained_from :: "bitcoin_operation \<Rightarrow> bytes \<times> u32" where
  "chained_from operation = (case bop_inputs operation of
     [] \<Rightarrow> (replicate 32 0, 0) | i # _ \<Rightarrow> (bi_txid i, bi_output_index i))"

text \<open>The loop over the operations, in order; the burn is the sum of the payout outputs, which wraps in a
  release build.\<close>

fun window_entries ::
  "bitcoin_block \<Rightarrow> payout_schedule \<Rightarrow> leader_keys \<Rightarrow> bitcoin_operation list
   \<Rightarrow> mining_commitment list \<times> missed_commitment list" where
  "window_entries block payouts keys [] = ([], [])"
| "window_entries block payouts keys (operation # operations) =
     (let (commitments, missed) = window_entries block payouts keys operations in
      case bop_kind operation of
        LeaderBlockCommit block_header_hash new_seed parent_block_height _ key_block_height
          key_transaction_index _ parent_modulus \<Rightarrow>
          (if \<not> commitment_is_admissible (bb_height block) operation payouts then (commitments, missed)
           else let (spent_txid, spent_output) = chained_from operation;
                    miss_distance = commitment_miss_distance parent_modulus (bb_height block);
                    registration = lk_registration keys (ucast key_block_height) (ucast key_transaction_index)
                in if miss_distance > 1 then (commitments, missed)
                   else if miss_distance = 0 then
                     (\<lparr>mc_txid = bop_txid operation, mc_spent_txid = spent_txid, mc_spent_output = spent_output,
                       mc_burn_sats = sum_list (map bo_amount_sats
                         (take (outputs_at payouts (bb_height block)) (bop_outputs operation))),
                       mc_vrf_seed = new_seed,
                       mc_vrf_public_key = map_option lk_vrf_public_key registration,
                       mc_signing_key_hash = Option.bind registration lk_signing_key_hash,
                       mc_committed_block_hash = block_header_hash,
                       mc_parent_bitcoin_height = ucast parent_block_height\<rparr> # commitments, missed)
                   else (commitments,
                     \<lparr>ms_txid = bop_txid operation, ms_spent_txid = spent_txid, ms_spent_output = spent_output\<rparr> # missed))
      | _ \<Rightarrow> (commitments, missed))"

definition commitment_window_block :: "bitcoin_block \<Rightarrow> payout_schedule \<Rightarrow> leader_keys \<Rightarrow> window_block" where
  "commitment_window_block block payouts keys =
     (let (commitments, missed) = window_entries block payouts keys (bb_operations block) in
      \<lparr>cw_commitments = commitments, cw_missed_commitments = missed,
       cw_requires_single_commit = (outputs_at payouts (bb_height block) = 1)\<rparr>)"

section \<open>Reward cycles open once\<close>

text \<open>The height at an offset of the cycle that starts \<open>k\<close> cycles after the first height.\<close>

definition in_cycle :: "reward_cycle_schedule \<Rightarrow> nat \<Rightarrow> nat \<Rightarrow> u64" where
  "in_cycle c k i = word_of_nat (unat (rc_first_bitcoin_height c) + k * unat (rc_reward_cycle_length c) + i)"

lemma unat_in_cycle:
  assumes "unat (rc_first_bitcoin_height c) + Suc k * unat (rc_reward_cycle_length c) < 2 ^ 64" "i < unat (rc_reward_cycle_length c)"
  shows "unat (in_cycle c k i) = unat (rc_first_bitcoin_height c) + k * unat (rc_reward_cycle_length c) + i"
  unfolding in_cycle_def unat_of_nat using assms by simp

lemma starts_in_cycle:
  assumes "unat (rc_first_bitcoin_height c) + Suc k * unat (rc_reward_cycle_length c) < 2 ^ 64" "i < unat (rc_reward_cycle_length c)"
    and "2 \<le> unat (rc_reward_cycle_length c)"
  shows "starts_at c (in_cycle c k i) \<longleftrightarrow> i = (if rc_is_waterfall_at c (in_cycle c k i) then 0 else 1)"
proof -
  have "unat (saturating_sub (in_cycle c k i) (rc_first_bitcoin_height c) mod rc_reward_cycle_length c) = i"
    using assms(2) by (simp add: unat_mod_distrib unat_in_cycle [OF assms(1,2)])
  moreover have "(x = 1) = (unat x = 1)" "(x = 0) = (unat x = 0)" for x :: u64
    by (metis unat_1 unsigned_word_eqI) (simp add: unat_eq_0)
  ultimately show ?thesis
    by (simp add: starts_at_def Let_def)
qed

text \<open>A Bitcoin height of the cycle is at one of its offsets.\<close>

lemma cycle_heights:
  assumes "unat (rc_first_bitcoin_height c) + Suc k * unat (rc_reward_cycle_length c) < 2 ^ 64"
  shows "unat (rc_first_bitcoin_height c) + k * unat (rc_reward_cycle_length c) \<le> unat h
      \<and> unat h < unat (rc_first_bitcoin_height c) + Suc k * unat (rc_reward_cycle_length c)
    \<longleftrightarrow> (\<exists>i < unat (rc_reward_cycle_length c). h = in_cycle c k i)"
proof
  assume h: "unat (rc_first_bitcoin_height c) + k * unat (rc_reward_cycle_length c) \<le> unat h
    \<and> unat h < unat (rc_first_bitcoin_height c) + Suc k * unat (rc_reward_cycle_length c)"
  let ?i = "unat h - (unat (rc_first_bitcoin_height c) + k * unat (rc_reward_cycle_length c))"
  have "?i < unat (rc_reward_cycle_length c)" "h = in_cycle c k ?i"
    using h by (auto simp: in_cycle_def)
  then show "\<exists>i < unat (rc_reward_cycle_length c). h = in_cycle c k i" by blast
next
  assume "\<exists>i < unat (rc_reward_cycle_length c). h = in_cycle c k i"
  then show "unat (rc_first_bitcoin_height c) + k * unat (rc_reward_cycle_length c) \<le> unat h
    \<and> unat h < unat (rc_first_bitcoin_height c) + Suc k * unat (rc_reward_cycle_length c)"
    using unat_in_cycle [OF assms] by auto
qed

section \<open>Undoing an advance\<close>

fun pt_advance_all :: "bool list \<Rightarrow> pox_id_tracker \<Rightarrow> sortition_error + pox_id_tracker" where
  "pt_advance_all [] t = Inr t"
| "pt_advance_all (anchor_known # anchors) t =
     bind_e (pt_advance (pt_bitcoin_height t + 1) anchor_known t) (pt_advance_all anchors)"

lemma starts_between_step:
  assumes "unat low < unat high"
  shows "starts_between c low high = (if starts_at c (low + 1) then 1 else 0) + starts_between c (low + 1) high"
proof -
  have step: "unat (low + 1) = Suc (unat low)"
    using assms unat_bound [of high] by (simp add: unat_word_ariths)
  have "[Suc (unat low) ..< Suc (unat high)] = unat (low + 1) # [Suc (unat (low + 1)) ..< Suc (unat high)]"
    unfolding step using assms by (intro upt_conv_Cons) simp
  then show ?thesis
    by (simp only: starts_between_def filter.simps word_of_nat_eq_0_iff of_nat_unat) (simp del: upt_Suc)
qed

lemma pt_advance_all_Inr:
  assumes "pt_advance_all anchors t = Inr t'"
  shows "\<exists>added h'. t' = t\<lparr>pt_pox_id := pt_pox_id t @ added, pt_bitcoin_height := h'\<rparr>
    \<and> unat h' = unat (pt_bitcoin_height t) + length anchors
    \<and> length added = starts_between (pt_schedule t) (pt_bitcoin_height t) h'"
  using assms
proof (induction anchors arbitrary: t)
  case Nil
  then show ?case
    by (intro exI [of _ "[]"] exI [of _ "pt_bitcoin_height t"]) (simp add: starts_between_def)
next
  case (Cons a anchors)
  define h where "h = pt_bitcoin_height t"
  define bits where "bits = (if starts_at (pt_schedule t) (h + 1) then [a] else [])"
  define t1 where "t1 = t\<lparr>pt_pox_id := pt_pox_id t @ bits, pt_bitcoin_height := h + 1\<rparr>"
  have add: "checked_add h 1 = Some (h + 1)" and run: "pt_advance_all anchors t1 = Inr t'"
    using Cons.prems by (auto simp: bind_e_Inr_iff h_def t1_def bits_def pt_advance_def extend_with_anchor_def
        split: option.splits if_splits)
  have h1: "unat (h + 1) = Suc (unat h)"
    using unat_checked_add [OF add] by simp
  obtain added h' where IH: "t' = t1\<lparr>pt_pox_id := pt_pox_id t1 @ added, pt_bitcoin_height := h'\<rparr>"
      "unat h' = unat (h + 1) + length anchors" "length added = starts_between (pt_schedule t) (h + 1) h'"
    using Cons.IH [OF run] by (auto simp: t1_def)
  have "starts_between (pt_schedule t) h h' = length (bits @ added)"
    using IH(2,3) h1 starts_between_step [of h h' "pt_schedule t"] by (simp add: bits_def)
  then show ?case
    using IH(1,2) h1 by (intro exI [of _ "bits @ added"] exI [of _ h']) (simp add: t1_def h_def)
qed

section \<open>Schedules as specified\<close>


text \<open>C22: rewinding the tracker of the proof-of-transfer history undoes any run of advances, reward-cycle boundaries
  included: retracting to the height it stood at gives back exactly the tracker it was.\<close>

theorem pox_retract_undoes_advance:
  assumes "pt_advance_all anchors t = Inr t'"
  shows "pt_retract_to (pt_bitcoin_height t) t' = Inr t"
proof -
  obtain added h' where t': "t' = t\<lparr>pt_pox_id := pt_pox_id t @ added, pt_bitcoin_height := h'\<rparr>"
      "unat h' = unat (pt_bitcoin_height t) + length anchors"
      "length added = starts_between (pt_schedule t) (pt_bitcoin_height t) h'"
    using pt_advance_all_Inr [OF assms] by blast
  then show ?thesis
    by (simp add: pt_retract_to_def word_less_nat_alt)
qed

definition short_cycles :: reward_cycle_schedule where
  "short_cycles = \<lparr>rc_first_bitcoin_height = 10, rc_reward_cycle_length = 3, rc_first_waterfall_height = Some 16\<rparr>"

theorem pox_retract_undoes_advance_witness:
  "pt_advance_all [True, False] (pt_new short_cycles)
     = Inr \<lparr>pt_schedule = short_cycles, pt_pox_id = [True, True], pt_bitcoin_height = 12\<rparr>
   \<and> pt_retract_to 10 \<lparr>pt_schedule = short_cycles, pt_pox_id = [True, True], pt_bitcoin_height = 12\<rparr> = Inr (pt_new short_cycles)"
proof -
  have "pt_advance_all [True, False] (pt_new short_cycles)
      = Inr \<lparr>pt_schedule = short_cycles, pt_pox_id = [True, True], pt_bitcoin_height = 12\<rparr>"
    by (simp add: pt_new_def short_cycles_def pox_id_initial_def pt_advance_def checked_add_def starts_at_def
        saturating_sub_def rc_is_waterfall_at_def extend_with_anchor_def)
  with pox_retract_undoes_advance [OF this] show ?thesis
    by (simp add: pt_new_def short_cycles_def)
qed


end
