(* ===== verification/Distribution.thy ===== *)
theory Distribution
  imports Sortition_Schedule
begin

text \<open>
  The burn distribution of \<open>nano-sortition\<close>: the commitments of a Bitcoin block chained back through the mining
  window, each candidate's median burn, the ranges of the 256-bit line they are given in proportion to it, the
  null miner of epoch 4.0 and the choice of the winner.
\<close>

type_synonym uint256 = "256 word"
type_synonym uint512 = "512 word"

record burn_sample =
  smp_candidate :: mining_commitment
  smp_burn_sats :: u64
  smp_median_burn_sats :: u64
  smp_frequency :: byte
  smp_range_start :: uint256
  smp_range_end :: uint256

record burn_statistics =
  st_block_burn :: u64
  st_window_median_burn :: u64

datatype link = CommitmentLink mining_commitment | MissedLink missed_commitment

definition link_burn_sats :: "link \<Rightarrow> u64" where
  "link_burn_sats l = (case l of CommitmentLink c \<Rightarrow> mc_burn_sats c | MissedLink _ \<Rightarrow> 1)"

definition link_spent :: "link \<Rightarrow> bytes \<times> u32" where
  "link_spent l = (case l of CommitmentLink c \<Rightarrow> (mc_spent_txid c, mc_spent_output c)
                   | MissedLink c \<Rightarrow> (ms_spent_txid c, ms_spent_output c))"

section \<open>Statistics\<close>

text \<open>The median of a list of amounts, the lower half of the sum of the two middle ones when there is an even
  number of them. \<open>u128::midpoint\<close> of two 64-bit values cannot overflow.\<close>

definition median :: "u64 list \<Rightarrow> u64" where
  "median burns =
     (let sorted_burns = sort burns; middle = length sorted_burns div 2 in
      if length sorted_burns mod 2 = 0
      then word_of_nat ((unat (sorted_burns ! (middle - 1)) + unat (sorted_burns ! middle)) div 2)
      else sorted_burns ! middle)"

definition burn_of_block :: "window_block \<Rightarrow> sortition_error + u64" where
  "burn_of_block b = sum_checked BurnOverflow 0 (map mc_burn_sats (cw_commitments b))"

definition commitment_burn_statistics :: "window_block list \<Rightarrow> sortition_error + burn_statistics" where
  "commitment_burn_statistics window =
     (if window = [] then Inl EmptyCommitmentWindow
      else bind_e (map_e burn_of_block window) (\<lambda>block_burns.
           bind_e (burn_of_block (last window)) (\<lambda>latest_burn.
           Inr \<lparr>st_block_burn = latest_burn, st_window_median_burn = median block_burns\<rparr>)))"

section \<open>Chaining commitments through the window\<close>

text \<open>A \<open>HashMap\<close> collected from a list: a later entry replaces an earlier one with the same key.\<close>

definition hash_map :: "('k \<times> 'v) list \<Rightarrow> ('k \<rightharpoonup> 'v)" where
  "hash_map kvs = map_of (rev kvs)"

text \<open>One chain is extended into one earlier block, taking the commitment or missed commitment it spends.\<close>

definition extend_chain ::
  "u32 \<Rightarrow> link option list \<Rightarrow> (bytes \<rightharpoonup> mining_commitment) \<Rightarrow> (bytes \<rightharpoonup> missed_commitment)
   \<Rightarrow> sortition_error + link option list \<times> (bytes \<rightharpoonup> mining_commitment) \<times> (bytes \<rightharpoonup> missed_commitment)" where
  "extend_chain expected_output chain commitments missed =
     (case find_map (\<lambda>l. l) (rev chain) of
        None \<Rightarrow> Inl InvalidCommitmentWindow
      | Some l \<Rightarrow>
          (let (spent_txid, spent_output) = link_spent l in
           if spent_output \<noteq> expected_output then Inr (chain @ [None], commitments, missed)
           else case commitments spent_txid of
             Some c \<Rightarrow> Inr (chain @ [Some (CommitmentLink c)], commitments(spent_txid := None), missed)
           | None \<Rightarrow>
               (case missed spent_txid of
                  Some c \<Rightarrow> Inr (chain @ [Some (MissedLink c)], commitments, missed(spent_txid := None))
                | None \<Rightarrow> Inr (chain @ [None], commitments, missed))))"

fun extend_chains ::
  "u32 \<Rightarrow> link option list list \<Rightarrow> (bytes \<rightharpoonup> mining_commitment) \<Rightarrow> (bytes \<rightharpoonup> missed_commitment)
   \<Rightarrow> sortition_error + link option list list" where
  "extend_chains expected_output [] commitments missed = Inr []"
| "extend_chains expected_output (chain # others) commitments missed =
     bind_e (extend_chain expected_output chain commitments missed) (\<lambda>(chain', commitments', missed').
     bind_e (extend_chains expected_output others commitments' missed') (\<lambda>others'. Inr (chain' # others')))"

text \<open>One step of the walk from the newest earlier block to the oldest. The missed commitments a slot can link
  to are those that arrived in the block above it.\<close>

definition link_slot :: "window_block list \<Rightarrow> link option list list \<Rightarrow> nat \<Rightarrow> sortition_error + link option list list" where
  "link_slot window linked slot =
     (let block = window ! slot in
      extend_chains (if cw_requires_single_commit block then 2 else 3) linked
        (hash_map (map (\<lambda>c. (mc_txid c, c)) (cw_commitments block)))
        (hash_map (case get_at (slot + 1) window of None \<Rightarrow> []
           | Some b \<Rightarrow> map (\<lambda>c. (ms_txid c, c)) (cw_missed_commitments b))))"

definition make_burn_sample :: "link option list \<Rightarrow> byte \<Rightarrow> sortition_error + burn_sample" where
  "make_burn_sample chain window_len =
     (case chain of
        Some (CommitmentLink candidate) # _ \<Rightarrow>
          if length chain \<noteq> unat window_len then Inl InvalidCommitmentWindow
          else let burns = map (\<lambda>l. case l of None \<Rightarrow> 1 | Some k \<Rightarrow> link_burn_sats k) chain;
                   median_burn_sats = median burns
               in Inr \<lparr>smp_candidate = candidate, smp_burn_sats = min (hd burns) median_burn_sats,
                    smp_median_burn_sats = median_burn_sats,
                    smp_frequency = word_of_nat (length (filter (\<lambda>l. l \<noteq> None) chain)),
                    smp_range_start = 0, smp_range_end = 0\<rparr>
      | _ \<Rightarrow> Inl InvalidCommitmentWindow)"

section \<open>Ranges\<close>

definition uint256_max :: uint256 where
  "uint256_max = - 1"

text \<open>The end of the range after burns adding up to \<open>accumulated\<close>.\<close>

definition scaled_range :: "u64 \<Rightarrow> u64 \<Rightarrow> uint256" where
  "scaled_range accumulated total_burn =
     ucast ((ucast uint256_max * ucast accumulated :: uint512) div ucast total_burn)"

fun ranges_from :: "u64 \<Rightarrow> u64 \<Rightarrow> uint256 \<Rightarrow> burn_sample list \<Rightarrow> sortition_error + burn_sample list" where
  "ranges_from total_burn accumulated range_end [] = Inr []"
| "ranges_from total_burn accumulated range_end (sample # samples) =
     (case checked_add accumulated (smp_burn_sats sample) of
        None \<Rightarrow> Inl BurnOverflow
      | Some accumulated' \<Rightarrow>
          (let range_end' = scaled_range accumulated' total_burn in
           bind_e (ranges_from total_burn accumulated' range_end' samples) (\<lambda>samples'.
           Inr (sample\<lparr>smp_range_start := range_end, smp_range_end := range_end'\<rparr> # samples'))))"

definition assign_ranges :: "burn_sample list \<Rightarrow> sortition_error + burn_sample list" where
  "assign_ranges samples =
     (case samples of
        [] \<Rightarrow> Inr []
      | [sample] \<Rightarrow> Inr [sample\<lparr>smp_range_end := uint256_max\<rparr>]
      | _ \<Rightarrow> bind_e (sum_checked BurnOverflow 0 (map smp_burn_sats samples)) (\<lambda>total_burn.
             if total_burn = 0 then Inl ZeroBurnDistribution else ranges_from total_burn 0 0 samples))"

definition commitment_distribution :: "window_block list \<Rightarrow> sortition_error + burn_sample list" where
  "commitment_distribution window =
     (if window = [] then Inl EmptyCommitmentWindow
      else if length window \<ge> 256 then Inl WindowTooLong
      else let linked = map (\<lambda>c. [Some (CommitmentLink c)]) (cw_commitments (last window)) in
        bind_e (fold_e (link_slot window) linked (rev [0 ..< length window - 1])) (\<lambda>linked'.
        bind_e (map_e (\<lambda>chain. make_burn_sample chain (word_of_nat (length window))) linked') assign_ranges))"

section \<open>The null miner\<close>

text \<open>Fixed-point numbers with 64 fractional bits. The table of advantages is generated by the build and is a
  parameter, \<open>table\<close>.\<close>

type_synonym fixed_point = uint256

definition fp_one :: fixed_point where
  "fp_one = push_bit 64 1"

definition fp_fraction :: "u64 \<Rightarrow> u64 \<Rightarrow> fixed_point" where
  "fp_fraction numerator denominator = push_bit 64 (ucast numerator) div ucast denominator"

definition fp_subtract :: "fixed_point \<Rightarrow> fixed_point \<Rightarrow> fixed_point option" where
  "fp_subtract a b = (if a \<ge> b then Some (a - b) else None)"

definition fp_multiply :: "fixed_point \<Rightarrow> fixed_point \<Rightarrow> fixed_point" where
  "fp_multiply a b = drop_bit 64 (a * b)"

definition fp_integer_part :: "fixed_point \<Rightarrow> u64" where
  "fp_integer_part a = ucast (drop_bit 64 a)"

definition fp_probability :: "fixed_point \<Rightarrow> uint256" where
  "fp_probability a = (if a \<ge> fp_one then push_bit 192 (fp_one - 1) else push_bit 192 a)"

definition carryover :: "u64 \<Rightarrow> u64 \<Rightarrow> fixed_point option" where
  "carryover block_burn window_median_burn =
     (if window_median_burn = 0 then Some 0
      else if block_burn < window_median_burn then Some (fp_fraction block_burn window_median_burn) else None)"

definition lookup_advantage :: "u64 list \<Rightarrow> fixed_point \<Rightarrow> fixed_point" where
  "lookup_advantage table c =
     (let capped = min c fp_one;
          index = min (unat (fp_integer_part (fp_multiply capped (fp_fraction 1024 1)))) (length table - 1)
      in ucast (table ! index))"

definition null_miner_probability :: "u64 list \<Rightarrow> u64 \<Rightarrow> u64 \<Rightarrow> uint256 option" where
  "null_miner_probability table block_burn window_median_burn =
     (case carryover block_burn window_median_burn of
        None \<Rightarrow> None
      | Some c \<Rightarrow>
          (case fp_subtract fp_one c of
             None \<Rightarrow> None
           | Some rest \<Rightarrow>
               (case checked_add (fp_multiply c (lookup_advantage table c)) rest of
                  None \<Rightarrow> None
                | Some probability \<Rightarrow> Some (fp_probability (min probability fp_one)))))"

section \<open>The winner\<close>

definition mix_bitcoin_header :: "(bytes \<Rightarrow> bytes) \<Rightarrow> bytes \<Rightarrow> bytes \<Rightarrow> bytes" where
  "mix_bitcoin_header sha256 sortition_hash header = sha256 (sortition_hash @ header)"

definition mix_vrf_seed :: "(bytes \<Rightarrow> bytes) \<Rightarrow> bytes \<Rightarrow> bytes \<Rightarrow> bytes" where
  "mix_vrf_seed sha256 sortition_hash seed = sha256 (sortition_hash @ seed)"

text \<open>\<open>Uint256::from_little_endian\<close>\<close>

definition uint256_from_le :: "bytes \<Rightarrow> uint256" where
  "uint256_from_le bs = word_of_nat (be_nat (rev bs))"

definition sampled_point :: "(bytes \<Rightarrow> bytes) \<Rightarrow> bytes \<Rightarrow> bytes \<Rightarrow> uint256" where
  "sampled_point sha256 sortition_hash previous_vrf_seed =
     uint256_from_le (mix_vrf_seed sha256 sortition_hash previous_vrf_seed)"

text \<open>\<open>Iterator::position\<close>\<close>

fun position :: "('a \<Rightarrow> bool) \<Rightarrow> 'a list \<Rightarrow> nat option" where
  "position P [] = None"
| "position P (x # xs) = (if P x then Some 0 else map_option Suc (position P xs))"

definition select_winner :: "(bytes \<Rightarrow> bytes) \<Rightarrow> burn_sample list \<Rightarrow> bytes \<Rightarrow> bytes \<Rightarrow> nat option" where
  "select_winner sha256 distribution sortition_hash previous_vrf_seed =
     (if distribution = [] then None
      else if length distribution = 1 then Some 0
      else let point = sampled_point sha256 sortition_hash previous_vrf_seed in
           position (\<lambda>sample. smp_range_start sample \<le> point \<and> point < smp_range_end sample) distribution)"

definition select_epoch4_winner ::
  "(bytes \<Rightarrow> bytes) \<Rightarrow> u64 list \<Rightarrow> burn_sample list \<Rightarrow> nat \<Rightarrow> bytes \<Rightarrow> bytes \<Rightarrow> u64 \<Rightarrow> u64 \<Rightarrow> nat option" where
  "select_epoch4_winner sha256 table distribution sampled_window_len sortition_hash previous_vrf_seed
     block_burn window_median_burn =
     (case select_winner sha256 distribution sortition_hash previous_vrf_seed of
        None \<Rightarrow> None
      | Some candidate \<Rightarrow>
          if unat (smp_frequency (distribution ! candidate)) < min 3 sampled_window_len then None
          else (case null_miner_probability table block_burn window_median_burn of
            None \<Rightarrow> Some candidate
          | Some null_range_end \<Rightarrow>
              if sampled_point sha256 sortition_hash previous_vrf_seed \<ge> null_range_end
              then Some candidate else None))"

section \<open>What an election was decided on\<close>

record sortition_participant =
  sp_txid :: bytes
  sp_signing_key_hash :: "bytes option"
  sp_vrf_public_key :: "bytes option"
  sp_committed_block_hash :: bytes
  sp_burn_sats :: u64
  sp_effective_burn_sats :: u64
  sp_median_burn_sats :: u64
  sp_frequency :: byte

record mining_competition =
  cp_winner_txid :: "bytes option"
  cp_block_burn_sats :: u64
  cp_window_median_burn_sats :: u64
  cp_sampled_window_blocks :: byte
  cp_participants :: "sortition_participant list"

definition competition_of ::
  "burn_sample list \<Rightarrow> burn_statistics \<Rightarrow> nat \<Rightarrow> bytes option \<Rightarrow> mining_competition" where
  "competition_of distribution statistics sampled_window_blocks winner_txid =
     \<lparr>cp_winner_txid = winner_txid,
      cp_block_burn_sats = st_block_burn statistics,
      cp_window_median_burn_sats = st_window_median_burn statistics,
      cp_sampled_window_blocks = word_of_nat sampled_window_blocks,
      cp_participants = map (\<lambda>sample.
        \<lparr>sp_txid = mc_txid (smp_candidate sample),
         sp_signing_key_hash = mc_signing_key_hash (smp_candidate sample),
         sp_vrf_public_key = mc_vrf_public_key (smp_candidate sample),
         sp_committed_block_hash = mc_committed_block_hash (smp_candidate sample),
         sp_burn_sats = mc_burn_sats (smp_candidate sample),
         sp_effective_burn_sats = smp_burn_sats sample,
         sp_median_burn_sats = smp_median_burn_sats sample,
         sp_frequency = smp_frequency sample\<rparr>) distribution\<rparr>"

section \<open>Ranges in proportion to burn\<close>

text \<open>The number of points of the line below its end, \<open>Uint256::MAX\<close>.\<close>

definition line_length :: nat where
  "line_length = unat uint256_max"

lemma line_length_eq: "line_length = 2 ^ 256 - 1"
  by (simp add: line_length_def uint256_max_def unsigned_minus_1_eq_mask mask_eq_exp_minus_1)

lemma unat_scaled_range:
  assumes "accumulated \<le> total_burn" "total_burn \<noteq> 0"
  shows "unat (scaled_range accumulated total_burn) = line_length * unat accumulated div unat total_burn"
proof -
  have up: "unat (ucast x :: uint512) = unat x" for x :: u64
    using unat_bound [of x] by (simp add: unsigned_ucast_eq take_bit_nat_eq_self)
  have max: "unat (ucast uint256_max :: uint512) = line_length"
    using unat_bound [of uint256_max] by (simp add: line_length_def unsigned_ucast_eq take_bit_nat_eq_self)
  have le: "unat accumulated \<le> unat total_burn" "unat total_burn \<noteq> 0" "unat accumulated < 2 ^ 64"
    using assms unat_bound [of accumulated] by (simp_all add: word_le_nat_alt unat_eq_0)
  have "unat (ucast uint256_max * ucast accumulated :: uint512) = line_length * unat accumulated"
    using le(3) by (simp add: unat_word_ariths up max) (simp add: line_length_eq)
  then have q: "unat ((ucast uint256_max * ucast accumulated :: uint512) div ucast total_burn)
      = line_length * unat accumulated div unat total_burn"
    by (simp add: unat_div_distrib up)
  have "line_length * unat accumulated div unat total_burn \<le> line_length"
    using le by (metis div_le_mono mult_le_mono2 nonzero_mult_div_cancel_right)
  then have "line_length * unat accumulated div unat total_burn < (2 ^ 256 :: nat)"
    by (rule le_less_trans) (simp add: line_length_eq)
  with q show ?thesis
    by (simp add: scaled_range_def unsigned_ucast_eq take_bit_nat_eq_self)
qed

text \<open>The burn of the first \<open>i\<close> candidates, and the point of the line where their ranges end.\<close>

definition burn_before :: "burn_sample list \<Rightarrow> nat \<Rightarrow> nat" where
  "burn_before samples i = sum_list (map (\<lambda>s. unat (smp_burn_sats s)) (take i samples))"

definition line_position :: "burn_sample list \<Rightarrow> nat \<Rightarrow> nat" where
  "line_position samples i = line_length * burn_before samples i div burn_before samples (length samples)"

lemma burn_before_0 [simp]: "burn_before samples 0 = 0"
  by (simp add: burn_before_def)

lemma burn_before_Cons [simp]: "burn_before (s # samples) (Suc i) = unat (smp_burn_sats s) + burn_before samples i"
  by (simp add: burn_before_def)

lemma burn_before_mono:
  assumes "i \<le> j"
  shows "burn_before samples i \<le> burn_before samples j"
proof -
  obtain k where "j = i + k"
    using assms le_Suc_ex by blast
  then show ?thesis
    by (simp add: burn_before_def take_add)
qed

lemma line_position_mono: "i \<le> j \<Longrightarrow> line_position samples i \<le> line_position samples j"
  by (simp add: line_position_def burn_before_mono div_le_mono)

lemma ranges_from_Inr:
  assumes "ranges_from total_burn accumulated range_end samples = Inr ds" and "total_burn \<noteq> 0"
    and "unat accumulated + burn_before samples (length samples) \<le> unat total_burn" and "i < length samples"
  shows "length ds = length samples
    \<and> smp_candidate (ds ! i) = smp_candidate (samples ! i) \<and> smp_burn_sats (ds ! i) = smp_burn_sats (samples ! i)
    \<and> smp_frequency (ds ! i) = smp_frequency (samples ! i)
    \<and> unat (smp_range_end (ds ! i))
        = line_length * (unat accumulated + burn_before samples (Suc i)) div unat total_burn
    \<and> (i = 0 \<longrightarrow> smp_range_start (ds ! i) = range_end)
    \<and> (0 < i \<longrightarrow> unat (smp_range_start (ds ! i))
        = line_length * (unat accumulated + burn_before samples i) div unat total_burn)"
  using assms
proof (induction samples arbitrary: accumulated range_end ds i)
  case (Cons s samples)
  obtain next_acc ds' where step: "checked_add accumulated (smp_burn_sats s) = Some next_acc"
      "ranges_from total_burn next_acc (scaled_range next_acc total_burn) samples = Inr ds'"
    and ds: "ds = s\<lparr>smp_range_start := range_end, smp_range_end := scaled_range next_acc total_burn\<rparr> # ds'"
    using Cons.prems(1) by (auto simp: Let_def bind_e_Inr_iff split: option.splits)
  have acc: "unat next_acc = unat accumulated + unat (smp_burn_sats s)"
    using step(1) by (rule unat_checked_add)
  then have le: "unat next_acc + burn_before samples (length samples) \<le> unat total_burn"
    using Cons.prems(3) by simp
  then have scaled: "unat (scaled_range next_acc total_burn) = line_length * unat next_acc div unat total_burn"
    using Cons.prems(2) by (intro unat_scaled_range) (simp_all add: word_le_nat_alt)
  have len: "length ds' = length samples"
    using Cons.IH [OF step(2) Cons.prems(2) le, of 0] step(2) by (cases samples) auto
  show ?case
  proof (cases i)
    case 0
    then show ?thesis using ds scaled len by (simp add: acc)
  next
    case (Suc j)
    with Cons.prems(4) have "j < length samples" by simp
    from Cons.IH [OF step(2) Cons.prems(2) le this] show ?thesis
      using ds Suc len scaled by (cases j) (auto simp: acc add.assoc)
  qed
qed simp

lemma assign_ranges_Inr:
  assumes "assign_ranges samples = Inr ds" and "2 \<le> length samples"
  shows "length ds = length samples" and "0 < burn_before samples (length samples)"
    and "i < length samples \<Longrightarrow> smp_candidate (ds ! i) = smp_candidate (samples ! i)"
    and "i < length samples \<Longrightarrow> smp_burn_sats (ds ! i) = smp_burn_sats (samples ! i)"
    and "i < length samples \<Longrightarrow> smp_frequency (ds ! i) = smp_frequency (samples ! i)"
    and "i < length samples \<Longrightarrow> unat (smp_range_start (ds ! i)) = line_position samples i"
    and "i < length samples \<Longrightarrow> unat (smp_range_end (ds ! i)) = line_position samples (Suc i)"
proof -
  obtain total_burn where sum: "sum_checked BurnOverflow 0 (map smp_burn_sats samples) = Inr total_burn"
    and pos: "total_burn \<noteq> 0" and run: "ranges_from total_burn 0 0 samples = Inr ds"
    using assms by (auto simp: assign_ranges_def bind_e_Inr_iff split: list.splits if_splits)
  have t: "unat total_burn = burn_before samples (length samples)"
    using sum_checked_Inr [OF sum] by (simp add: burn_before_def comp_def)
  note facts = ranges_from_Inr [OF run pos]
  show "0 < burn_before samples (length samples)"
    using pos by (simp flip: t add: unat_gt_0)
  show "length ds = length samples"
    using facts [of 0] assms(2) t by (cases samples) simp_all
  show "smp_candidate (ds ! i) = smp_candidate (samples ! i)" "smp_burn_sats (ds ! i) = smp_burn_sats (samples ! i)"
    "smp_frequency (ds ! i) = smp_frequency (samples ! i)"
    "unat (smp_range_start (ds ! i)) = line_position samples i"
    "unat (smp_range_end (ds ! i)) = line_position samples (Suc i)" if "i < length samples"
    using facts [of i] that by (cases "i = 0"; simp add: t line_position_def)+
qed

lemma burn_before_cong:
  assumes "length ds = length samples" and "\<forall>i < length samples. smp_burn_sats (ds ! i) = smp_burn_sats (samples ! i)"
  shows "burn_before ds = burn_before samples"
proof -
  have "map (\<lambda>s. unat (smp_burn_sats s)) ds = map (\<lambda>s. unat (smp_burn_sats s)) samples"
    using assms by (intro nth_equalityI) auto
  then show ?thesis
    by (metis burn_before_def take_map ext)
qed

lemma line_position_0 [simp]: "line_position samples 0 = 0"
  by (simp add: line_position_def)

lemma line_position_end: "0 < burn_before samples (length samples) \<Longrightarrow> line_position samples (length samples) = line_length"
  unfolding line_position_def by (rule nonzero_mult_div_cancel_right) simp

lemma position_Some_iff:
  "position P xs = Some i \<longleftrightarrow> i < length xs \<and> P (xs ! i) \<and> (\<forall>j < i. \<not> P (xs ! j))"
proof (induction xs arbitrary: i)
  case (Cons x xs)
  then show ?case
    by (cases i) (auto simp: less_Suc_eq_0_disj)
qed simp

text \<open>A step sequence that starts at 0 and ends above \<open>p\<close> passes \<open>p\<close> somewhere.\<close>

lemma step_over:
  fixes f :: "nat \<Rightarrow> nat"
  assumes "f 0 \<le> p" "p < f n"
  shows "\<exists>i < n. f i \<le> p \<and> p < f (Suc i)"
  using assms(2)
proof (induction n)
  case (Suc n)
  then show ?case
    by (cases "p < f n") (auto simp: not_less less_Suc_eq)
qed (use assms(1) in simp)

lemma select_winner_iff:
  assumes "assign_ranges samples = Inr ds" and "2 \<le> length samples"
  shows "select_winner sha ds h seed = Some i \<longleftrightarrow> i < length samples
    \<and> line_position samples i \<le> unat (sampled_point sha h seed)
    \<and> unat (sampled_point sha h seed) < line_position samples (Suc i)"
proof -
  note r = assign_ranges_Inr [OF assms]
  define p where "p = sampled_point sha h seed"
  have hit: "smp_range_start (ds ! j) \<le> p \<and> p < smp_range_end (ds ! j)
      \<longleftrightarrow> line_position samples j \<le> unat p \<and> unat p < line_position samples (Suc j)" if "j < length samples" for j
    using r(6,7) [OF that] by (simp add: word_le_nat_alt word_less_nat_alt)
  have "select_winner sha ds h seed = position (\<lambda>s. smp_range_start s \<le> p \<and> p < smp_range_end s) ds"
    using assms(2) r(1) by (auto simp: select_winner_def Let_def p_def)
  moreover have "\<not> (line_position samples j \<le> unat p \<and> unat p < line_position samples (Suc j))"
    if "j < i" "line_position samples i \<le> unat p" for j
    using line_position_mono [of "Suc j" i samples] that by linarith
  ultimately show ?thesis
    using hit r(1) unfolding p_def [symmetric] by (auto simp: position_Some_iff) (meson less_trans)
qed

lemma select_winner_total:
  assumes "assign_ranges samples = Inr ds" and "2 \<le> length samples" and "sampled_point sha h seed \<noteq> uint256_max"
  shows "\<exists>i. select_winner sha ds h seed = Some i"
proof -
  have "unat (sampled_point sha h seed) \<noteq> line_length"
    using assms(3) unsigned_word_eqI by (auto simp: line_length_def)
  then have "unat (sampled_point sha h seed) < line_position samples (length samples)"
    using unat_bound [of "sampled_point sha h seed"] assign_ranges_Inr(2) [OF assms(1,2)]
    by (simp add: line_position_end line_length_eq)
  then show ?thesis
    using step_over [of "line_position samples" "unat (sampled_point sha h seed)" "length samples"]
    by (auto simp: select_winner_iff [OF assms(1,2)])
qed

section \<open>The distribution always comes out\<close>

lemma median_nth:
  assumes "burns \<noteq> []"
  shows "\<exists>a \<in> set burns. \<exists>b \<in> set burns. unat (median burns) = (unat a + unat b) div 2"
proof -
  define m where "m = length burns div 2"
  have m: "m < length burns" "m - 1 < length burns"
    using assms by (cases burns; simp add: m_def)+
  have mem: "sort burns ! m \<in> set burns" "sort burns ! (m - 1) \<in> set burns"
    using m by (metis length_sort nth_mem set_sort)+
  have "unat (word_of_nat ((unat a + unat b) div 2) :: u64) = (unat a + unat b) div 2" for a b :: u64
    using unat_bound [of a] unat_bound [of b] by (simp add: unat_of_nat)
  then show ?thesis
    using mem unfolding median_def Let_def length_sort m_def [symmetric]
    by (cases "length burns mod 2 = 0") (auto intro!: bexI)
qed

lemma median_ge:
  assumes "burns \<noteq> []" and "\<forall>b \<in> set burns. k \<le> b"
  shows "k \<le> median burns"
proof -
  obtain a b where "a \<in> set burns" "b \<in> set burns" "unat (median burns) = (unat a + unat b) div 2"
    using median_nth [OF assms(1)] by blast
  moreover from this have "unat k \<le> unat a" "unat k \<le> unat b"
    using assms(2) by (simp_all add: word_le_nat_alt)
  ultimately show ?thesis by (simp add: word_le_nat_alt)
qed

text \<open>What a chain looks like while the window is walked: the candidate first, one entry per block passed.\<close>

definition chain_of :: "nat \<Rightarrow> mining_commitment \<Rightarrow> link option list \<Rightarrow> bool" where
  "chain_of n c chain \<longleftrightarrow> length chain = n \<and> (\<exists>links. chain = Some (CommitmentLink c) # links)"

text \<open>Every commitment of a window has a positive burn.\<close>

definition burns_positive :: "window_block list \<Rightarrow> bool" where
  "burns_positive window \<longleftrightarrow> (\<forall>b \<in> set window. \<forall>c \<in> set (cw_commitments b). 0 < mc_burn_sats c)"

definition link_positive :: "link option \<Rightarrow> bool" where
  "link_positive l \<longleftrightarrow> (case l of Some k \<Rightarrow> 0 < link_burn_sats k | None \<Rightarrow> True)"

lemma find_map_Some: "x \<in> set xs \<Longrightarrow> f x \<noteq> None \<Longrightarrow> \<exists>y. find_map f xs = Some y"
  by (induction xs) (auto split: option.splits)

lemma extend_chain_ok:
  assumes "chain_of n c chain" and "\<forall>m \<in> ran commitments. 0 < mc_burn_sats m" and "\<forall>l \<in> set chain. link_positive l"
  shows "\<exists>chain' commitments' missed'. extend_chain k chain commitments missed = Inr (chain', commitments', missed')
    \<and> chain_of (Suc n) c chain' \<and> (\<forall>l \<in> set chain'. link_positive l) \<and> ran commitments' \<subseteq> ran commitments"
proof -
  have "Some (CommitmentLink c) \<in> set (rev chain)"
    using assms(1) by (auto simp: chain_of_def)
  then obtain l where l: "find_map (\<lambda>l. l) (rev chain) = Some l"
    using find_map_Some [of _ _ "\<lambda>l. l"] by blast
  have ext: "chain_of (Suc n) c (chain @ [x])" for x
    using assms(1) by (auto simp: chain_of_def)
  show ?thesis
    using l ext assms(2,3)
    by (auto simp: extend_chain_def link_positive_def link_burn_sats_def ran_def split: prod.splits option.splits)
qed

lemma extend_chains_ok:
  assumes "list_all2 (chain_of n) cs linked" and "\<forall>m \<in> ran commitments. 0 < mc_burn_sats m"
    and "\<forall>chain \<in> set linked. \<forall>l \<in> set chain. link_positive l"
  shows "\<exists>linked'. extend_chains k linked commitments missed = Inr linked'
    \<and> list_all2 (chain_of (Suc n)) cs linked' \<and> (\<forall>chain \<in> set linked'. \<forall>l \<in> set chain. link_positive l)"
  using assms
proof (induction linked arbitrary: cs commitments missed rule: list.induct)
  case (Cons chain linked)
  then obtain c cs' where cs: "cs = c # cs'" "chain_of n c chain" "list_all2 (chain_of n) cs' linked"
    by (auto simp: list_all2_Cons2)
  obtain chain' commitments' missed' where
    step: "extend_chain k chain commitments missed = Inr (chain', commitments', missed')"
      "chain_of (Suc n) c chain'" "\<forall>l \<in> set chain'. link_positive l" "ran commitments' \<subseteq> ran commitments"
    using extend_chain_ok [OF cs(2) Cons.prems(2), of k missed] Cons.prems(3) by auto
  moreover have "\<forall>m \<in> ran commitments'. 0 < mc_burn_sats m"
    using step(4) Cons.prems(2) by blast
  moreover from this obtain linked' where "extend_chains k linked commitments' missed' = Inr linked'"
      "list_all2 (chain_of (Suc n)) cs' linked'" "\<forall>chain \<in> set linked'. \<forall>l \<in> set chain. link_positive l"
    using Cons.IH [OF cs(3), of commitments' missed'] Cons.prems(3) by auto
  ultimately show ?case by (simp add: cs(1))
qed simp

lemma link_slot_ok:
  assumes "list_all2 (chain_of n) cs linked" and "burns_positive window" and "slot < length window"
    and "\<forall>chain \<in> set linked. \<forall>l \<in> set chain. link_positive l"
  shows "\<exists>linked'. link_slot window linked slot = Inr linked'
    \<and> list_all2 (chain_of (Suc n)) cs linked' \<and> (\<forall>chain \<in> set linked'. \<forall>l \<in> set chain. link_positive l)"
proof -
  have "\<forall>m \<in> ran (hash_map (map (\<lambda>c. (mc_txid c, c)) (cw_commitments (window ! slot)))). 0 < mc_burn_sats m"
    using assms(2,3) by (auto simp: hash_map_def burns_positive_def ran_def dest!: map_of_SomeD) (meson nth_mem)
  from extend_chains_ok [OF assms(1) this assms(4)] show ?thesis
    by (simp add: link_slot_def Let_def)
qed

lemma link_slots_ok:
  assumes "list_all2 (chain_of n) cs linked" and "burns_positive window" and "\<forall>slot \<in> set slots. slot < length window"
    and "\<forall>chain \<in> set linked. \<forall>l \<in> set chain. link_positive l"
  shows "\<exists>linked'. fold_e (link_slot window) linked slots = Inr linked'
    \<and> list_all2 (chain_of (n + length slots)) cs linked' \<and> (\<forall>chain \<in> set linked'. \<forall>l \<in> set chain. link_positive l)"
  using assms
proof (induction slots arbitrary: n linked)
  case (Cons slot slots)
  then obtain linked' where "link_slot window linked slot = Inr linked'"
      "list_all2 (chain_of (Suc n)) cs linked'" "\<forall>chain \<in> set linked'. \<forall>l \<in> set chain. link_positive l"
    using link_slot_ok [OF Cons.prems(1,2) _ Cons.prems(4), of slot] by auto
  with Cons.IH [of "Suc n" linked'] Cons.prems show ?case by simp
qed simp

lemma make_burn_sample_ok:
  assumes "chain_of n c chain" and "0 < n" "n < 256" and "\<forall>l \<in> set chain. link_positive l"
  shows "\<exists>s. make_burn_sample chain (word_of_nat n) = Inr s \<and> smp_candidate s = c
    \<and> 0 < smp_burn_sats s \<and> smp_burn_sats s \<le> mc_burn_sats c \<and> smp_burn_sats s \<le> smp_median_burn_sats s
    \<and> 1 \<le> unat (smp_frequency s) \<and> unat (smp_frequency s) \<le> n"
proof -
  obtain links where chain: "chain = Some (CommitmentLink c) # links" "length chain = n"
    using assms(1) by (auto simp: chain_of_def)
  define burns where "burns = map (\<lambda>l. case l of None \<Rightarrow> 1 | Some k \<Rightarrow> link_burn_sats k) chain"
  have "\<forall>b \<in> set burns. 1 \<le> b"
    using assms(4) by (auto simp: burns_def link_positive_def word_le_nat_alt word_less_nat_alt split: option.splits)
  moreover have "burns \<noteq> []" and hd: "hd burns = mc_burn_sats c"
    by (simp_all add: burns_def chain(1) link_burn_sats_def)
  ultimately have "1 \<le> median burns" "1 \<le> hd burns"
    by (simp add: median_ge, metis list.set_sel(1))
  then have pos: "0 < min (hd burns) (median burns)"
    by (simp add: word_le_nat_alt word_less_nat_alt min_def)
  define links_found where "links_found = length (filter (\<lambda>l. l \<noteq> None) chain)"
  have found: "1 \<le> links_found" "links_found \<le> n"
    using chain length_filter_le [of "\<lambda>l. l \<noteq> None" chain] by (simp_all add: links_found_def)
  then have "unat (word_of_nat links_found :: byte) = links_found"
    using assms(3) by (simp add: unat_of_nat)
  moreover have "unat (word_of_nat n :: byte) = n"
    using assms(3) by (simp add: unat_of_nat)
  moreover have "make_burn_sample chain (word_of_nat n) = Inr \<lparr>smp_candidate = c,
      smp_burn_sats = min (hd burns) (median burns), smp_median_burn_sats = median burns,
      smp_frequency = word_of_nat links_found, smp_range_start = 0, smp_range_end = 0\<rparr>"
    using chain calculation(2) by (simp add: make_burn_sample_def burns_def links_found_def Let_def)
  ultimately show ?thesis
    using pos hd found by simp
qed

lemma ranges_from_ok:
  "unat accumulated + burn_before samples (length samples) < 2 ^ 64 \<Longrightarrow>
   \<exists>ds. ranges_from total_burn accumulated range_end samples = Inr ds"
proof (induction samples arbitrary: accumulated range_end)
  case (Cons s samples)
  then obtain next_acc where "checked_add accumulated (smp_burn_sats s) = Some next_acc"
      "unat next_acc = unat accumulated + unat (smp_burn_sats s)"
    by (auto simp: checked_add_def unat_word_ariths)
  moreover from this obtain ds where
    "ranges_from total_burn next_acc (scaled_range next_acc total_burn) samples = Inr ds"
    using Cons.IH [of next_acc] Cons.prems by fastforce
  ultimately show ?case by (simp add: Let_def)
qed simp

lemma assign_ranges_ok:
  assumes "burn_before samples (length samples) < 2 ^ 64" and "\<forall>s \<in> set samples. 0 < smp_burn_sats s"
  shows "\<exists>ds. assign_ranges samples = Inr ds"
proof (cases "length samples < 2")
  case False
  obtain total_burn where sum: "sum_checked BurnOverflow 0 (map smp_burn_sats samples) = Inr total_burn"
      "unat total_burn = burn_before samples (length samples)"
    using sum_checked_ok [of 0 "map smp_burn_sats samples" BurnOverflow] assms(1)
    by (auto simp: burn_before_def comp_def)
  obtain s s' rest where samples: "samples = s # s' # rest"
    using False by (cases samples; cases "tl samples") auto
  have "0 < unat (smp_burn_sats s)"
    using assms(2) by (simp add: samples word_less_nat_alt)
  then have "total_burn \<noteq> 0"
    using sum(2) by (auto simp: samples)
  then show ?thesis
    using ranges_from_ok [of 0 samples] assms(1) sum(1) by (simp add: assign_ranges_def samples)
qed (auto simp: assign_ranges_def numeral_2_eq_2 less_Suc_eq length_Suc_conv)

text \<open>What the ranges leave alone.\<close>

lemma assign_ranges_keeps:
  assumes "assign_ranges samples = Inr ds"
  shows "list_all2 (\<lambda>s d. smp_candidate d = smp_candidate s \<and> smp_burn_sats d = smp_burn_sats s
    \<and> smp_frequency d = smp_frequency s) samples ds"
proof (cases "length samples < 2")
  case False
  then show ?thesis
    using assign_ranges_Inr [OF assms] by (simp add: list_all2_conv_all_nth)
qed (use assms in \<open>auto simp: assign_ranges_def numeral_2_eq_2 less_Suc_eq length_Suc_conv\<close>)

text \<open>A weighed candidate: its own commitment, with an effective burn of at most what it paid.\<close>

definition weighed :: "nat \<Rightarrow> mining_commitment \<Rightarrow> burn_sample \<Rightarrow> bool" where
  "weighed n c s \<longleftrightarrow> smp_candidate s = c \<and> 0 < smp_burn_sats s \<and> smp_burn_sats s \<le> mc_burn_sats c
     \<and> 1 \<le> unat (smp_frequency s) \<and> unat (smp_frequency s) \<le> n"

lemma samples_ok:
  assumes "list_all2 (chain_of n) cs linked" and "0 < n" "n < 256"
    and "\<forall>chain \<in> set linked. \<forall>l \<in> set chain. link_positive l"
  shows "\<exists>samples. map_e (\<lambda>chain. make_burn_sample chain (word_of_nat n)) linked = Inr samples \<and> list_all2 (weighed n) cs samples"
  using assms(1,4)
proof (induction linked arbitrary: cs rule: list.induct)
  case (Cons chain linked)
  then obtain c cs' where cs: "cs = c # cs'" "chain_of n c chain" "list_all2 (chain_of n) cs' linked"
    by (auto simp: list_all2_Cons2)
  obtain s where "make_burn_sample chain (word_of_nat n) = Inr s" "weighed n c s"
    using make_burn_sample_ok [OF cs(2) assms(2,3)] Cons.prems(2) by (auto simp: weighed_def)
  with Cons.IH [OF cs(3)] Cons.prems(2) show ?case by (auto simp: cs(1))
qed simp

lemma weighed_burns:
  assumes "list_all2 (weighed n) cs samples"
  shows "burn_before samples (length samples) \<le> sum_list (map (\<lambda>c. unat (mc_burn_sats c)) cs)"
  using assms by (induction rule: list_all2_induct) (auto simp: weighed_def word_le_nat_alt)

lemma commitment_distribution_ok:
  assumes "window \<noteq> []" "length window < 256" "burns_positive window"
    and "sum_list (map (\<lambda>c. unat (mc_burn_sats c)) (cw_commitments (last window))) < 2 ^ 64"
  shows "\<exists>samples ds. commitment_distribution window = Inr ds \<and> assign_ranges samples = Inr ds
    \<and> list_all2 (weighed (length window)) (cw_commitments (last window)) samples"
proof -
  define cs where "cs = cw_commitments (last window)"
  define slots where "slots = rev [0 ..< length window - 1]"
  define start where "start = map (\<lambda>c. [Some (CommitmentLink c)]) cs"
  have "list_all2 (chain_of 1) cs start"
    by (simp add: start_def list_all2_conv_all_nth chain_of_def)
  moreover have "\<forall>chain \<in> set start. \<forall>l \<in> set chain. link_positive l"
    using assms(1,3) by (auto simp: start_def cs_def burns_positive_def link_positive_def link_burn_sats_def)
  moreover have "\<forall>slot \<in> set slots. slot < length window" "length window = 1 + length slots"
    using assms(1) by (auto simp: slots_def)
  ultimately obtain linked where linked: "fold_e (link_slot window) start slots = Inr linked"
      "list_all2 (chain_of (length window)) cs linked" "\<forall>chain \<in> set linked. \<forall>l \<in> set chain. link_positive l"
    using link_slots_ok [OF _ assms(3), of 1 cs start slots] by auto
  then obtain samples where
    samples: "map_e (\<lambda>chain. make_burn_sample chain (word_of_nat (length window))) linked = Inr samples"
      "list_all2 (weighed (length window)) cs samples"
    using samples_ok [OF linked(2) _ assms(2) linked(3)] assms(1) by blast
  have "\<forall>s \<in> set samples. 0 < smp_burn_sats s"
    using samples(2) by (auto simp: list_all2_conv_all_nth in_set_conv_nth weighed_def)
  moreover have "burn_before samples (length samples) < 2 ^ 64"
    using weighed_burns [OF samples(2)] assms(4) unfolding cs_def by (rule le_less_trans)
  ultimately obtain ds where ds: "assign_ranges samples = Inr ds"
    using assign_ranges_ok by blast
  have "commitment_distribution window = bind_e (fold_e (link_slot window) start slots) (\<lambda>linked'.
      bind_e (map_e (\<lambda>chain. make_burn_sample chain (word_of_nat (length window))) linked') assign_ranges)"
    using assms(1,2) by (simp add: commitment_distribution_def cs_def start_def slots_def Let_def)
  then show ?thesis
    using linked(1) samples ds by (auto simp: cs_def)
qed

lemma weighed_after_ranges:
  assumes "list_all2 (weighed n) cs samples" and "assign_ranges samples = Inr ds"
  shows "list_all2 (weighed n) cs ds"
  using list_all2_trans [OF _ assms(1) assign_ranges_keeps [OF assms(2)], of "weighed n"]
  by (simp add: weighed_def)

lemma line_position_after_ranges:
  assumes "assign_ranges samples = Inr ds" and "2 \<le> length samples"
  shows "line_position ds = line_position samples" "length ds = length samples"
  using assign_ranges_Inr [OF assms] burn_before_cong [of ds samples]
  by (simp_all add: line_position_def fun_eq_iff)

section \<open>Elections as specified\<close>


definition rival :: "byte \<Rightarrow> u64 \<Rightarrow> mining_commitment" where
  "rival b burn = \<lparr>mc_txid = replicate 32 b, mc_spent_txid = replicate 32 0, mc_spent_output = 2, mc_burn_sats = burn,
     mc_vrf_seed = replicate 32 b, mc_vrf_public_key = None, mc_signing_key_hash = None,
     mc_committed_block_hash = replicate 32 b, mc_parent_bitcoin_height = 9\<rparr>"

definition rivalry :: "window_block list" where
  "rivalry = [\<lparr>cw_commitments = [rival 1 1000, rival 2 3000], cw_missed_commitments = [], cw_requires_single_commit = True\<rparr>]"


end
