(* ===== verification/Snapshot_Chain.thy ===== *)
theory Snapshot_Chain
  imports Distribution
begin

text \<open>
  The chain of sortition snapshots of \<open>nano-sortition\<close>: one snapshot per Bitcoin block, the consensus-hash history
  its skip list reaches into, the window of snapshots it keeps, the heights it remembers below that window, and
  retraction after a Bitcoin reorganization.
\<close>

section \<open>Data\<close>

record burn_spends =
  bs_total :: u64
  bs_winner :: u64

record sortition_winner =
  sw_txid :: bytes
  sw_vrf_seed :: bytes
  sw_vrf_public_key :: "bytes option"
  sw_signing_key_hash :: "bytes option"
  sw_committed_block_hash :: bytes
  sw_parent_bitcoin_height :: u64

record sortition_snapshot =
  sn_bitcoin_height :: u64
  sn_bitcoin_header_hash :: bytes
  sn_bitcoin_timestamp :: u64
  sn_sortition_id :: bytes
  sn_parent_sortition_id :: bytes
  sn_operations_hash :: bytes
  sn_consensus_hash :: bytes
  sn_total_burn :: u64
  sn_sortition_hash :: bytes
  sn_num_sortitions :: "u64 option"
  sn_winner_txid :: "bytes option"
  sn_winner_vrf_seed :: "bytes option"
  sn_winner_vrf_public_key :: "bytes option"
  sn_winner_signing_key_hash :: "bytes option"
  sn_committed_block_hash :: "bytes option"
  sn_parent_bitcoin_height :: "u64 option"
  sn_burn_spends :: "burn_spends option"
  sn_mining_competition :: "mining_competition option"
  sn_pox_id :: pox_id

text \<open>The hash functions of \<open>nano-primitives\<close> the crate calls.\<close>

record hashes =
  h_sha256 :: "bytes \<Rightarrow> bytes"
  h_sha512_256 :: "bytes \<Rightarrow> bytes"
  h_hash160 :: "bytes \<Rightarrow> bytes"

definition snapshot_genesis :: "u64 \<Rightarrow> bytes \<Rightarrow> sortition_snapshot" where
  "snapshot_genesis bitcoin_height bitcoin_header_hash =
     \<lparr>sn_bitcoin_height = bitcoin_height, sn_bitcoin_header_hash = bitcoin_header_hash, sn_bitcoin_timestamp = 0,
      sn_sortition_id = bitcoin_header_hash, sn_parent_sortition_id = bitcoin_header_hash,
      sn_operations_hash = replicate 32 0, sn_consensus_hash = replicate 20 0, sn_total_burn = 0,
      sn_sortition_hash = replicate 32 0, sn_num_sortitions = Some 0, sn_winner_txid = None,
      sn_winner_vrf_seed = None, sn_winner_vrf_public_key = None, sn_winner_signing_key_hash = None,
      sn_committed_block_hash = None, sn_parent_bitcoin_height = None, sn_burn_spends = None,
      sn_mining_competition = None, sn_pox_id = pox_id_initial\<rparr>"

definition snapshot_for :: "bitcoin_block \<Rightarrow> sortition_snapshot" where
  "snapshot_for block = (snapshot_genesis (bb_height block) (bb_hash block))\<lparr>sn_bitcoin_timestamp := bb_timestamp block\<rparr>"

record snapshot_chain =
  sc_snapshots :: "sortition_snapshot list"
  sc_consensus_hashes :: "bytes list"
  sc_sortitions_below_window :: "u64 list"
  sc_needed_from :: "u64 option"

datatype fork = Canonical | ForkAbove u64 | BeyondChainRoot u64

record sortition_reorg =
  sr_valid_ancestor :: sortition_snapshot
  sr_retracted :: "sortition_snapshot list"

section \<open>Hashes\<close>

definition ops_hash_from_txids :: "hashes \<Rightarrow> bytes list \<Rightarrow> bytes" where
  "ops_hash_from_txids H txids = h_sha256 H (concat txids)"

definition sortition_id :: "hashes \<Rightarrow> bytes \<Rightarrow> pox_id \<Rightarrow> bytes" where
  "sortition_id H bitcoin_header_hash pox = h_sha512_256 H (bitcoin_header_hash @ as_consensus_bytes pox)"

definition system_fork_set_version :: bytes where
  "system_fork_set_version = [23, 0, 0, 0]"

definition consensus_hash_of :: "hashes \<Rightarrow> bytes \<Rightarrow> bytes \<Rightarrow> u64 \<Rightarrow> bytes list \<Rightarrow> pox_id \<Rightarrow> bytes" where
  "consensus_hash_of H bitcoin_header_hash operations_hash total_burn previous_hashes pox =
     h_hash160 H (system_fork_set_version @ bitcoin_header_hash @ operations_hash @ u64_to_be total_burn
       @ as_consensus_bytes pox @ concat previous_hashes)"

definition unbroken_pox_id_for :: "hashes \<Rightarrow> bytes \<Rightarrow> bytes \<Rightarrow> nat \<Rightarrow> pox_id option" where
  "unbroken_pox_id_for H bitcoin_header_hash identifier max_cycles =
     find (\<lambda>pox. sortition_id H bitcoin_header_hash pox = identifier)
       (map (\<lambda>cycles. replicate cycles True) [1 ..< Suc max_cycles])"

section \<open>Operations\<close>

definition snapshots_kept :: nat where
  "snapshots_kept = 144"

definition sc_new :: "sortition_snapshot \<Rightarrow> snapshot_chain" where
  "sc_new genesis = \<lparr>sc_snapshots = [genesis], sc_consensus_hashes = [sn_consensus_hash genesis],
     sc_sortitions_below_window = [], sc_needed_from = None\<rparr>"

definition sc_with_history :: "sortition_snapshot \<Rightarrow> bytes list \<Rightarrow> snapshot_chain option" where
  "sc_with_history genesis history =
     (if history = [] \<or> last history \<noteq> sn_consensus_hash genesis then None
      else Some \<lparr>sc_snapshots = [genesis], sc_consensus_hashes = history,
             sc_sortitions_below_window = [], sc_needed_from = None\<rparr>)"

definition tip :: "snapshot_chain \<Rightarrow> sortition_snapshot" where
  "tip c = last (sc_snapshots c)"

definition chain_root :: "snapshot_chain \<Rightarrow> sortition_snapshot" where
  "chain_root c = hd (sc_snapshots c)"

text \<open>\<open>canonical_hash\<close> is what Bitcoin answers for a height, or its error.\<close>

fun find_fork_from ::
  "(u64 \<Rightarrow> 'e + bytes) \<Rightarrow> u64 \<Rightarrow> u64 \<Rightarrow> sortition_snapshot list \<Rightarrow> 'e + fork" where
  "find_fork_from canonical_hash tip_height root_height [] = Inr (BeyondChainRoot root_height)"
| "find_fork_from canonical_hash tip_height root_height (snapshot # below) =
     bind_e (canonical_hash (sn_bitcoin_height snapshot)) (\<lambda>hash.
     if hash = sn_bitcoin_header_hash snapshot
     then Inr (if sn_bitcoin_height snapshot = tip_height then Canonical else ForkAbove (sn_bitcoin_height snapshot))
     else find_fork_from canonical_hash tip_height root_height below)"

definition find_fork :: "(u64 \<Rightarrow> 'e + bytes) \<Rightarrow> snapshot_chain \<Rightarrow> 'e + fork" where
  "find_fork canonical_hash c =
     find_fork_from canonical_hash (sn_bitcoin_height (tip c)) (sn_bitcoin_height (chain_root c)) (rev (sc_snapshots c))"

definition saturating_add_usize :: "nat \<Rightarrow> nat \<Rightarrow> nat" where
  "saturating_add_usize a b = min (a + b) usize_max"

definition sc_retract_above :: "u64 \<Rightarrow> snapshot_chain \<Rightarrow> sortition_error + sortition_reorg \<times> snapshot_chain" where
  "sc_retract_above bitcoin_height c =
     (let root_bitcoin_height = sn_bitcoin_height (chain_root c) in
      if bitcoin_height < root_bitcoin_height then Inl (ReorgBeyondChainRoot root_bitcoin_height)
      else let kept = saturating_add_usize (unat (bitcoin_height - root_bitcoin_height)) 1;
               dropped = length (sc_snapshots c) - kept;
               c' = c\<lparr>sc_consensus_hashes := take (length (sc_consensus_hashes c) - dropped) (sc_consensus_hashes c),
                      sc_snapshots := take kept (sc_snapshots c)\<rparr>
           in Inr (\<lparr>sr_valid_ancestor = tip c', sr_retracted = drop kept (sc_snapshots c)\<rparr>, c'))"

definition reorg_depth :: "sortition_reorg \<Rightarrow> nat" where
  "reorg_depth r = length (sr_retracted r)"

definition resume_bitcoin_height :: "sortition_reorg \<Rightarrow> u64" where
  "resume_bitcoin_height r =
     (let h = sn_bitcoin_height (sr_valid_ancestor r) in if h = - 1 then h else h + 1)"

definition invalidated_consensus_hashes :: "sortition_reorg \<Rightarrow> bytes list" where
  "invalidated_consensus_hashes r = map sn_consensus_hash (sr_retracted r)"

definition effective_winner_seed_at_or_below :: "u64 \<Rightarrow> snapshot_chain \<Rightarrow> bytes option" where
  "effective_winner_seed_at_or_below bitcoin_height c =
     find_map sn_winner_vrf_seed (dropWhile (\<lambda>s. sn_bitcoin_height s > bitcoin_height) (rev (sc_snapshots c)))"

definition effective_winner_seed :: "snapshot_chain \<Rightarrow> bytes option" where
  "effective_winner_seed c = effective_winner_seed_at_or_below (sn_bitcoin_height (tip c)) c"

text \<open>The two facts a resumed chain is told about its root, refused once it has moved on; the flag says whether
  the fact was taken.\<close>

definition adopt_root_winner_seed :: "bytes \<Rightarrow> snapshot_chain \<Rightarrow> bool \<times> snapshot_chain" where
  "adopt_root_winner_seed seed c =
     (case sc_snapshots c of
        [root] \<Rightarrow> (True, c\<lparr>sc_snapshots := [root\<lparr>sn_winner_vrf_seed := Some seed\<rparr>]\<rparr>)
      | _ \<Rightarrow> (False, c))"

definition adopt_root_winner_vrf_public_key :: "bytes \<Rightarrow> snapshot_chain \<Rightarrow> bool \<times> snapshot_chain" where
  "adopt_root_winner_vrf_public_key key c =
     (case sc_snapshots c of
        [root] \<Rightarrow> (True, c\<lparr>sc_snapshots := [root\<lparr>sn_winner_vrf_public_key := Some key\<rparr>]\<rparr>)
      | _ \<Rightarrow> (False, c))"

definition remember_sortition_below_window :: "u64 \<Rightarrow> u64 list \<Rightarrow> u64 list" where
  "remember_sortition_below_window bitcoin_height remembered =
     (if remembered \<noteq> [] \<and> last remembered = bitcoin_height then remembered
      else let remembered' = remembered @ [bitcoin_height] in
           if length remembered' > snapshots_kept then drop 1 remembered' else remembered')"

definition snapshots_to_keep :: "snapshot_chain \<Rightarrow> nat" where
  "snapshots_to_keep c =
     max (case sc_needed_from c of
            None \<Rightarrow> 0
          | Some lowest \<Rightarrow>
              if sn_bitcoin_height (tip c) < lowest then 0
              else saturating_add_usize (unat (sn_bitcoin_height (tip c) - lowest)) 1) snapshots_kept"

definition forget_oldest :: "snapshot_chain \<Rightarrow> snapshot_chain" where
  "forget_oldest c = c\<lparr>sc_snapshots := drop 1 (sc_snapshots c),
     sc_sortitions_below_window :=
       (if sn_winner_txid (hd (sc_snapshots c)) \<noteq> None
        then remember_sortition_below_window (sn_bitcoin_height (hd (sc_snapshots c))) (sc_sortitions_below_window c)
        else sc_sortitions_below_window c)\<rparr>"

text \<open>The loop that drops the oldest snapshot while there are too many.\<close>

function forget_snapshots :: "snapshot_chain \<Rightarrow> snapshot_chain" where
  "forget_snapshots c =
     (if length (sc_snapshots c) > snapshots_to_keep c then forget_snapshots (forget_oldest c) else c)"
  by auto
termination
  by (relation "measure (length \<circ> sc_snapshots)") (auto simp: forget_oldest_def)

declare forget_snapshots.simps [simp del]

text \<open>The consensus hashes at distances 0, 1, 3, 7, ... behind the newest one.\<close>

function skip_hashes :: "bytes list \<Rightarrow> nat \<Rightarrow> bytes list" where
  "skip_hashes history exponent =
     (if exponent < 64 \<and> 2 ^ exponent - 1 \<le> length history - 1
      then history ! (length history - 1 - (2 ^ exponent - 1)) # skip_hashes history (Suc exponent)
      else [])"
  by auto
termination
  by (relation "measure (\<lambda>(_, exponent). 64 - exponent)") auto

declare skip_hashes.simps [simp del]

definition previous_consensus_hashes :: "snapshot_chain \<Rightarrow> bytes list" where
  "previous_consensus_hashes c = skip_hashes (sc_consensus_hashes c) 0"

definition next_snapshot ::
  "hashes \<Rightarrow> snapshot_chain \<Rightarrow> bitcoin_block \<Rightarrow> bytes list \<Rightarrow> u64 \<Rightarrow> pox_id \<Rightarrow> sortition_winner option
   \<Rightarrow> sortition_snapshot" where
  "next_snapshot H c block operation_txids total_burn pox winner =
     (let parent = tip c;
          operations_hash = ops_hash_from_txids H operation_txids;
          sortition_hash = mix_bitcoin_header (h_sha256 H) (sn_sortition_hash parent) (bb_hash block)
      in \<lparr>sn_bitcoin_height = bb_height block, sn_bitcoin_header_hash = bb_hash block,
          sn_bitcoin_timestamp = bb_timestamp block,
          sn_sortition_id = sortition_id H (bb_hash block) pox,
          sn_parent_sortition_id = sn_sortition_id parent,
          sn_operations_hash = operations_hash,
          sn_consensus_hash = consensus_hash_of H (bb_hash block) operations_hash total_burn
            (previous_consensus_hashes c) pox,
          sn_total_burn = total_burn,
          sn_sortition_hash = (case winner of None \<Rightarrow> sortition_hash
            | Some w \<Rightarrow> mix_vrf_seed (h_sha256 H) sortition_hash (sw_vrf_seed w)),
          sn_num_sortitions = Option.bind (sn_num_sortitions parent)
            (\<lambda>count. checked_add count (if winner \<noteq> None then 1 else 0)),
          sn_winner_txid = map_option sw_txid winner,
          sn_winner_vrf_seed = map_option sw_vrf_seed winner,
          sn_winner_vrf_public_key = Option.bind winner sw_vrf_public_key,
          sn_winner_signing_key_hash = Option.bind winner sw_signing_key_hash,
          sn_committed_block_hash = map_option sw_committed_block_hash winner,
          sn_parent_bitcoin_height = map_option sw_parent_bitcoin_height winner,
          sn_burn_spends = None, sn_mining_competition = None, sn_pox_id = pox\<rparr>)"

definition append_with_operations ::
  "hashes \<Rightarrow> bitcoin_block \<Rightarrow> bytes list \<Rightarrow> u64 \<Rightarrow> pox_id \<Rightarrow> sortition_winner option \<Rightarrow> snapshot_chain
   \<Rightarrow> sortition_error + snapshot_chain" where
  "append_with_operations H block operation_txids total_burn pox winner c =
     (case checked_add (sn_bitcoin_height (tip c)) 1 of
        None \<Rightarrow> Inl HeightOverflow
      | Some expected_height \<Rightarrow>
          if bb_height block \<noteq> expected_height then Inl (UnexpectedHeight expected_height (bb_height block))
          else let snapshot = next_snapshot H c block operation_txids total_burn pox winner in
               Inr (forget_snapshots (c\<lparr>sc_consensus_hashes := sc_consensus_hashes c @ [sn_consensus_hash snapshot],
                                        sc_snapshots := sc_snapshots c @ [snapshot]\<rparr>)))"

definition append_with_winner ::
  "hashes \<Rightarrow> bitcoin_block \<Rightarrow> u64 \<Rightarrow> pox_id \<Rightarrow> sortition_winner option \<Rightarrow> snapshot_chain
   \<Rightarrow> sortition_error + snapshot_chain" where
  "append_with_winner H block total_burn pox winner c =
     append_with_operations H block (timely_operation_txids block) total_burn pox winner c"

definition sc_append :: "hashes \<Rightarrow> bitcoin_block \<Rightarrow> u64 \<Rightarrow> pox_id \<Rightarrow> snapshot_chain \<Rightarrow> sortition_error + snapshot_chain" where
  "sc_append H block total_burn pox c = append_with_winner H block total_burn pox None c"

text \<open>\<open>if let Some(tip) = self.snapshots.last_mut() { .. }\<close>\<close>

definition update_tip :: "(sortition_snapshot \<Rightarrow> sortition_snapshot) \<Rightarrow> snapshot_chain \<Rightarrow> snapshot_chain" where
  "update_tip f c = c\<lparr>sc_snapshots := (if sc_snapshots c = [] then []
     else butlast (sc_snapshots c) @ [f (last (sc_snapshots c))])\<rparr>"

definition record_tip_burn_spends :: "burn_spends option \<Rightarrow> snapshot_chain \<Rightarrow> snapshot_chain" where
  "record_tip_burn_spends spends = update_tip (\<lambda>s. s\<lparr>sn_burn_spends := spends\<rparr>)"

definition record_tip_mining_competition :: "mining_competition option \<Rightarrow> snapshot_chain \<Rightarrow> snapshot_chain" where
  "record_tip_mining_competition competition = update_tip (\<lambda>s. s\<lparr>sn_mining_competition := competition\<rparr>)"

definition keep_from :: "u64 \<Rightarrow> snapshot_chain \<Rightarrow> snapshot_chain" where
  "keep_from bitcoin_height c =
     (if (case sc_needed_from c of None \<Rightarrow> True | Some lowest \<Rightarrow> bitcoin_height > lowest)
      then c\<lparr>sc_needed_from := Some bitcoin_height\<rparr> else c)"

definition snapshot_at :: "u64 \<Rightarrow> snapshot_chain \<Rightarrow> sortition_snapshot option" where
  "snapshot_at bitcoin_height c =
     (if sn_bitcoin_height (tip c) < bitcoin_height then None
      else let back = unat (sn_bitcoin_height (tip c) - bitcoin_height) in
           if length (sc_snapshots c) < back + 1 then None
           else get_at (length (sc_snapshots c) - (back + 1)) (sc_snapshots c))"

definition last_sortition_at_or_below :: "u64 \<Rightarrow> snapshot_chain \<Rightarrow> u64 option" where
  "last_sortition_at_or_below bitcoin_height c =
     (case find_map (\<lambda>s. map_option (\<lambda>_. sn_bitcoin_height s) (sn_winner_txid s))
             (dropWhile (\<lambda>s. sn_bitcoin_height s > bitcoin_height) (rev (sc_snapshots c))) of
        Some h \<Rightarrow> Some h
      | None \<Rightarrow> find (\<lambda>h. h \<le> bitcoin_height) (rev (sc_sortitions_below_window c)))"

definition sortition_below_window :: "snapshot_chain \<Rightarrow> u64 option" where
  "sortition_below_window c =
     (if sc_sortitions_below_window c = [] then None else Some (last (sc_sortitions_below_window c)))"

definition seed_sortition_below_window :: "u64 option \<Rightarrow> snapshot_chain \<Rightarrow> snapshot_chain" where
  "seed_sortition_below_window bitcoin_height c =
     c\<lparr>sc_sortitions_below_window := (case bitcoin_height of None \<Rightarrow> [] | Some h \<Rightarrow> [h])\<rparr>"

definition seed_sortitions_below_window :: "u64 list \<Rightarrow> snapshot_chain \<Rightarrow> snapshot_chain" where
  "seed_sortitions_below_window heights c = c\<lparr>sc_sortitions_below_window := remdups_adj (sort heights)\<rparr>"

section \<open>A chain and the whole history it keeps a window of\<close>

definition contiguous :: "sortition_snapshot list \<Rightarrow> bool" where
  "contiguous = successively (\<lambda>a b. unat (sn_bitcoin_height b) = Suc (unat (sn_bitcoin_height a)))"

definition elected :: "sortition_snapshot \<Rightarrow> bool" where
  "elected s \<longleftrightarrow> sn_winner_txid s \<noteq> None"

definition elected_heights :: "sortition_snapshot list \<Rightarrow> u64 list" where
  "elected_heights ss = map sn_bitcoin_height (filter elected ss)"

text \<open>\<open>window_of past full c\<close>: of the contiguous history \<open>full\<close>, the chain \<open>c\<close> holds everything after
  \<open>past\<close>, the newest part of the list of heights in \<open>past\<close> that elected somebody, and the consensus hashes.\<close>

definition window_of :: "sortition_snapshot list \<Rightarrow> sortition_snapshot list \<Rightarrow> snapshot_chain \<Rightarrow> bool" where
  "window_of past full c \<longleftrightarrow> full = past @ sc_snapshots c \<and> sc_snapshots c \<noteq> [] \<and> contiguous full
     \<and> (\<exists>j. sc_sortitions_below_window c = drop j (elected_heights past))
     \<and> (\<exists>before. sc_consensus_hashes c = before @ map sn_consensus_hash (sc_snapshots c))"

lemma contiguous_append:
  "contiguous (xs @ ys) \<longleftrightarrow> contiguous xs \<and> contiguous ys
     \<and> (xs \<noteq> [] \<longrightarrow> ys \<noteq> [] \<longrightarrow> unat (sn_bitcoin_height (hd ys)) = Suc (unat (sn_bitcoin_height (last xs))))"
  by (auto simp: contiguous_def successively_append_iff)

lemma contiguous_single [simp]: "contiguous [s]" "contiguous []"
  by (simp_all add: contiguous_def)

lemma contiguous_nth:
  assumes "contiguous xs" "i < length xs"
  shows "unat (sn_bitcoin_height (xs ! i)) = unat (sn_bitcoin_height (hd xs)) + i"
  using assms(2)
proof (induction i)
  case (Suc i)
  then show ?case
    using assms(1) unfolding contiguous_def successively_conv_nth by simp
qed (cases xs; simp)

lemma contiguous_less:
  assumes "contiguous xs" "i < j" "j < length xs"
  shows "sn_bitcoin_height (xs ! i) < sn_bitcoin_height (xs ! j)"
  using contiguous_nth [OF assms(1), of i] contiguous_nth [OF assms(1), of j] assms(2,3)
  by (simp add: word_less_nat_alt)

lemma contiguous_sorted: "contiguous xs \<Longrightarrow> sorted_wrt (<) (map sn_bitcoin_height xs)"
  by (simp add: sorted_wrt_iff_nth_less contiguous_less)

lemma elected_heights_append [simp]: "elected_heights (xs @ ys) = elected_heights xs @ elected_heights ys"
  by (simp add: elected_heights_def)

lemma elected_heights_sorted: "contiguous xs \<Longrightarrow> sorted_wrt (<) (elected_heights xs)"
  using contiguous_sorted [of xs] unfolding elected_heights_def sorted_wrt_map by (rule sorted_wrt_filter)

section \<open>Each operation keeps the window\<close>

lemma window_of_new: "window_of [] [g] (sc_new g)"
  by (simp add: window_of_def sc_new_def elected_heights_def)

lemma window_of_history: "sc_with_history g history = Some c \<Longrightarrow> window_of [] [g] c"
  by (auto simp: sc_with_history_def window_of_def elected_heights_def split: if_splits) (metis append_butlast_last_id)

lemma window_of_seeded:
  assumes "contiguous (past @ [g])"
  shows "window_of past (past @ [g]) (seed_sortitions_below_window (elected_heights past) (sc_new g))"
proof -
  have s: "sorted_wrt (<) (elected_heights past)"
    using assms by (simp add: contiguous_append elected_heights_sorted)
  then have "remdups_adj (sort (elected_heights past)) = elected_heights past"
    using strict_sorted_iff [of "elected_heights past"] by (simp add: sorted_sort_id remdups_adj_distinct distinct_adj_def)
  then show ?thesis
    using assms by (auto simp: window_of_def seed_sortitions_below_window_def sc_new_def intro: exI [of _ 0])
qed

lemma remember_drop:
  assumes "remembered = drop j (elected_heights past)" and "sorted_wrt (<) (elected_heights past @ [h])"
  shows "\<exists>j'. remember_sortition_below_window h remembered = drop j' (elected_heights past @ [h])"
proof (cases "remembered \<noteq> [] \<and> last remembered = h")
  case True
  then have "h \<in> set (elected_heights past)"
    using assms(1) by (metis in_set_dropD last_in_set)
  then show ?thesis
    using assms(2) by (auto simp: sorted_wrt_append)
next
  case False
  define rest where "rest = remembered @ [h]"
  have rest: "rest = drop (min j (length (elected_heights past))) (elected_heights past @ [h])"
    by (cases "j \<le> length (elected_heights past)") (simp_all add: rest_def assms(1))
  have "remember_sortition_below_window h remembered = (if length rest > snapshots_kept then drop 1 rest else rest)"
    using False by (auto simp: remember_sortition_below_window_def Let_def rest_def)
  moreover have "\<exists>j'. drop 1 rest = drop j' (elected_heights past @ [h])" "\<exists>j'. rest = drop j' (elected_heights past @ [h])"
    unfolding rest drop_drop by blast+
  ultimately show ?thesis by auto
qed

lemma window_of_forget_oldest:
  assumes "window_of past full c" and "1 < length (sc_snapshots c)"
  shows "window_of (past @ [hd (sc_snapshots c)]) full (forget_oldest c)"
proof -
  obtain s t rest where snaps: "sc_snapshots c = s # t # rest"
    using assms(2) by (cases "sc_snapshots c"; cases "tl (sc_snapshots c)") auto
  have cont: "contiguous (past @ [s])"
    using assms(1) by (auto simp: window_of_def snaps contiguous_append)
  obtain j where below: "sc_sortitions_below_window c = drop j (elected_heights past)"
    using assms(1) by (auto simp: window_of_def)
  have "\<exists>j. sc_sortitions_below_window (forget_oldest c) = drop j (elected_heights (past @ [s]))"
  proof (cases "elected s")
    case True
    then have "sorted_wrt (<) (elected_heights past @ [sn_bitcoin_height s])"
      using elected_heights_sorted [OF cont] by (simp add: elected_heights_def)
    with remember_drop [OF below] True show ?thesis
      by (simp add: forget_oldest_def snaps elected_heights_def elected_def)
  qed (use below in \<open>auto simp: forget_oldest_def snaps elected_heights_def elected_def\<close>)
  moreover have "\<exists>before. sc_consensus_hashes (forget_oldest c) = before @ map sn_consensus_hash (t # rest)"
    using assms(1) by (auto simp: window_of_def snaps forget_oldest_def)
  moreover have "full = past @ s # t # rest" "contiguous full"
    using assms(1) by (auto simp: window_of_def snaps)
  ultimately show ?thesis
    by (simp add: window_of_def snaps forget_oldest_def)
qed

lemma window_of_forget:
  assumes "window_of past full c"
  shows "\<exists>past'. window_of past' full (forget_snapshots c)"
  using assms
proof (induction c arbitrary: past rule: forget_snapshots.induct)
  case (1 c)
  show ?case
  proof (cases "length (sc_snapshots c) > snapshots_to_keep c")
    case True
    then have "1 < length (sc_snapshots c)"
      by (simp add: snapshots_to_keep_def snapshots_kept_def)
    from 1(1) [OF True window_of_forget_oldest [OF 1(2) this]] True show ?thesis
      by (simp add: forget_snapshots.simps [of c])
  qed (use 1(2) in \<open>auto simp: forget_snapshots.simps [of c]\<close>)
qed

lemma window_of_append:
  assumes "window_of past full c" and "append_with_operations H block txids total_burn pox winner c = Inr c'"
  shows "\<exists>past'. window_of past' (full @ [next_snapshot H c block txids total_burn pox winner]) c'"
proof -
  define s where "s = next_snapshot H c block txids total_burn pox winner"
  define grown where "grown = c\<lparr>sc_consensus_hashes := sc_consensus_hashes c @ [sn_consensus_hash s], sc_snapshots := sc_snapshots c @ [s]\<rparr>"
  have c': "c' = forget_snapshots grown" and height: "checked_add (sn_bitcoin_height (tip c)) 1 = Some (sn_bitcoin_height s)"
    using assms(2)
    by (auto simp: append_with_operations_def s_def grown_def next_snapshot_def Let_def split: option.splits if_splits)
  have "unat (sn_bitcoin_height s) = Suc (unat (sn_bitcoin_height (last (sc_snapshots c))))"
    using unat_checked_add [OF height] by (simp add: tip_def)
  then have "window_of past (full @ [s]) grown"
    using assms(1) by (auto simp: window_of_def grown_def contiguous_append)
  then show ?thesis
    unfolding c' s_def by (rule window_of_forget)
qed

lemma window_of_retract:
  assumes "window_of past full c" and "sc_retract_above h c = Inr (r, c')"
  shows "window_of past (take (length full - reorg_depth r) full) c'" and "sc_needed_from c' = sc_needed_from c"
    and "full = take (length full - reorg_depth r) full @ sr_retracted r" and "sr_valid_ancestor r = tip c'"
proof -
  define kept where "kept = saturating_add_usize (unat (h - sn_bitcoin_height (chain_root c))) 1"
  have kept: "0 < kept"
    by (simp add: kept_def saturating_add_usize_def usize_max_def)
  have r: "r = \<lparr>sr_valid_ancestor = tip c', sr_retracted = drop kept (sc_snapshots c)\<rparr>"
    and c': "c' = c\<lparr>sc_consensus_hashes := take (length (sc_consensus_hashes c) - (length (sc_snapshots c) - kept)) (sc_consensus_hashes c),
                   sc_snapshots := take kept (sc_snapshots c)\<rparr>"
    using assms(2) by (auto simp: sc_retract_above_def Let_def kept_def split: if_splits)
  obtain before where full: "full = past @ sc_snapshots c" "sc_snapshots c \<noteq> []" "contiguous full"
    and hashes: "sc_consensus_hashes c = before @ map sn_consensus_hash (sc_snapshots c)"
    and below: "\<exists>j. sc_sortitions_below_window c = drop j (elected_heights past)"
    using assms(1) by (auto simp: window_of_def)
  have rest: "take (length full - reorg_depth r) full = past @ take kept (sc_snapshots c)"
    by (cases "kept \<le> length (sc_snapshots c)") (simp_all add: full(1) r reorg_depth_def)
  have "contiguous (past @ take kept (sc_snapshots c))"
    using full(3) append_take_drop_id [of kept "sc_snapshots c"] unfolding full(1)
    by (metis append.assoc contiguous_append)
  moreover have "take (length (sc_consensus_hashes c) - (length (sc_snapshots c) - kept)) (sc_consensus_hashes c)
      = before @ map sn_consensus_hash (take kept (sc_snapshots c))"
    by (cases "kept \<le> length (sc_snapshots c)") (simp_all add: hashes take_map)
  ultimately show "window_of past (take (length full - reorg_depth r) full) c'"
    unfolding rest using full(2) kept below by (auto simp: window_of_def c')
  show "sc_needed_from c' = sc_needed_from c" "full = take (length full - reorg_depth r) full @ sr_retracted r"
    "sr_valid_ancestor r = tip c'"
    unfolding rest by (simp_all add: c' r full(1))
qed

lemma window_of_update_tip:
  assumes "window_of past full c" and "sn_bitcoin_height (f (tip c)) = sn_bitcoin_height (tip c)"
    and "sn_consensus_hash (f (tip c)) = sn_consensus_hash (tip c)"
  shows "window_of past (butlast full @ [f (last full)]) (update_tip f c)"
proof -
  obtain ss s where snaps: "sc_snapshots c = ss @ [s]"
    using assms(1) by (auto simp: window_of_def) (metis rev_exhaust)
  then show ?thesis
    using assms by (auto simp: window_of_def update_tip_def tip_def butlast_append contiguous_append hd_append)
qed

section \<open>What the window answers\<close>

lemma find_append: "find P (xs @ ys) = (case find P xs of None \<Rightarrow> find P ys | Some x \<Rightarrow> Some x)"
  by (induction xs) auto

lemma find_Some_in: "find P xs = Some x \<Longrightarrow> x \<in> set xs \<and> P x"
  by (auto simp: find_Some_iff)

text \<open>A search from the end that has lost the oldest part of the list still finds the same element, when it finds
  one.\<close>

lemma find_rev_suffix:
  "(case find P (rev up) of Some h \<Rightarrow> Some h | None \<Rightarrow> find P (rev (drop j low))) = Some h
    \<longleftrightarrow> find P (rev (low @ up)) = Some h \<and> h \<in> set up \<union> set (drop j low)"
proof -
  have "find P (rev low) = (case find P (rev (drop j low)) of None \<Rightarrow> find P (rev (take j low)) | Some x \<Rightarrow> Some x)"
    by (metis append_take_drop_id find_append rev_append)
  moreover have "find P xs = None \<Longrightarrow> x \<in> set xs \<Longrightarrow> \<not> P x" for xs x
    by (auto simp: find_None_iff)
  ultimately show ?thesis
    by (cases "find P (rev up)"; cases "find P (rev (drop j low))") (auto simp: find_append dest!: find_Some_in)
qed

lemma walk_below:
  assumes "\<forall>s \<in> set ss. sn_bitcoin_height s \<le> b"
  shows "find_map (\<lambda>s. map_option (\<lambda>_. sn_bitcoin_height s) (sn_winner_txid s)) (rev ss)
    = find (\<lambda>h. h \<le> b) (rev (elected_heights ss))"
  using assms by (induction ss rule: rev_induct) (auto simp: elected_heights_def elected_def)

lemma walk_back:
  assumes "contiguous ss"
  shows "find_map (\<lambda>s. map_option (\<lambda>_. sn_bitcoin_height s) (sn_winner_txid s))
      (dropWhile (\<lambda>s. sn_bitcoin_height s > b) (rev ss)) = find (\<lambda>h. h \<le> b) (rev (elected_heights ss))"
  using assms
proof (induction ss rule: rev_induct)
  case (snoc s ss)
  show ?case
  proof (cases "sn_bitcoin_height s > b")
    case True
    with snoc show ?thesis
      by (auto simp: contiguous_append elected_heights_def)
  next
    case False
    have "\<forall>t \<in> set (ss @ [s]). sn_bitcoin_height t \<le> b"
      using contiguous_sorted [OF snoc.prems] False by (auto simp: sorted_wrt_append not_less intro: order_trans less_imp_le)
    from walk_below [OF this] False show ?thesis by simp
  qed
qed (simp add: elected_heights_def)

text \<open>The last height of a history at or below a bound that elected somebody.\<close>

definition last_elected :: "sortition_snapshot list \<Rightarrow> u64 \<Rightarrow> u64 option" where
  "last_elected full b = find (\<lambda>h. h \<le> b) (rev (elected_heights full))"

lemma last_sortition_window:
  assumes "window_of past full c"
  shows "last_sortition_at_or_below b c = Some h \<longleftrightarrow> last_elected full b = Some h
    \<and> h \<in> set (elected_heights (sc_snapshots c)) \<union> set (sc_sortitions_below_window c)"
proof -
  define up where "up = elected_heights (sc_snapshots c)"
  define low where "low = elected_heights past"
  obtain j where j: "sc_sortitions_below_window c = drop j low"
    using assms by (auto simp: window_of_def low_def)
  have cont: "contiguous (past @ sc_snapshots c)"
    using assms by (auto simp: window_of_def)
  have full: "elected_heights full = low @ up"
    using assms by (auto simp: window_of_def low_def up_def)
  have "last_sortition_at_or_below b c = (case find (\<lambda>h. h \<le> b) (rev up) of Some h \<Rightarrow> Some h
      | None \<Rightarrow> find (\<lambda>h. h \<le> b) (rev (drop j low)))"
    using cont unfolding last_sortition_at_or_below_def j by (simp add: walk_back contiguous_append up_def)
  then show ?thesis
    by (simp only: find_rev_suffix last_elected_def full j up_def [symmetric])
qed

lemma snapshot_at_window:
  assumes "window_of past full c"
  shows "snapshot_at b c = find (\<lambda>s. sn_bitcoin_height s = b) (sc_snapshots c)"
proof -
  define ss where "ss = sc_snapshots c"
  have ss: "contiguous ss" "ss \<noteq> []"
    using assms by (auto simp: window_of_def ss_def contiguous_append)
  have nth: "unat (sn_bitcoin_height (ss ! i)) = unat (sn_bitcoin_height (hd ss)) + i" if "i < length ss" for i
    using contiguous_nth [OF ss(1) that] .
  have tip_height: "unat (sn_bitcoin_height (tip c)) = unat (sn_bitcoin_height (hd ss)) + (length ss - 1)"
    using nth [of "length ss - 1"] ss(2) by (simp add: tip_def ss_def [symmetric] last_conv_nth)
  show ?thesis
  proof (cases "\<exists>i < length ss. sn_bitcoin_height (ss ! i) = b")
    case True
    then obtain i where i: "i < length ss" "sn_bitcoin_height (ss ! i) = b" by blast
    have "\<forall>k < i. sn_bitcoin_height (ss ! k) \<noteq> b"
      using contiguous_less [OF ss(1) _ i(1)] i(2) by fastforce
    then have "find (\<lambda>s. sn_bitcoin_height s = b) ss = Some (ss ! i)"
      using i by (auto simp: find_Some_iff)
    moreover have "unat (sn_bitcoin_height (tip c) - b) = length ss - 1 - i" "\<not> sn_bitcoin_height (tip c) < b"
      using nth [OF i(1)] tip_height i by (simp_all add: word_less_nat_alt unat_sub word_le_nat_alt)
    ultimately show ?thesis
      using i(1) by (simp add: snapshot_at_def get_at_def ss_def [symmetric] Let_def)
  next
    case False
    then have "find (\<lambda>s. sn_bitcoin_height s = b) ss = None"
      by (auto simp: find_None_iff in_set_conv_nth)
    moreover have "length ss < unat (sn_bitcoin_height (tip c) - b) + 1" if "b \<le> sn_bitcoin_height (tip c)"
    proof (rule ccontr)
      assume "\<not> ?thesis"
      then have "unat b - unat (sn_bitcoin_height (hd ss)) < length ss"
          "unat (sn_bitcoin_height (hd ss)) \<le> unat b"
        using tip_height that ss(2) by (auto simp: unat_sub word_le_nat_alt)
      with nth [of "unat b - unat (sn_bitcoin_height (hd ss))"] False show False
        by (auto intro: unsigned_word_eqI)
    qed
    ultimately show ?thesis
      by (auto simp: snapshot_at_def ss_def [symmetric] Let_def not_less)
  qed
qed

section \<open>A reorganization leaves no trace\<close>

lemma forget_keeps_hashes: "sc_consensus_hashes (forget_snapshots c) = sc_consensus_hashes c"
  by (induction c rule: forget_snapshots.induct) (simp add: forget_snapshots.simps [of c for c] forget_oldest_def)

lemma append_hashes:
  "append_with_operations H block txids total_burn pox winner c = Inr c' \<Longrightarrow>
   sc_consensus_hashes c' = sc_consensus_hashes c @ [sn_consensus_hash (next_snapshot H c block txids total_burn pox winner)]"
  by (auto simp: append_with_operations_def Let_def forget_keeps_hashes split: option.splits if_splits)

lemma retract_hashes:
  "sc_retract_above h c = Inr (r, c') \<Longrightarrow>
   sc_consensus_hashes c' = take (length (sc_consensus_hashes c) - reorg_depth r) (sc_consensus_hashes c)"
  by (auto simp: sc_retract_above_def Let_def reorg_depth_def split: if_splits)

text \<open>Appending a run of Bitcoin blocks, each with its accepted operations, running burn, proof-of-transfer history
  and winner.\<close>

fun append_all ::
  "hashes \<Rightarrow> (bitcoin_block \<times> bytes list \<times> u64 \<times> pox_id \<times> sortition_winner option) list \<Rightarrow> snapshot_chain
   \<Rightarrow> sortition_error + snapshot_chain" where
  "append_all H [] c = Inr c"
| "append_all H ((block, txids, total_burn, pox, winner) # steps) c =
     bind_e (append_with_operations H block txids total_burn pox winner c) (append_all H steps)"

lemma append_all_window:
  assumes "window_of past full c" and "append_all H steps c = Inr c'"
  shows "\<exists>past' new. window_of past' (full @ new) c' \<and> length new = length steps
    \<and> sc_consensus_hashes c' = sc_consensus_hashes c @ map sn_consensus_hash new"
  using assms
proof (induction steps arbitrary: past full c)
  case (Cons step steps)
  obtain block txids total_burn pox winner where step: "step = (block, txids, total_burn, pox, winner)"
    by (rule prod_cases5)
  obtain c1 where c1: "append_with_operations H block txids total_burn pox winner c = Inr c1"
    and run: "append_all H steps c1 = Inr c'"
    using Cons.prems(2) by (auto simp: step bind_e_Inr_iff)
  define s where "s = next_snapshot H c block txids total_burn pox winner"
  obtain past1 where "window_of past1 (full @ [s]) c1"
    using window_of_append [OF Cons.prems(1) c1] by (auto simp: s_def)
  from Cons.IH [OF this run] obtain past' new where "window_of past' ((full @ [s]) @ new) c'"
    "length new = length steps" "sc_consensus_hashes c' = sc_consensus_hashes c1 @ map sn_consensus_hash new"
    by blast
  then show ?case
    using append_hashes [OF c1] by (intro exI [of _ past'] exI [of _ "s # new"]) (simp add: s_def)
qed auto

lemma retract_new:
  assumes "window_of past (full @ new) c" and "full \<noteq> []" "new \<noteq> []"
    and "sc_retract_above (sn_bitcoin_height (last full)) c = Inr (r, c')"
  shows "sr_retracted r = new"
proof -
  define h where "h = sn_bitcoin_height (last full)"
  define root where "root = sn_bitcoin_height (chain_root c)"
  have all: "full @ new = past @ sc_snapshots c" "contiguous (full @ new)" "sc_snapshots c \<noteq> []"
    using assms(1) by (auto simp: window_of_def)
  have le: "root \<le> h" and r: "sr_retracted r = drop (saturating_add_usize (unat (h - root)) 1) (sc_snapshots c)"
    using assms(4) by (auto simp: sc_retract_above_def Let_def h_def root_def split: if_splits)
  define low where "low = unat (sn_bitcoin_height (hd (full @ new)))"
  have "(full @ new) ! length past = chain_root c" and bound: "length past < length (full @ new)"
    using all(3) by (simp_all add: all(1) chain_root_def nth_append hd_conv_nth)
  then have root: "unat root = low + length past"
    using contiguous_nth [OF all(2) bound] by (simp add: root_def low_def)
  have "(full @ new) ! (length full - 1) = last full"
    using assms(2) by (simp add: nth_append last_conv_nth)
  moreover have "length full - 1 < length (full @ new)"
    using assms(2) by (cases full) simp_all
  ultimately have h: "unat h = low + (length full - 1)"
    using contiguous_nth [OF all(2), of "length full - 1"] by (simp add: h_def low_def)
  have "unat (sn_bitcoin_height ((full @ new) ! length full)) = low + length full"
    using contiguous_nth [OF all(2), of "length full"] assms(3) by (simp add: low_def)
  then have "low + length full < 2 ^ 64"
    using unat_bound [of "sn_bitcoin_height ((full @ new) ! length full)"] by simp
  moreover obtain n where "length full = Suc n"
    using assms(2) by (cases full) simp_all
  ultimately have "saturating_add_usize (unat (h - root)) 1 = length full - length past"
    using le h root by (simp add: saturating_add_usize_def usize_max_def unat_sub word_le_nat_alt Suc_diff_le)
  moreover have "length past \<le> length full"
    using le h root by (simp add: word_le_nat_alt)
  moreover have "new = drop (length full) (past @ sc_snapshots c)"
    by (simp flip: all(1))
  ultimately show ?thesis
    by (simp add: r)
qed

lemma next_snapshot_cong:
  "tip c' = tip c \<Longrightarrow> sc_consensus_hashes c' = sc_consensus_hashes c \<Longrightarrow> next_snapshot H c' = next_snapshot H c"
  by (simp add: next_snapshot_def previous_consensus_hashes_def fun_eq_iff)

lemma retract_restores:
  assumes "window_of past full c" and "append_all H steps c = Inr c'" and "steps \<noteq> []"
    and "sc_retract_above (sn_bitcoin_height (tip c)) c' = Inr (r, c'')"
  shows "tip c'' = tip c" "sc_consensus_hashes c'' = sc_consensus_hashes c" "reorg_depth r = length steps"
proof -
  obtain past' new where w: "window_of past' (full @ new) c'" and new: "length new = length steps"
    and hashes: "sc_consensus_hashes c' = sc_consensus_hashes c @ map sn_consensus_hash new"
    using append_all_window [OF assms(1,2)] by blast
  have full: "full \<noteq> []" "tip c = last full"
    using assms(1) by (auto simp: window_of_def tip_def)
  have retracted: "sr_retracted r = new"
    using retract_new [OF w full(1)] assms(3,4) new unfolding full(2) by (metis length_0_conv)
  then show depth: "reorg_depth r = length steps"
    by (simp add: reorg_depth_def new)
  show "sc_consensus_hashes c'' = sc_consensus_hashes c"
    using retract_hashes [OF assms(4)] by (simp add: hashes depth flip: new)
  have "window_of past' full c''"
    using window_of_retract(1) [OF w assms(4)] by (simp add: depth flip: new)
  then show "tip c'' = tip c"
    using full by (auto simp: window_of_def tip_def)
qed

section \<open>Chains as the node builds them\<close>

text \<open>Every chain the node can hold, with the whole history behind it. A chain starts from a first block, from a
  checkpoint, or from what an earlier run wrote down; it grows, is retracted, and has facts recorded on its tip.\<close>

inductive history_of :: "hashes \<Rightarrow> sortition_snapshot list \<Rightarrow> snapshot_chain \<Rightarrow> bool" for H where
  started: "history_of H [g] (sc_new g)"
| resumed: "sc_with_history g history = Some c \<Longrightarrow> history_of H [g] c"
| seeded: "contiguous (past @ [g]) \<Longrightarrow>
    history_of H (past @ [g]) (seed_sortitions_below_window (elected_heights past) (sc_new g))"
| appended: "history_of H full c \<Longrightarrow> append_with_operations H block txids total_burn pox winner c = Inr c' \<Longrightarrow>
    history_of H (full @ [next_snapshot H c block txids total_burn pox winner]) c'"
| retracted: "history_of H full c \<Longrightarrow> sc_retract_above h c = Inr (r, c') \<Longrightarrow>
    history_of H (take (length full - reorg_depth r) full) c'"
| spent: "history_of H full c \<Longrightarrow>
    history_of H (butlast full @ [(last full)\<lparr>sn_burn_spends := spends\<rparr>]) (record_tip_burn_spends spends c)"
| contested: "history_of H full c \<Longrightarrow>
    history_of H (butlast full @ [(last full)\<lparr>sn_mining_competition := m\<rparr>]) (record_tip_mining_competition m c)"
| needed: "history_of H full c \<Longrightarrow> history_of H full (keep_from h c)"

lemma history_of_window: "history_of H full c \<Longrightarrow> \<exists>past. window_of past full c"
proof (induction rule: history_of.induct)
  case (appended full c block txids total_burn pox winner c')
  then show ?case using window_of_append by blast
next
  case (retracted full c h r c')
  then show ?case using window_of_retract(1) by blast
next
  case (spent full c spends)
  then show ?case
    using window_of_update_tip [of _ full c "\<lambda>s. s\<lparr>sn_burn_spends := spends\<rparr>"] by (auto simp: record_tip_burn_spends_def)
next
  case (contested full c m)
  then show ?case
    using window_of_update_tip [of _ full c "\<lambda>s. s\<lparr>sn_mining_competition := m\<rparr>"]
    by (auto simp: record_tip_mining_competition_def)
next
  case (needed full c h)
  then show ?case by (auto simp: keep_from_def window_of_def)
qed (use window_of_new window_of_history window_of_seeded in blast)+

section \<open>Snapshot chains as specified\<close>


definition won :: "u64 \<Rightarrow> sortition_snapshot" where
  "won h = (snapshot_genesis h (replicate 32 1))\<lparr>sn_winner_txid := Some (replicate 32 2)\<rparr>"



definition id_hashes :: hashes where
  "id_hashes = \<lparr>h_sha256 = id, h_sha512_256 = id, h_hash160 = id\<rparr>"

definition block_eleven :: bitcoin_block where
  "block_eleven = \<lparr>bb_height = 11, bb_hash = replicate 32 3, bb_timestamp = 0, bb_operations = []\<rparr>"


end
