(* ===== verification/Sortition_Engine.thy ===== *)
theory Sortition_Engine
  imports Snapshot_Chain
begin

text \<open>
  The engine of \<open>nano-sortition\<close>: the snapshot chain together with the commitment history its elections are
  weighed over. Each operation returns the engine it leaves behind, also when it fails.
\<close>

record sortition_engine =
  se_snapshots :: snapshot_chain
  se_commitment_window :: "window_block list"

definition retained_commitment_blocks :: nat where
  "retained_commitment_blocks = mining_commitment_window * 2"

definition engine_new :: "sortition_snapshot \<Rightarrow> sortition_engine" where
  "engine_new genesis = \<lparr>se_snapshots = sc_new genesis, se_commitment_window = []\<rparr>"

definition engine_with_history :: "sortition_snapshot \<Rightarrow> bytes list \<Rightarrow> sortition_engine option" where
  "engine_with_history genesis history =
     map_option (\<lambda>c. \<lparr>se_snapshots = c, se_commitment_window = []\<rparr>) (sc_with_history genesis history)"

text \<open>Pushing a block's commitments and dropping the oldest entry past the bound.\<close>

definition retain_commitments :: "window_block \<Rightarrow> window_block list \<Rightarrow> window_block list" where
  "retain_commitments commitments window =
     (let retained = window @ [commitments] in
      if length retained > retained_commitment_blocks then drop 1 retained else retained)"

definition spends_at_tip :: "sortition_engine \<Rightarrow> burn_spends option" where
  "spends_at_tip e =
     (if se_commitment_window e = [] then None
      else let block = last (se_commitment_window e) in
        Option.bind (sn_winner_txid (tip (se_snapshots e))) (\<lambda>winner_txid.
        Option.bind (find (\<lambda>c. mc_txid c = winner_txid) (cw_commitments block)) (\<lambda>winner.
        case burn_of_block block of
          Inl _ \<Rightarrow> None
        | Inr spent \<Rightarrow> Some \<lparr>bs_total = spent, bs_winner = mc_burn_sats winner\<rparr>)))"

definition record_spends :: "sortition_engine \<Rightarrow> sortition_engine" where
  "record_spends e = e\<lparr>se_snapshots := record_tip_burn_spends (spends_at_tip e) (se_snapshots e)\<rparr>"

definition prime :: "u64 \<Rightarrow> window_block \<Rightarrow> sortition_engine \<Rightarrow> sortition_engine" where
  "prime bitcoin_height commitments e =
     (let e' = e\<lparr>se_commitment_window := retain_commitments commitments (se_commitment_window e)\<rparr> in
      if bitcoin_height = sn_bitcoin_height (tip (se_snapshots e')) then record_spends e' else e')"

definition engine_adopt_root_winner_seed :: "bytes \<Rightarrow> sortition_engine \<Rightarrow> bool \<times> sortition_engine" where
  "engine_adopt_root_winner_seed seed e =
     (let (taken, c) = adopt_root_winner_seed seed (se_snapshots e) in (taken, e\<lparr>se_snapshots := c\<rparr>))"

definition engine_adopt_root_winner_vrf_public_key :: "bytes \<Rightarrow> sortition_engine \<Rightarrow> bool \<times> sortition_engine" where
  "engine_adopt_root_winner_vrf_public_key key e =
     (let (taken, c) = adopt_root_winner_vrf_public_key key (se_snapshots e) in (taken, e\<lparr>se_snapshots := c\<rparr>))"

definition candidates :: "sortition_engine \<Rightarrow> nat" where
  "candidates e = (if se_commitment_window e = [] then 0
     else length (cw_commitments (last (se_commitment_window e))))"

definition engine_retract_above :: "u64 \<Rightarrow> sortition_engine \<Rightarrow> sortition_engine \<times> (sortition_error + sortition_reorg)" where
  "engine_retract_above bitcoin_height e =
     (let depth = unat (saturating_sub (sn_bitcoin_height (tip (se_snapshots e))) bitcoin_height) in
      if depth > mining_commitment_window then (e, Inl (ReorgTooDeep depth mining_commitment_window))
      else case sc_retract_above bitcoin_height (se_snapshots e) of
        Inl err \<Rightarrow> (e, Inl err)
      | Inr (reorg, c) \<Rightarrow>
          (e\<lparr>se_snapshots := c,
             se_commitment_window := take (length (se_commitment_window e) - reorg_depth reorg) (se_commitment_window e)\<rparr>,
           Inr reorg))"

text \<open>The window an election is weighed over, and the election.\<close>

definition sampled_window :: "nat \<Rightarrow> window_block list \<Rightarrow> window_block list" where
  "sampled_window window_len retained = drop (length retained - max window_len 1) retained"

definition elect ::
  "hashes \<Rightarrow> u64 list \<Rightarrow> bitcoin_block \<Rightarrow> window_block list \<Rightarrow> burn_statistics \<Rightarrow> burn_sample list \<Rightarrow> snapshot_chain
   \<Rightarrow> nat option" where
  "elect H table block window statistics distribution c =
     (let next_sortition_hash = mix_bitcoin_header (h_sha256 H) (sn_sortition_hash (tip c)) (bb_hash block);
          previous_vrf_seed = (case effective_winner_seed c of None \<Rightarrow> replicate 32 0 | Some seed \<Rightarrow> seed)
      in if st_block_burn statistics \<noteq> 0
         then select_epoch4_winner (h_sha256 H) table distribution (length window) next_sortition_hash
                previous_vrf_seed (st_block_burn statistics) (st_window_median_burn statistics)
         else None)"

definition winner_of :: "mining_commitment \<Rightarrow> sortition_winner" where
  "winner_of m = \<lparr>sw_txid = mc_txid m, sw_vrf_seed = mc_vrf_seed m, sw_vrf_public_key = mc_vrf_public_key m,
     sw_signing_key_hash = mc_signing_key_hash m, sw_committed_block_hash = mc_committed_block_hash m,
     sw_parent_bitcoin_height = mc_parent_bitcoin_height m\<rparr>"

text \<open>The running burn total and the winner an election leads to.\<close>

definition outcome :: "burn_sample list \<Rightarrow> burn_statistics \<Rightarrow> nat option \<Rightarrow> u64 \<Rightarrow> u64 \<times> sortition_winner option" where
  "outcome distribution statistics winner_index burnt =
     (case winner_index of
        None \<Rightarrow> (burnt, None)
      | Some index \<Rightarrow>
          (case checked_add burnt (st_block_burn statistics) of
             None \<Rightarrow> (burnt, None)
           | Some total_burn \<Rightarrow> (total_burn, Some (winner_of (smp_candidate (distribution ! index))))))"

definition engine_append ::
  "hashes \<Rightarrow> u64 list \<Rightarrow> bitcoin_block \<Rightarrow> bytes list \<Rightarrow> window_block \<Rightarrow> pox_id \<Rightarrow> nat \<Rightarrow> sortition_engine
   \<Rightarrow> sortition_engine \<times> (sortition_error + sortition_snapshot)" where
  "engine_append H table block accepted_txids commitments pox window_len e =
     (let retained = retain_commitments commitments (se_commitment_window e);
          window = sampled_window window_len retained;
          c = se_snapshots e
      in case commitment_burn_statistics window of
           Inl err \<Rightarrow> (e, Inl err)
         | Inr statistics \<Rightarrow>
             (case commitment_distribution window of
                Inl err \<Rightarrow> (e, Inl err)
              | Inr distribution \<Rightarrow>
                  (let winner_index = elect H table block window statistics distribution c;
                       competition = competition_of distribution statistics (length window)
                         (map_option (\<lambda>index. mc_txid (smp_candidate (distribution ! index))) winner_index);
                       (total_burn, winner) = outcome distribution statistics winner_index (sn_total_burn (tip c));
                       e1 = e\<lparr>se_commitment_window := retained\<rparr>
                   in case append_with_operations H block accepted_txids total_burn pox winner c of
                        Inl err \<Rightarrow> (e1, Inl err)
                      | Inr c' \<Rightarrow>
                          (let e2 = record_spends (e1\<lparr>se_snapshots := c'\<rparr>);
                               e3 = e2\<lparr>se_snapshots := record_tip_mining_competition (Some competition) (se_snapshots e2)\<rparr>
                           in (e3, Inr (tip (se_snapshots e3)))))))"

section \<open>Candidates of a distribution\<close>

lemma extend_chains_candidates:
  assumes "extend_chains k linked commitments missed = Inr linked'" and "list_all2 (chain_of n) cs linked"
  shows "list_all2 (chain_of (Suc n)) cs linked'"
  using assms
proof (induction linked arbitrary: cs commitments missed linked' rule: list.induct)
  case (Cons chain linked)
  obtain c cs' where cs: "cs = c # cs'" "chain_of n c chain" "list_all2 (chain_of n) cs' linked"
    using Cons.prems(2) by (auto simp: list_all2_Cons2)
  obtain chain' commitments' missed' rest where step: "extend_chain k chain commitments missed = Inr (chain', commitments', missed')"
      "extend_chains k linked commitments' missed' = Inr rest" "linked' = chain' # rest"
    using Cons.prems(1) by (auto simp: bind_e_Inr_iff)
  have "chain_of (Suc n) c chain'"
    using step(1) cs(2)
    by (auto simp: extend_chain_def chain_of_def Let_def split: option.splits prod.splits if_splits)
  with Cons.IH [OF step(2) cs(3)] show ?case by (simp add: step(3) cs(1))
qed simp

lemma link_slots_candidates:
  assumes "fold_e (link_slot window) linked slots = Inr linked'" and "list_all2 (chain_of n) cs linked"
  shows "list_all2 (chain_of (n + length slots)) cs linked'"
  using assms
proof (induction slots arbitrary: n linked)
  case (Cons slot slots)
  then obtain linked1 where "link_slot window linked slot = Inr linked1" "fold_e (link_slot window) linked1 slots = Inr linked'"
    by (auto simp: bind_e_Inr_iff)
  moreover from this have "list_all2 (chain_of (Suc n)) cs linked1"
    using extend_chains_candidates Cons.prems(2) by (auto simp: link_slot_def Let_def)
  ultimately show ?case
    using Cons.IH [of linked1 "Suc n"] by simp
qed simp

lemma make_burn_sample_candidate:
  "make_burn_sample chain w = Inr s \<Longrightarrow> chain_of n c chain \<Longrightarrow> smp_candidate s = c"
  by (auto simp: make_burn_sample_def chain_of_def Let_def split: if_splits)

text \<open>The samples of a distribution are those of the latest block's commitments, in order.\<close>

lemma distribution_candidates:
  assumes "commitment_distribution window = Inr ds"
  shows "map smp_candidate ds = cw_commitments (last window)"
proof -
  define cs where "cs = cw_commitments (last window)"
  obtain linked samples where linked: "fold_e (link_slot window) (map (\<lambda>c. [Some (CommitmentLink c)]) cs) (rev [0 ..< length window - 1]) = Inr linked"
    and samples: "map_e (\<lambda>chain. make_burn_sample chain (word_of_nat (length window))) linked = Inr samples"
    and ds: "assign_ranges samples = Inr ds"
    using assms by (auto simp: commitment_distribution_def cs_def Let_def bind_e_Inr_iff split: if_splits)
  have "list_all2 (chain_of 1) cs (map (\<lambda>c. [Some (CommitmentLink c)]) cs)"
    by (simp add: list_all2_conv_all_nth chain_of_def)
  from link_slots_candidates [OF linked this] obtain n where "list_all2 (chain_of n) cs linked" by blast
  then have "list_all2 (\<lambda>c s. smp_candidate s = c) cs samples"
    using samples make_burn_sample_candidate unfolding map_e_Inr_iff list_all2_conv_all_nth by metis
  then have "list_all2 (\<lambda>c s. smp_candidate s = c) cs ds"
    using assign_ranges_keeps [OF ds] unfolding list_all2_conv_all_nth by metis
  then show ?thesis
    unfolding cs_def list_all2_conv_all_nth by (intro nth_equalityI) simp_all
qed

lemma select_winner_bound: "select_winner sha ds h seed = Some i \<Longrightarrow> i < length ds"
  by (auto simp: select_winner_def Let_def position_Some_iff split: if_splits)

lemma elect_bound:
  "elect H table block window statistics ds c = Some i \<Longrightarrow> i < length ds \<and> min 3 (length window) \<le> unat (smp_frequency (ds ! i))"
  by (auto simp: elect_def select_epoch4_winner_def Let_def not_less dest: select_winner_bound split: option.splits if_splits)

section \<open>The tip after an append\<close>

lemma forget_tip: "sc_snapshots c \<noteq> [] \<Longrightarrow> tip (forget_snapshots c) = tip c \<and> sc_snapshots (forget_snapshots c) \<noteq> []"
proof (induction c rule: forget_snapshots.induct)
  case (1 c)
  show ?case
  proof (cases "length (sc_snapshots c) > snapshots_to_keep c")
    case True
    then have "1 < length (sc_snapshots c)"
      by (simp add: snapshots_to_keep_def snapshots_kept_def)
    then have "sc_snapshots (forget_oldest c) \<noteq> []" "tip (forget_oldest c) = tip c"
      by (cases "sc_snapshots c"; auto simp: forget_oldest_def tip_def)+
    with 1(1) [OF True] True show ?thesis
      by (simp add: forget_snapshots.simps [of c])
  qed (use 1(2) in \<open>simp add: forget_snapshots.simps [of c]\<close>)
qed

lemma append_tip:
  assumes "append_with_operations H block txids total_burn pox winner c = Inr c'"
  shows "tip c' = next_snapshot H c block txids total_burn pox winner" "sc_snapshots c' \<noteq> []"
  using assms forget_tip
  by (auto simp: append_with_operations_def Let_def tip_def split: option.splits if_splits)

lemma update_tip_tip: "sc_snapshots c \<noteq> [] \<Longrightarrow> tip (update_tip f c) = f (tip c) \<and> sc_snapshots (update_tip f c) \<noteq> []"
  by (simp add: update_tip_def tip_def)

text \<open>What a successful append did.\<close>

lemma engine_append_Inr:
  assumes "engine_append H table block txids commitments pox window_len e = (e', Inr s)"
  obtains window statistics ds where "window = sampled_window window_len (retain_commitments commitments (se_commitment_window e))"
    "commitment_burn_statistics window = Inr statistics" "commitment_distribution window = Inr ds"
    "sn_bitcoin_height s = bb_height block"
    "let (total_burn, winner) = outcome ds statistics (elect H table block window statistics ds (se_snapshots e)) (sn_total_burn (tip (se_snapshots e)))
     in sn_total_burn s = total_burn \<and> sn_winner_txid s = map_option sw_txid winner
        \<and> sn_winner_vrf_seed s = map_option sw_vrf_seed winner \<and> sn_committed_block_hash s = map_option sw_committed_block_hash winner"
proof -
  define window where "window = sampled_window window_len (retain_commitments commitments (se_commitment_window e))"
  obtain statistics ds where st: "commitment_burn_statistics window = Inr statistics" "commitment_distribution window = Inr ds"
    using assms by (auto simp: engine_append_def Let_def window_def split: sum.splits prod.splits)
  obtain total_burn winner where out: "outcome ds statistics (elect H table block window statistics ds (se_snapshots e)) (sn_total_burn (tip (se_snapshots e))) = (total_burn, winner)"
    by fastforce
  obtain c' where c': "append_with_operations H block txids total_burn pox winner (se_snapshots e) = Inr c'"
    and s: "\<exists>spends m. s = tip (record_tip_mining_competition m (record_tip_burn_spends spends c'))"
    using assms st out
    by (cases "append_with_operations H block txids total_burn pox winner (se_snapshots e)")
       (auto simp: engine_append_def Let_def window_def record_spends_def)
  then have "\<exists>spends m. s = (tip c')\<lparr>sn_burn_spends := spends, sn_mining_competition := m\<rparr>"
    using append_tip(2) [OF c'] by (auto simp: record_tip_mining_competition_def record_tip_burn_spends_def update_tip_tip)
  then show ?thesis
    by (intro that [OF window_def st]) (use append_tip [OF c'] out in \<open>auto simp: next_snapshot_def Let_def\<close>)
qed

lemma last_sampled_window: "last (sampled_window window_len (retain_commitments commitments window)) = commitments"
  by (simp add: sampled_window_def retain_commitments_def Let_def retained_commitment_blocks_def mining_commitment_window_def
      last_drop max_def)

section \<open>The invariant\<close>

text \<open>The snapshots are consecutive, the burn total never falls along them, and where a snapshot says what was spent
  the winner spent no more than everybody did. The commitment history is bounded.\<close>

definition spends_ok :: "sortition_snapshot \<Rightarrow> bool" where
  "spends_ok s \<longleftrightarrow> (case sn_burn_spends s of None \<Rightarrow> True | Some spends \<Rightarrow> bs_winner spends \<le> bs_total spends)"

definition snapshots_ok :: "sortition_snapshot list \<Rightarrow> bool" where
  "snapshots_ok ss \<longleftrightarrow> ss \<noteq> [] \<and> contiguous ss \<and> sorted (map sn_total_burn ss) \<and> list_all spends_ok ss"

definition engine_ok :: "sortition_engine \<Rightarrow> bool" where
  "engine_ok e \<longleftrightarrow> snapshots_ok (sc_snapshots (se_snapshots e)) \<and> length (se_commitment_window e) \<le> retained_commitment_blocks"

lemma snapshots_ok_take: "snapshots_ok ss \<Longrightarrow> take k ss \<noteq> [] \<Longrightarrow> snapshots_ok (take k ss)"
  using contiguous_append [of "take k ss" "drop k ss"]
  by (auto simp: snapshots_ok_def sorted_wrt_take simp flip: take_map dest: in_set_takeD simp: list_all_iff)

lemma snapshots_ok_drop: "snapshots_ok ss \<Longrightarrow> drop k ss \<noteq> [] \<Longrightarrow> snapshots_ok (drop k ss)"
  using contiguous_append [of "take k ss" "drop k ss"]
  by (auto simp: snapshots_ok_def sorted_wrt_drop simp flip: drop_map dest: in_set_dropD simp: list_all_iff)

lemma snapshots_ok_snoc:
  "snapshots_ok (ss @ [s]) \<longleftrightarrow> spends_ok s \<and> (ss = [] \<or> snapshots_ok ss \<and> sn_total_burn (last ss) \<le> sn_total_burn s
     \<and> unat (sn_bitcoin_height s) = Suc (unat (sn_bitcoin_height (last ss))))"
proof (cases ss rule: rev_cases)
  case (snoc rest x)
  have "contiguous (ss @ [s]) \<longleftrightarrow> contiguous ss \<and> unat (sn_bitcoin_height s) = Suc (unat (sn_bitcoin_height (last ss)))"
    using snoc contiguous_append [of ss "[s]"] by simp
  moreover have "sorted (map sn_total_burn (ss @ [s])) \<longleftrightarrow> sorted (map sn_total_burn ss) \<and> sn_total_burn (last ss) \<le> sn_total_burn s"
    using snoc by (auto simp: sorted_append intro: order_trans)
  ultimately show ?thesis
    using snoc unfolding snapshots_ok_def by auto
qed (auto simp: snapshots_ok_def)

lemma forget_drop: "\<exists>k. sc_snapshots (forget_snapshots c) = drop k (sc_snapshots c)"
proof (induction c rule: forget_snapshots.induct)
  case (1 c)
  show ?case
  proof (cases "length (sc_snapshots c) > snapshots_to_keep c")
    case True
    with 1 obtain k where "sc_snapshots (forget_snapshots (forget_oldest c)) = drop k (sc_snapshots (forget_oldest c))"
      by blast
    with True show ?thesis
      by (auto simp: forget_snapshots.simps [of c] forget_oldest_def intro!: exI [of _ "Suc k"])
  qed (auto simp: forget_snapshots.simps [of c] intro!: exI [of _ 0])
qed

lemma update_tip_ok:
  assumes "snapshots_ok (sc_snapshots c)"
    and "\<And>s. sn_total_burn (f s) = sn_total_burn s \<and> sn_bitcoin_height (f s) = sn_bitcoin_height s" "spends_ok (f (tip c))"
  shows "snapshots_ok (sc_snapshots (update_tip f c))"
proof (cases "sc_snapshots c" rule: rev_cases)
  case (snoc rest s)
  with assms show ?thesis
    by (simp add: update_tip_def snapshots_ok_snoc tip_def)
qed (use assms in \<open>simp add: snapshots_ok_def\<close>)

lemma append_ok:
  assumes "append_with_operations H block txids total_burn pox winner c = Inr c'" "snapshots_ok (sc_snapshots c)"
    and "sn_total_burn (tip c) \<le> total_burn"
  shows "snapshots_ok (sc_snapshots c')"
proof -
  define s where "s = next_snapshot H c block txids total_burn pox winner"
  obtain k where c': "sc_snapshots c' = drop k (sc_snapshots c @ [s])"
    using assms(1) forget_drop [of "c\<lparr>sc_consensus_hashes := sc_consensus_hashes c @ [sn_consensus_hash s], sc_snapshots := sc_snapshots c @ [s]\<rparr>"]
    by (auto simp: append_with_operations_def Let_def s_def split: option.splits if_splits)
  have "unat (sn_bitcoin_height s) = Suc (unat (sn_bitcoin_height (tip c)))"
    using assms(1) unat_checked_add [of "sn_bitcoin_height (tip c)" 1]
    by (auto simp: append_with_operations_def s_def next_snapshot_def Let_def split: option.splits if_splits)
  moreover have "spends_ok s" "sn_total_burn s = total_burn"
    by (simp_all add: s_def next_snapshot_def Let_def spends_ok_def)
  ultimately have "snapshots_ok (sc_snapshots c @ [s])"
    using assms(2,3) by (simp add: snapshots_ok_snoc tip_def)
  then show ?thesis
    using append_tip(2) [OF assms(1)] snapshots_ok_drop unfolding c' by blast
qed

lemma burn_of_block_ge:
  assumes "burn_of_block b = Inr spent" "m \<in> set (cw_commitments b)"
  shows "mc_burn_sats m \<le> spent"
proof -
  have "unat spent = sum_list (map (\<lambda>c. unat (mc_burn_sats c)) (cw_commitments b))"
    using sum_checked_Inr [OF assms(1) [unfolded burn_of_block_def]] by (simp add: comp_def)
  moreover have "unat (mc_burn_sats m) \<le> sum_list (map (\<lambda>c. unat (mc_burn_sats c)) (cw_commitments b))"
    using assms(2) by (intro member_le_sum_list) auto
  ultimately show ?thesis by (simp add: word_le_nat_alt)
qed

lemma spends_at_tip_ok: "spends_at_tip e = Some spends \<Longrightarrow> bs_winner spends \<le> bs_total spends"
  by (cases "burn_of_block (last (se_commitment_window e))")
     (auto simp: spends_at_tip_def Let_def bind_eq_Some_conv find_Some_iff burn_of_block_ge split: if_splits)

lemma record_spends_ok: "engine_ok e \<Longrightarrow> engine_ok (record_spends e)"
  unfolding engine_ok_def record_spends_def record_tip_burn_spends_def
  using update_tip_ok [of "se_snapshots e" "\<lambda>s. s\<lparr>sn_burn_spends := spends_at_tip e\<rparr>"]
  by (auto simp: spends_ok_def spends_at_tip_ok split: option.split)

lemma record_competition_ok:
  "snapshots_ok (sc_snapshots c) \<Longrightarrow> snapshots_ok (sc_snapshots (record_tip_mining_competition m c))"
  unfolding record_tip_mining_competition_def
  by (rule update_tip_ok) (auto simp: snapshots_ok_def spends_ok_def tip_def list_all_iff)

lemma outcome_ge: "outcome ds statistics i burnt = (total_burn, winner) \<Longrightarrow> burnt \<le> total_burn"
  by (auto simp: outcome_def checked_add_def word_le_nat_alt unat_word_ariths split: option.splits if_splits)

lemma retained_bound: "length window \<le> retained_commitment_blocks \<Longrightarrow> length (retain_commitments commitments window) \<le> retained_commitment_blocks"
  by (auto simp: retain_commitments_def Let_def retained_commitment_blocks_def mining_commitment_window_def)

lemma retained_ok: "engine_ok e \<Longrightarrow> engine_ok (e\<lparr>se_commitment_window := retain_commitments commitments (se_commitment_window e)\<rparr>)"
  by (simp add: engine_ok_def retained_bound)

lemma prime_ok: "engine_ok e \<Longrightarrow> engine_ok (prime h commitments e)"
  by (simp add: prime_def Let_def record_spends_ok retained_ok)

lemma engine_append_ok:
  assumes "engine_append H table block txids commitments pox window_len e = (e', res)" "engine_ok e"
  shows "engine_ok e'"
proof -
  define e1 where "e1 = e\<lparr>se_commitment_window := retain_commitments commitments (se_commitment_window e)\<rparr>"
  have e1: "engine_ok e1" using retained_ok [OF assms(2)] by (simp add: e1_def)
  have recorded: "engine_ok (record_spends e2\<lparr>se_snapshots := record_tip_mining_competition m (se_snapshots (record_spends e2))\<rparr>)"
    if "engine_ok e2" for e2 m
    using record_competition_ok record_spends_ok [OF that] by (simp add: engine_ok_def)
  have "engine_ok (e1\<lparr>se_snapshots := c'\<rparr>)"
    if "append_with_operations H block txids total_burn pox winner (se_snapshots e) = Inr c'"
      "outcome ds statistics i (sn_total_burn (tip (se_snapshots e))) = (total_burn, winner)" for total_burn winner c' ds statistics i
    using append_ok [OF that(1)] outcome_ge [OF that(2)] e1 by (simp add: engine_ok_def e1_def)
  note appended = recorded [OF this]
  from assms(1) consider "e' = e" | "e' = e1" | ds statistics i total_burn winner c' m
    where "outcome ds statistics i (sn_total_burn (tip (se_snapshots e))) = (total_burn, winner)"
      "append_with_operations H block txids total_burn pox winner (se_snapshots e) = Inr c'"
      "e' = record_spends (e1\<lparr>se_snapshots := c'\<rparr>)\<lparr>se_snapshots :=
         record_tip_mining_competition m (se_snapshots (record_spends (e1\<lparr>se_snapshots := c'\<rparr>)))\<rparr>"
    by (simp add: engine_append_def Let_def split: sum.splits prod.splits) (metis e1_def)+
  then show ?thesis
    by cases (use assms(2) e1 appended in blast)+
qed

lemma engine_retract_Inr:
  assumes "engine_retract_above h e = (e', Inr r)"
  shows "sc_retract_above h (se_snapshots e) = Inr (r, se_snapshots e')"
    and "se_commitment_window e' = take (length (se_commitment_window e) - reorg_depth r) (se_commitment_window e)"
    and "unat (sn_bitcoin_height (tip (se_snapshots e))) \<le> unat h + mining_commitment_window"
  using assms
  by (auto simp: engine_retract_above_def Let_def saturating_sub_def unat_sub_if_size word_le_nat_alt split: if_splits sum.splits)

lemma engine_retract_ok:
  assumes "engine_retract_above h e = (e', res)" "engine_ok e"
  shows "engine_ok e'"
proof (cases res)
  case (Inl err)
  with assms show ?thesis
    by (auto simp: engine_retract_above_def Let_def split: if_splits sum.splits)
next
  case (Inr r)
  note parts = engine_retract_Inr [OF assms(1) [unfolded Inr]]
  define k where "k = saturating_add_usize (unat (h - sn_bitcoin_height (chain_root (se_snapshots e)))) 1"
  have "sc_snapshots (se_snapshots e') = take k (sc_snapshots (se_snapshots e))" "k > 0"
    using arg_cong [OF parts(1), of "map_sum id (sc_snapshots \<circ> snd)"]
    by (simp_all add: sc_retract_above_def Let_def k_def saturating_add_usize_def usize_max_def split: if_splits)
  then show ?thesis
    using assms(2) snapshots_ok_take parts(2) by (auto simp: engine_ok_def snapshots_ok_def)
qed

text \<open>The engines a node can hold: made from a root, primed with the commitments of blocks read again, told the two
  facts about their root, extended and retracted, each also when the operation was refused.\<close>

inductive engine_reached :: "hashes \<Rightarrow> u64 list \<Rightarrow> sortition_engine \<Rightarrow> bool" for H table where
  made: "spends_ok genesis \<Longrightarrow> engine_reached H table (engine_new genesis)"
| resumed: "spends_ok genesis \<Longrightarrow> engine_with_history genesis history = Some e \<Longrightarrow> engine_reached H table e"
| primed: "engine_reached H table e \<Longrightarrow> engine_reached H table (prime h commitments e)"
| seeded: "engine_reached H table e \<Longrightarrow> engine_reached H table (snd (engine_adopt_root_winner_seed seed e))"
| keyed: "engine_reached H table e \<Longrightarrow> engine_reached H table (snd (engine_adopt_root_winner_vrf_public_key key e))"
| extended: "engine_reached H table e \<Longrightarrow>
    engine_reached H table (fst (engine_append H table block txids commitments pox window_len e))"
| withdrawn: "engine_reached H table e \<Longrightarrow> engine_reached H table (fst (engine_retract_above h e))"

lemma adopt_ok:
  "engine_ok e \<Longrightarrow> engine_ok (snd (engine_adopt_root_winner_seed seed e))"
  "engine_ok e \<Longrightarrow> engine_ok (snd (engine_adopt_root_winner_vrf_public_key key e))"
  by (auto simp: engine_adopt_root_winner_seed_def engine_adopt_root_winner_vrf_public_key_def adopt_root_winner_seed_def
      adopt_root_winner_vrf_public_key_def engine_ok_def snapshots_ok_def spends_ok_def split: list.splits prod.splits)

lemma engine_reached_ok:
  assumes "engine_reached H table e"
  shows "engine_ok e"
  using assms
proof (induction rule: engine_reached.induct)
  case (extended e block txids commitments pox window_len)
  then show ?case using engine_append_ok prod.collapse by metis
next
  case (withdrawn e h)
  then show ?case using engine_retract_ok prod.collapse by metis
qed (auto simp: engine_new_def sc_new_def engine_with_history_def sc_with_history_def engine_ok_def snapshots_ok_def
    prime_ok [unfolded engine_ok_def snapshots_ok_def] adopt_ok [unfolded engine_ok_def snapshots_ok_def] split: if_splits)

section \<open>The engine as specified\<close>



lemma statistics_block_burn:
  assumes "commitment_burn_statistics window = Inr statistics"
  shows "unat (st_block_burn statistics) = (\<Sum>c\<leftarrow>cw_commitments (last window). unat (mc_burn_sats c))"
proof -
  have "burn_of_block (last window) = Inr (st_block_burn statistics)"
    using assms by (auto simp: commitment_burn_statistics_def bind_e_Inr_iff split: if_splits)
  from sum_checked_Inr [OF this [unfolded burn_of_block_def]] show ?thesis
    by (simp add: comp_def)
qed

text \<open>C14: a sortition elects one of the block's own commitments: when extending the engine reports a winner, some
  commitment of this very block carries that transaction id, the snapshot's VRF seed and committed block hash are that
  commitment's, and the total burn has grown by exactly what the whole block spent; when it reports none, the total burn
  has not moved.\<close>

theorem elected_miner_committed:
  assumes "engine_append H table block txids commitments pox window_len e = (e', Inr s)"
  shows "case sn_winner_txid s of
      None \<Rightarrow> sn_total_burn s = sn_total_burn (tip (se_snapshots e))
    | Some txid \<Rightarrow> \<exists>m \<in> set (cw_commitments commitments). mc_txid m = txid
        \<and> sn_winner_vrf_seed s = Some (mc_vrf_seed m) \<and> sn_committed_block_hash s = Some (mc_committed_block_hash m)
        \<and> unat (sn_total_burn s) = unat (sn_total_burn (tip (se_snapshots e))) + (\<Sum>c\<leftarrow>cw_commitments commitments. unat (mc_burn_sats c))"
proof -
  obtain window statistics ds where w: "window = sampled_window window_len (retain_commitments commitments (se_commitment_window e))"
    and st: "commitment_burn_statistics window = Inr statistics" and ds: "commitment_distribution window = Inr ds"
    and "sn_bitcoin_height s = bb_height block" and s: "let (total_burn, winner) = outcome ds statistics (elect H table block window statistics ds (se_snapshots e)) (sn_total_burn (tip (se_snapshots e)))
     in sn_total_burn s = total_burn \<and> sn_winner_txid s = map_option sw_txid winner
        \<and> sn_winner_vrf_seed s = map_option sw_vrf_seed winner \<and> sn_committed_block_hash s = map_option sw_committed_block_hash winner"
    by (rule engine_append_Inr [OF assms])
  have "last window = commitments"
    by (simp add: w last_sampled_window)
  then have cs: "map smp_candidate ds = cw_commitments commitments"
    and burn: "unat (st_block_burn statistics) = (\<Sum>c\<leftarrow>cw_commitments commitments. unat (mc_burn_sats c))"
    using distribution_candidates [OF ds] statistics_block_burn [OF st] by simp_all
  show ?thesis
  proof (cases "outcome ds statistics (elect H table block window statistics ds (se_snapshots e)) (sn_total_burn (tip (se_snapshots e)))")
    case (Pair total_burn winner)
    show ?thesis
    proof (cases winner)
      case None
      with s Pair show ?thesis by (auto simp: outcome_def split: option.splits)
    next
      case (Some v)
      then obtain i where i: "elect H table block window statistics ds (se_snapshots e) = Some i"
        "v = winner_of (smp_candidate (ds ! i))" "checked_add (sn_total_burn (tip (se_snapshots e))) (st_block_burn statistics) = Some total_burn"
        using Pair by (auto simp: outcome_def split: option.splits)
      then have "smp_candidate (ds ! i) \<in> set (cw_commitments commitments)"
        using elect_bound [OF i(1)] unfolding cs [symmetric] by simp
      with s Pair Some i unat_checked_add [OF i(3)] burn show ?thesis
        by (auto simp: winner_of_def)
    qed
  qed
qed

definition lone_commitment :: mining_commitment where
  "lone_commitment = \<lparr>mc_txid = replicate 32 4, mc_spent_txid = replicate 32 5, mc_spent_output = 3, mc_burn_sats = 1000,
     mc_vrf_seed = replicate 32 6, mc_vrf_public_key = None, mc_signing_key_hash = None,
     mc_committed_block_hash = replicate 32 7, mc_parent_bitcoin_height = 10\<rparr>"

definition lone_window :: window_block where
  "lone_window = \<lparr>cw_commitments = [lone_commitment], cw_missed_commitments = [], cw_requires_single_commit = False\<rparr>"

lemma lone_statistics: "commitment_burn_statistics [lone_window] = Inr \<lparr>st_block_burn = 1000, st_window_median_burn = 1000\<rparr>"
  by (simp add: commitment_burn_statistics_def burn_of_block_def lone_window_def lone_commitment_def sum_checked_def
      checked_add_def median_def Let_def)

lemma lone_distribution:
  "\<exists>s. commitment_distribution [lone_window] = Inr [s] \<and> smp_candidate s = lone_commitment \<and> smp_frequency s = 1"
  by (simp add: commitment_distribution_def lone_window_def lone_commitment_def make_burn_sample_def Let_def
      assign_ranges_def median_def)

definition demo_engine :: sortition_engine where
  "demo_engine = engine_new (snapshot_genesis 10 (replicate 32 1))"

theorem elected_miner_committed_witness:
  "\<exists>e' s. engine_append id_hashes [] block_eleven [] lone_window [True] 1 demo_engine = (e', Inr s)
     \<and> sn_winner_txid s = Some (replicate 32 4) \<and> unat (sn_total_burn s) = 1000"
proof -
  obtain d where d: "commitment_distribution [lone_window] = Inr [d]" "smp_candidate d = lone_commitment" "smp_frequency d = 1"
    using lone_distribution by blast
  have window: "sampled_window 1 (retain_commitments lone_window (se_commitment_window demo_engine)) = [lone_window]"
    by (simp add: demo_engine_def engine_new_def retain_commitments_def sampled_window_def retained_commitment_blocks_def
        mining_commitment_window_def)
  have elect: "elect id_hashes [] block_eleven [lone_window] \<lparr>st_block_burn = 1000, st_window_median_burn = 1000\<rparr> [d] (se_snapshots demo_engine) = Some 0"
    by (simp add: elect_def select_epoch4_winner_def select_winner_def d(3) null_miner_probability_def carryover_def Let_def)
  have tip: "sn_bitcoin_height (tip (se_snapshots demo_engine)) = 10" "sn_total_burn (tip (se_snapshots demo_engine)) = 0"
    by (simp_all add: demo_engine_def engine_new_def sc_new_def tip_def snapshot_genesis_def)
  obtain c' where c': "append_with_operations id_hashes block_eleven [] 1000 [True] (Some (winner_of lone_commitment)) (se_snapshots demo_engine) = Inr c'"
    by (simp add: append_with_operations_def tip block_eleven_def checked_add_def Let_def)
  obtain e' s where run: "engine_append id_hashes [] block_eleven [] lone_window [True] 1 demo_engine = (e', Inr s)"
    and s: "\<exists>spends m. s = tip (record_tip_mining_competition m (record_tip_burn_spends spends c'))"
    by (simp add: engine_append_def window lone_statistics d elect outcome_def tip checked_add_def c' record_spends_def Let_def del: One_nat_def) blast
  have won: "sn_winner_txid s = Some (replicate 32 4)"
    using s append_tip [OF c']
    by (auto simp: record_tip_mining_competition_def record_tip_burn_spends_def update_tip_tip next_snapshot_def Let_def
        winner_of_def lone_commitment_def)
  from elected_miner_committed [OF run] won run tip show ?thesis
    by (simp add: lone_window_def lone_commitment_def)
qed

lemma retract_depth:
  assumes "snapshots_ok (sc_snapshots c)" "sc_retract_above h c = Inr (r, c')"
  shows "reorg_depth r \<le> max 1 (unat (sn_bitcoin_height (tip c)) - unat h)"
proof -
  define ss where "ss = sc_snapshots c"
  have ss: "ss \<noteq> []" "contiguous ss" using assms(1) by (simp_all add: snapshots_ok_def ss_def)
  have top: "unat (sn_bitcoin_height (tip c)) + 1 = unat (sn_bitcoin_height (chain_root c)) + length ss"
    using contiguous_nth [OF ss(2), of "length ss - 1"] ss(1) length_greater_0_conv [of ss]
    by (simp add: tip_def chain_root_def last_conv_nth flip: ss_def)
  have "reorg_depth r = length ss - saturating_add_usize (unat (h - sn_bitcoin_height (chain_root c))) 1"
    and root: "sn_bitcoin_height (chain_root c) \<le> h"
    using assms(2) by (auto simp: sc_retract_above_def Let_def reorg_depth_def ss_def split: if_splits)
  moreover have "unat (h - sn_bitcoin_height (chain_root c)) = unat h - unat (sn_bitcoin_height (chain_root c))"
    using root by (simp add: unat_sub word_le_nat_alt)
  moreover have "unat (sn_bitcoin_height (tip c)) < 2 ^ 64"
    using unsigned_less [of "sn_bitcoin_height (tip c)"] by simp
  ultimately show ?thesis
    using top root unfolding saturating_add_usize_def usize_max_def word_le_nat_alt by simp
qed

text \<open>An admitted retraction leaves a full window to weigh the replacement branch over: from an engine holding
  its twelve blocks of commitments, no retraction that is accepted leaves fewer than six, and those left are the oldest
  ones, unchanged.\<close>

theorem retraction_leaves_a_window:
  assumes "engine_ok e" "length (se_commitment_window e) = retained_commitment_blocks"
    and "engine_retract_above h e = (e', Inr r)"
  shows "mining_commitment_window \<le> length (se_commitment_window e')
    \<and> (\<exists>dropped. se_commitment_window e = se_commitment_window e' @ dropped)"
proof -
  note parts = engine_retract_Inr [OF assms(3)]
  have "reorg_depth r \<le> mining_commitment_window"
    using retract_depth [OF _ parts(1)] parts(3) assms(1)
    by (fastforce simp: engine_ok_def mining_commitment_window_def)
  then show ?thesis
    using assms(2) by (auto simp: parts(2) retained_commitment_blocks_def intro: append_take_drop_id [symmetric])
qed

section \<open>Retracting twice\<close>

text \<open>Twelve blocks in which nobody committed, appended to a fresh engine.\<close>

definition quiet :: window_block where
  "quiet = \<lparr>cw_commitments = [], cw_missed_commitments = [], cw_requires_single_commit = False\<rparr>"

definition quiet_block :: "nat \<Rightarrow> bitcoin_block" where
  "quiet_block h = \<lparr>bb_height = word_of_nat h, bb_hash = replicate 32 3, bb_timestamp = 0, bb_operations = []\<rparr>"

primrec quiet_run :: "nat \<Rightarrow> sortition_engine" where
  "quiet_run 0 = demo_engine"
| "quiet_run (Suc n) = fst (engine_append id_hashes [] (quiet_block (11 + n)) [] quiet [True] 1 (quiet_run n))"

lemma quiet_run_reached: "engine_reached id_hashes [] (quiet_run n)"
proof (induction n)
  case 0
  have "spends_ok (snapshot_genesis 10 (replicate 32 1))" by (simp add: spends_ok_def snapshot_genesis_def)
  then show ?case by (simp add: demo_engine_def made)
qed (simp add: extended)

lemma quiet_window:
  "commitment_burn_statistics [quiet] = Inr \<lparr>st_block_burn = 0, st_window_median_burn = 0\<rparr>"
  "commitment_distribution [quiet] = Inr []"
  by (simp_all add: commitment_burn_statistics_def burn_of_block_def quiet_def sum_checked_def median_def Let_def
      commitment_distribution_def assign_ranges_def)

lemma quiet_append:
  assumes "length (se_commitment_window e) < retained_commitment_blocks" "length (sc_snapshots (se_snapshots e)) < snapshots_kept"
    and "sc_snapshots (se_snapshots e) \<noteq> []" "unat (sn_bitcoin_height (tip (se_snapshots e))) = h" "h < 1000"
  defines "e' \<equiv> fst (engine_append id_hashes [] (quiet_block (Suc h)) [] quiet [True] 1 e)"
  shows "se_commitment_window e' = se_commitment_window e @ [quiet]"
    and "map sn_bitcoin_height (sc_snapshots (se_snapshots e')) = map sn_bitcoin_height (sc_snapshots (se_snapshots e)) @ [word_of_nat (Suc h)]"
proof -
  have window: "retain_commitments quiet (se_commitment_window e) = se_commitment_window e @ [quiet]"
      "sampled_window 1 (se_commitment_window e @ [quiet]) = [quiet]"
    using assms(1) by (simp_all add: retain_commitments_def sampled_window_def)
  have elect: "elect id_hashes [] (quiet_block (Suc h)) [quiet] \<lparr>st_block_burn = 0, st_window_median_burn = 0\<rparr> [] c = None" for c
    by (simp add: elect_def)
  define burnt where "burnt = sn_total_burn (tip (se_snapshots e))"
  define s where "s = next_snapshot id_hashes (se_snapshots e) (quiet_block (Suc h)) [] burnt [True] None"
  define c where "c = se_snapshots e\<lparr>sc_consensus_hashes := sc_consensus_hashes (se_snapshots e) @ [sn_consensus_hash s],
      sc_snapshots := sc_snapshots (se_snapshots e) @ [s]\<rparr>"
  have "checked_add (sn_bitcoin_height (tip (se_snapshots e))) 1 = Some (word_of_nat (Suc h))"
    using assms(4,5) by (auto simp: checked_add_def)
  moreover have "forget_snapshots c = c"
    using assms(2) by (simp add: forget_snapshots.simps [of c] snapshots_to_keep_def) (simp add: c_def)
  ultimately have "append_with_operations id_hashes (quiet_block (Suc h)) [] burnt [True] None (se_snapshots e) = Inr c"
    by (simp add: append_with_operations_def quiet_block_def [of "Suc h"] Let_def c_def s_def)
  then have e': "\<exists>spends m. e' = e\<lparr>se_commitment_window := se_commitment_window e @ [quiet],
      se_snapshots := record_tip_mining_competition m (record_tip_burn_spends spends c)\<rparr>"
    by (auto simp: e'_def engine_append_def window quiet_window elect outcome_def burnt_def record_spends_def Let_def
        simp del: One_nat_def)
  moreover have "map sn_bitcoin_height (sc_snapshots (record_tip_mining_competition m (record_tip_burn_spends spends c)))
      = map sn_bitcoin_height (sc_snapshots c)" for spends m
    by (simp add: record_tip_mining_competition_def record_tip_burn_spends_def update_tip_def c_def)
  moreover have "sn_bitcoin_height s = word_of_nat (Suc h)"
    by (simp add: s_def next_snapshot_def Let_def quiet_block_def)
  ultimately show "se_commitment_window e' = se_commitment_window e @ [quiet]"
      "map sn_bitcoin_height (sc_snapshots (se_snapshots e')) = map sn_bitcoin_height (sc_snapshots (se_snapshots e)) @ [word_of_nat (Suc h)]"
    by (auto simp: c_def)
qed

lemma quiet_run_window:
  "n \<le> 12 \<Longrightarrow> se_commitment_window (quiet_run n) = replicate n quiet
    \<and> map sn_bitcoin_height (sc_snapshots (se_snapshots (quiet_run n))) = map word_of_nat [10 ..< 11 + n]"
proof (induction n)
  case 0
  then show ?case
    by (simp add: demo_engine_def engine_new_def sc_new_def snapshot_genesis_def)
next
  case (Suc n)
  define e where "e = quiet_run n"
  have IH: "se_commitment_window e = replicate n quiet"
      "map sn_bitcoin_height (sc_snapshots (se_snapshots e)) = map word_of_nat [10 ..< 11 + n]"
    using Suc by (simp_all add: e_def)
  have len: "length (sc_snapshots (se_snapshots e)) = Suc n"
    using arg_cong [OF IH(2), of length] by simp
  have "sn_bitcoin_height (tip (se_snapshots e)) = word_of_nat (10 + n)"
    using arg_cong [OF IH(2), of last] len by (cases "sc_snapshots (se_snapshots e) = []") (auto simp: tip_def last_map)
  then have "unat (sn_bitcoin_height (tip (se_snapshots e))) = 10 + n"
    using Suc.prems by (simp add: unat_of_nat del: of_nat_add)
  moreover have "[10 ..< 12 + n] = [10 ..< 11 + n] @ [11 + n]" "sc_snapshots (se_snapshots e) \<noteq> []"
    using upt_Suc_append [of 10 "11 + n"] len by auto
  ultimately show ?case
    using quiet_append [of e "10 + n"] Suc.prems len IH
    by (simp add: e_def [symmetric] retained_commitment_blocks_def mining_commitment_window_def snapshots_kept_def
        replicate_append_same del: One_nat_def)
qed

lemma engine_retract_quiet:
  assumes "map sn_bitcoin_height (sc_snapshots (se_snapshots e)) = map word_of_nat [10 ..< 11 + n + 6]" "n \<le> 6"
    "se_commitment_window e = replicate (n + 6) quiet"
  shows "\<exists>e' r. engine_retract_above (word_of_nat (10 + n)) e = (e', Inr r)
    \<and> map sn_bitcoin_height (sc_snapshots (se_snapshots e')) = map word_of_nat [10 ..< 11 + n]
    \<and> se_commitment_window e' = replicate n quiet"
proof -
  define ss where "ss = sc_snapshots (se_snapshots e)"
  have len: "length ss = n + 7" "ss \<noteq> []"
    using arg_cong [OF assms(1), of length] by (auto simp: ss_def)
  have heights: "sn_bitcoin_height (last ss) = word_of_nat (16 + n)" "sn_bitcoin_height (hd ss) = 10"
    using arg_cong [OF assms(1), of last] arg_cong [OF assms(1), of hd] len
    by (simp_all add: last_map hd_map upt_rec [of 10] flip: ss_def)
  have top: "unat (word_of_nat (10 + n) :: u64) = 10 + n"
    using assms(2) by (simp add: unat_of_nat del: of_nat_add)
  have "unat (saturating_sub (word_of_nat (16 + n)) (word_of_nat (10 + n) :: u64)) = 6"
    using assms(2) by (simp add: unat_of_nat del: of_nat_add)
  moreover have "unat (word_of_nat (10 + n) - 10 :: u64) = n" "\<not> word_of_nat (10 + n) < (10 :: u64)"
    using assms(2) top by (simp_all add: word_less_nat_alt unat_sub word_le_nat_alt del: of_nat_add)
  moreover have "saturating_add_usize n 1 = n + 1"
    using assms(2) by (simp add: saturating_add_usize_def usize_max_def)
  ultimately show ?thesis
    using len assms(1,2)
    by (simp add: engine_retract_above_def tip_def chain_root_def heights Let_def mining_commitment_window_def sc_retract_above_def
        reorg_depth_def assms(3) take_map [symmetric] flip: ss_def del: of_nat_add) (simp add: take_map)
qed

text \<open>Two admitted retractions of six blocks each leave an engine that had a full history with no commitments at all,
  although each was checked against the depth the history is sized for.\<close>

lemma two_retractions_leave_nothing:
  "\<exists>e e1 e2 r1 r2. engine_reached id_hashes [] e \<and> length (se_commitment_window e) = retained_commitment_blocks
     \<and> engine_retract_above 16 e = (e1, Inr r1) \<and> engine_retract_above 10 e1 = (e2, Inr r2) \<and> se_commitment_window e2 = []"
proof -
  have run: "map sn_bitcoin_height (sc_snapshots (se_snapshots (quiet_run 12))) = map word_of_nat [10 ..< 11 + 6 + 6]"
      "se_commitment_window (quiet_run 12) = replicate (6 + 6) quiet"
    using quiet_run_window [of 12] by simp_all
  obtain e1 r1 where e1: "engine_retract_above 16 (quiet_run 12) = (e1, Inr r1)"
      "map sn_bitcoin_height (sc_snapshots (se_snapshots e1)) = map word_of_nat [10 ..< 11 + 0 + 6]" "se_commitment_window e1 = replicate (0 + 6) quiet"
    using engine_retract_quiet [OF run(1) _ run(2)] by auto
  obtain e2 r2 where "engine_retract_above 10 e1 = (e2, Inr r2)" "se_commitment_window e2 = []"
    using engine_retract_quiet [OF e1(2) _ e1(3)] by auto
  with e1(1) run(2) quiet_run_reached show ?thesis
    by (intro exI conjI) (auto simp: retained_commitment_blocks_def mining_commitment_window_def)
qed

theorem retraction_leaves_a_window_witness:
  "\<exists>e' r. engine_retract_above 16 (quiet_run 12) = (e', Inr r) \<and> 6 \<le> length (se_commitment_window e')"
proof -
  have run: "map sn_bitcoin_height (sc_snapshots (se_snapshots (quiet_run 12))) = map word_of_nat [10 ..< 11 + 6 + 6]"
      "se_commitment_window (quiet_run 12) = replicate (6 + 6) quiet"
    using quiet_run_window [of 12] by simp_all
  then obtain e' r where e': "engine_retract_above 16 (quiet_run 12) = (e', Inr r)"
    using engine_retract_quiet [OF run(1) _ run(2)] by auto
  have "engine_ok (quiet_run 12)"
    by (rule engine_reached_ok [OF quiet_run_reached])
  from retraction_leaves_a_window [OF this _ e'] run(2) e' show ?thesis
    by (simp add: retained_commitment_blocks_def mining_commitment_window_def)
qed

text \<open>An append refused for its height has already pushed its commitments: the history then holds an entry no snapshot
  was appended for.\<close>

lemma refused_append_keeps_commitments:
  "\<exists>e'. engine_append id_hashes [] (quiet_block 12) [] quiet [True] 1 demo_engine = (e', Inl (UnexpectedHeight 11 12))
     \<and> se_commitment_window e' = [quiet] \<and> se_snapshots e' = se_snapshots demo_engine"
proof -
  have empty: "se_commitment_window demo_engine = []"
    by (simp add: demo_engine_def engine_new_def)
  have window: "retain_commitments quiet [] = [quiet]" "sampled_window 1 [quiet] = [quiet]"
    by (simp_all add: retain_commitments_def sampled_window_def retained_commitment_blocks_def mining_commitment_window_def)
  have "sn_bitcoin_height (tip (se_snapshots demo_engine)) = 10"
    by (simp add: demo_engine_def engine_new_def sc_new_def tip_def snapshot_genesis_def)
  then have "append_with_operations id_hashes (quiet_block 12) [] burn pox winner (se_snapshots demo_engine) = Inl (UnexpectedHeight 11 12)"
    for burn pox winner
    by (simp add: append_with_operations_def checked_add_def quiet_block_def)
  then show ?thesis
    by (simp add: engine_append_def empty window quiet_window elect_def outcome_def Let_def del: One_nat_def)
qed

end
