(* ===== verification/Bitcoin_Source.thy ===== *)
theory Bitcoin_Source
  imports Bitcoin_Ops
begin

text \<open>
  Reading Bitcoin blocks in \<open>nano-bitcoin\<close>: the six-block window of \<open>PreStx\<close> outputs that authorise later
  operations, the classification of a block's transactions, and the two sources (Bitcoin Core's RPC and
  Esplora's HTTP) that walk the chain forward and rewind after a reorganization. The remote ends are
  parameters, functions from a height to what they answer.
\<close>

section \<open>The cache of authorising outputs\<close>

definition pre_stx_window_blocks :: nat where
  "pre_stx_window_blocks = 6"

type_synonym pre_stx_cache = "bytes \<rightharpoonup> stacks_address \<times> u64"

text \<open>\<open>HashMap::retain\<close>\<close>

definition retain :: "('v \<Rightarrow> bool) \<Rightarrow> ('k \<rightharpoonup> 'v) \<Rightarrow> ('k \<rightharpoonup> 'v)" where
  "retain P m = (\<lambda>k. case m k of None \<Rightarrow> None | Some v \<Rightarrow> if P v then Some v else None)"

definition retain_window :: "u64 \<Rightarrow> pre_stx_cache \<Rightarrow> pre_stx_cache" where
  "retain_window height = retain (\<lambda>(_, seen_height). unat height - unat seen_height \<le> pre_stx_window_blocks)"

definition cache_invalidate_from :: "u64 \<Rightarrow> pre_stx_cache \<Rightarrow> pre_stx_cache" where
  "cache_invalidate_from height = retain (\<lambda>(_, seen_height). seen_height < height)"

section \<open>One block\<close>

datatype bitcoin_parse_error = InvalidBlock | TooManyTransactions

definition bitcoin_hash_bytes :: "bytes \<Rightarrow> bytes" where
  "bitcoin_hash_bytes = rev"

text \<open>The spendable outputs of a transaction, all of which must be readable.\<close>

definition read_outputs :: "tx_out list \<Rightarrow> bitcoin_output list option" where
  "read_outputs outs = those (map (\<lambda>out. case from_script_pubkey (to_script out) False of
       Inl _ \<Rightarrow> None | Inr recipient \<Rightarrow> Some \<lparr>bo_amount_sats = to_value out, bo_recipient = recipient\<rparr>) (drop 1 outs))"

definition read_inputs :: "tx_in list \<Rightarrow> bitcoin_input list" where
  "read_inputs = map (\<lambda>i. \<lparr>bi_txid = bitcoin_hash_bytes (ti_previous_txid i), bi_output_index = ti_previous_vout i\<rparr>)"

definition pre_stx_sender :: "pre_stx_cache \<Rightarrow> bitcoin_input list \<Rightarrow> stacks_address option" where
  "pre_stx_sender cache inputs = (case inputs of [] \<Rightarrow> None
     | i # _ \<Rightarrow> if bi_output_index i = 1 then map_option fst (cache (bi_txid i)) else None)"

text \<open>The body of the loop over a block's transactions: the operation the transaction carries, if any, with the
  sender its first input is paired with.\<close>

definition classify_tx ::
  "btc_api \<Rightarrow> ('pt, 'sc) curve \<Rightarrow> bytes \<Rightarrow> pre_stx_cache \<Rightarrow> u32 \<Rightarrow> btc_transaction \<Rightarrow> bitcoin_operation option" where
  "classify_tx api crv magic cache index tx = do {
     out \<leftarrow> get_at 0 (bt_outputs tx);
     (opcode, payload) \<leftarrow> protocol_payload api (to_script out) magic;
     outputs \<leftarrow> read_outputs (bt_outputs tx);
     if bt_inputs tx = [] \<or> outputs = [] then None
     else do {
       let inputs = read_inputs (bt_inputs tx);
       kind \<leftarrow> parse_operation crv opcode payload outputs (pre_stx_sender cache inputs);
       Some \<lparr>bop_txid = bitcoin_hash_bytes (compute_txid api tx), bop_transaction_index = index,
             bop_inputs = inputs, bop_outputs = outputs, bop_kind = kind\<rparr>
     }
   }"

definition note_pre_stx :: "u64 \<Rightarrow> bitcoin_operation \<Rightarrow> pre_stx_cache \<Rightarrow> pre_stx_cache" where
  "note_pre_stx height op cache =
     (case bop_kind op of PreStx sender \<Rightarrow> cache(bop_txid op \<mapsto> (sender, height)) | _ \<Rightarrow> cache)"

fun scan_txs ::
  "btc_api \<Rightarrow> ('pt, 'sc) curve \<Rightarrow> bytes \<Rightarrow> u64 \<Rightarrow> nat \<Rightarrow> btc_transaction list \<Rightarrow> pre_stx_cache
   \<Rightarrow> pre_stx_cache \<times> (bitcoin_parse_error + bitcoin_operation list)" where
  "scan_txs api crv magic height index [] cache = (cache, Inr [])"
| "scan_txs api crv magic height index (tx # txs) cache =
     (if index \<ge> 2 ^ 32 then (cache, Inl TooManyTransactions)
      else case classify_tx api crv magic cache (word_of_nat index) tx of
        None \<Rightarrow> scan_txs api crv magic height (Suc index) txs cache
      | Some op \<Rightarrow>
          (case scan_txs api crv magic height (Suc index) txs (note_pre_stx height op cache) of
             (cache', Inl e) \<Rightarrow> (cache', Inl e)
           | (cache', Inr ops) \<Rightarrow> (cache', Inr (op # ops))))"

definition decode_block_with_pre_stx ::
  "btc_api \<Rightarrow> ('pt, 'sc) curve \<Rightarrow> u64 \<Rightarrow> bytes \<Rightarrow> bytes \<Rightarrow> pre_stx_cache
   \<Rightarrow> pre_stx_cache \<times> (bitcoin_parse_error + bitcoin_block)" where
  "decode_block_with_pre_stx api crv height bs magic cache =
     (let cache = retain_window height cache in
      case deserialize_block api bs of
        None \<Rightarrow> (cache, Inl InvalidBlock)
      | Some block \<Rightarrow>
          (case scan_txs api crv magic height 0 (bk_txdata block) cache of
             (cache', Inl e) \<Rightarrow> (cache', Inl e)
           | (cache', Inr operations) \<Rightarrow>
               (cache', Inr \<lparr>bb_height = height, bb_hash = bitcoin_hash_bytes (bk_block_hash block),
                  bb_timestamp = ucast (bk_time block), bb_operations = operations\<rparr>)))"

definition bitcoin_decode_block ::
  "btc_api \<Rightarrow> ('pt, 'sc) curve \<Rightarrow> u64 \<Rightarrow> bytes \<Rightarrow> bytes \<Rightarrow> bitcoin_parse_error + bitcoin_block" where
  "bitcoin_decode_block api crv height bs magic = snd (decode_block_with_pre_stx api crv height bs magic Map.empty)"

section \<open>The sources\<close>

text \<open>What a remote end answers now: the header hash at a height, in the order a block records it, and the raw
  block; \<open>None\<close> is a failed call.\<close>

record remote =
  remote_hash :: "u64 \<Rightarrow> bytes option"
  remote_raw :: "u64 \<Rightarrow> bytes option"

datatype source_error = SourceUnreachable | SourceParse bitcoin_parse_error | Reorganized u64

record bitcoin_source =
  bs_pre_stx :: pre_stx_cache
  bs_last_height :: "u64 option"
  bs_last_block :: "bitcoin_block option"

definition source_new :: bitcoin_source where
  "source_new = \<lparr>bs_pre_stx = Map.empty, bs_last_height = None, bs_last_block = None\<rparr>"

definition filter_option :: "('a \<Rightarrow> bool) \<Rightarrow> 'a option \<Rightarrow> 'a option" where
  "filter_option P x = (case x of None \<Rightarrow> None | Some a \<Rightarrow> if P a then Some a else None)"

text \<open>Bitcoin Core's source stands just below the invalidated height afterwards.\<close>

definition rpc_invalidate_from :: "u64 \<Rightarrow> bitcoin_source \<Rightarrow> bitcoin_source" where
  "rpc_invalidate_from height s = s
     \<lparr>bs_pre_stx := cache_invalidate_from height (bs_pre_stx s),
      bs_last_block := filter_option (\<lambda>b. bb_height b < height) (bs_last_block s),
      bs_last_height := (case bs_last_height s of None \<Rightarrow> None
        | Some l \<Rightarrow> if l < height then Some l else if height = 0 then None else Some (height - 1))\<rparr>"

text \<open>Esplora's source forgets where it stood.\<close>

definition rest_invalidate_from :: "u64 \<Rightarrow> bitcoin_source \<Rightarrow> bitcoin_source" where
  "rest_invalidate_from height s = s
     \<lparr>bs_pre_stx := cache_invalidate_from height (bs_pre_stx s),
      bs_last_block := filter_option (\<lambda>b. bb_height b < height) (bs_last_block s),
      bs_last_height := filter_option (\<lambda>l. l < height) (bs_last_height s)\<rparr>"

text \<open>Both sources share the rest; \<open>invalidate\<close> is the source's own \<open>invalidate_from\<close>.\<close>

definition check_last_read ::
  "(u64 \<Rightarrow> bitcoin_source \<Rightarrow> bitcoin_source) \<Rightarrow> remote \<Rightarrow> bitcoin_source \<Rightarrow> bitcoin_source \<times> (source_error + unit)" where
  "check_last_read invalidate rm s =
     (case bs_last_block s of
        None \<Rightarrow> (s, Inr ())
      | Some b \<Rightarrow>
          (case remote_hash rm (bb_height b) of
             None \<Rightarrow> (s, Inl SourceUnreachable)
           | Some hash \<Rightarrow>
               if hash = bb_hash b then (s, Inr ())
               else (invalidate (bb_height b) s, Inl (Reorganized (bb_height b)))))"

text \<open>The loop \<open>for current_height in first_height..=height\<close>, the last decoded block being the answer.\<close>

fun read_forward ::
  "btc_api \<Rightarrow> ('pt, 'sc) curve \<Rightarrow> bytes \<Rightarrow> remote \<Rightarrow> u64 list \<Rightarrow> bitcoin_block option \<Rightarrow> bitcoin_source
   \<Rightarrow> bitcoin_source \<times> (source_error + bitcoin_block option)" where
  "read_forward api crv magic rm [] current s = (s, Inr current)"
| "read_forward api crv magic rm (h # hs) current s =
     (case remote_raw rm h of
        None \<Rightarrow> (s, Inl SourceUnreachable)
      | Some raw \<Rightarrow>
          (case decode_block_with_pre_stx api crv h raw magic (bs_pre_stx s) of
             (cache, Inl e) \<Rightarrow> (s\<lparr>bs_pre_stx := cache\<rparr>, Inl (SourceParse e))
           | (cache, Inr block) \<Rightarrow>
               read_forward api crv magic rm hs (Some block)
                 \<lparr>bs_pre_stx = cache, bs_last_height = Some h, bs_last_block = Some block\<rparr>))"

definition heights_between :: "u64 \<Rightarrow> u64 \<Rightarrow> u64 list" where
  "heights_between a b = map word_of_nat [unat a ..< Suc (unat b)]"

definition first_height :: "u64 option \<Rightarrow> u64 \<Rightarrow> u64" where
  "first_height last_height height =
     (case filter_option (\<lambda>l. l < height) last_height of
        None \<Rightarrow> word_of_nat (unat height - pre_stx_window_blocks)
      | Some l \<Rightarrow> l + 1)"

definition source_block_at ::
  "(u64 \<Rightarrow> bitcoin_source \<Rightarrow> bitcoin_source) \<Rightarrow> btc_api \<Rightarrow> ('pt, 'sc) curve \<Rightarrow> bytes \<Rightarrow> remote \<Rightarrow> u64
   \<Rightarrow> bitcoin_source \<Rightarrow> bitcoin_source \<times> (source_error + bitcoin_block)" where
  "source_block_at invalidate api crv magic rm height s =
     (case check_last_read invalidate rm s of
        (s, Inl e) \<Rightarrow> (s, Inl e)
      | (s, Inr _) \<Rightarrow>
          (case filter_option (\<lambda>b. bb_height b = height) (bs_last_block s) of
             Some b \<Rightarrow> (s, Inr b)
           | None \<Rightarrow>
               (let s = (if (case bs_last_height s of None \<Rightarrow> False | Some l \<Rightarrow> height < l)
                         then s\<lparr>bs_pre_stx := Map.empty\<rparr> else s) in
                case read_forward api crv magic rm
                       (heights_between (first_height (bs_last_height s) height) height) None s of
                  (s, Inl e) \<Rightarrow> (s, Inl e)
                | (s, Inr None) \<Rightarrow> (s, Inl (SourceParse InvalidBlock))
                | (s, Inr (Some b)) \<Rightarrow> (s, Inr b))))"

definition rpc_block_at ::
  "btc_api \<Rightarrow> ('pt, 'sc) curve \<Rightarrow> bytes \<Rightarrow> remote \<Rightarrow> u64 \<Rightarrow> bitcoin_source \<Rightarrow> bitcoin_source \<times> (source_error + bitcoin_block)" where
  "rpc_block_at = source_block_at rpc_invalidate_from"

definition rest_block_at ::
  "btc_api \<Rightarrow> ('pt, 'sc) curve \<Rightarrow> bytes \<Rightarrow> remote \<Rightarrow> u64 \<Rightarrow> bitcoin_source \<Rightarrow> bitcoin_source \<times> (source_error + bitcoin_block)" where
  "rest_block_at = source_block_at rest_invalidate_from"

section \<open>What a block adds to the cache\<close>

text \<open>The cache never decides whether a transaction is a \<open>PreStx\<close>, so what a block adds to it depends on the
  block alone.\<close>

definition pre_entry ::
  "btc_api \<Rightarrow> ('pt, 'sc) curve \<Rightarrow> bytes \<Rightarrow> btc_transaction \<Rightarrow> (bytes \<times> stacks_address) option" where
  "pre_entry api crv magic tx = (case classify_tx api crv magic Map.empty 0 tx of
     Some op \<Rightarrow> (case bop_kind op of PreStx sender \<Rightarrow> Some (bop_txid op, sender) | _ \<Rightarrow> None) | None \<Rightarrow> None)"

lemma parse_operation_sender:
  "parse_operation crv opcode data outputs sender = Some (PreStx a) \<longleftrightarrow>
   parse_operation crv opcode data outputs None = Some (PreStx a)"
  by (auto simp: parse_operation_def parse_stack_stx_def parse_transfer_stx_def parse_delegate_stx_def
      parse_vote_for_aggregate_key_def Let_def bind_eq_Some_conv split: if_splits)

definition pre_operation ::
  "btc_api \<Rightarrow> ('pt, 'sc) curve \<Rightarrow> bytes \<Rightarrow> u32 \<Rightarrow> btc_transaction \<Rightarrow> stacks_address \<Rightarrow> bitcoin_operation \<Rightarrow> bool" where
  "pre_operation api crv magic index tx a op \<longleftrightarrow>
     (\<exists>out opcode payload outputs. get_at 0 (bt_outputs tx) = Some out
       \<and> protocol_payload api (to_script out) magic = Some (opcode, payload)
       \<and> read_outputs (bt_outputs tx) = Some outputs \<and> bt_inputs tx \<noteq> [] \<and> outputs \<noteq> []
       \<and> parse_operation crv opcode payload outputs None = Some (PreStx a)
       \<and> op = \<lparr>bop_txid = bitcoin_hash_bytes (compute_txid api tx), bop_transaction_index = index,
               bop_inputs = read_inputs (bt_inputs tx), bop_outputs = outputs, bop_kind = PreStx a\<rparr>)"

lemma classify_pre:
  assumes "classify_tx api crv magic cache index tx = Some op" "bop_kind op = PreStx a"
  shows "pre_operation api crv magic index tx a op"
proof -
  obtain out opcode payload outputs kind where parts: "get_at 0 (bt_outputs tx) = Some out"
      "protocol_payload api (to_script out) magic = Some (opcode, payload)" "read_outputs (bt_outputs tx) = Some outputs"
      "bt_inputs tx \<noteq> []" "outputs \<noteq> []"
    and kind: "parse_operation crv opcode payload outputs (pre_stx_sender cache (read_inputs (bt_inputs tx))) = Some kind"
    and op: "op = \<lparr>bop_txid = bitcoin_hash_bytes (compute_txid api tx), bop_transaction_index = index,
               bop_inputs = read_inputs (bt_inputs tx), bop_outputs = outputs, bop_kind = kind\<rparr>"
    using assms(1) unfolding classify_tx_def Let_def
    by (simp add: bind_eq_Some_conv split: if_splits prod.splits) (elim exE conjE, blast)
  have "parse_operation crv opcode payload outputs None = Some (PreStx a)"
    using kind op assms(2) parse_operation_sender by fastforce
  with parts op assms(2) show ?thesis by (auto simp: pre_operation_def)
qed

lemma pre_classified:
  assumes "pre_operation api crv magic index tx a op"
  shows "classify_tx api crv magic cache index tx = Some op"
proof -
  obtain out opcode payload outputs where parts: "get_at 0 (bt_outputs tx) = Some out"
      "protocol_payload api (to_script out) magic = Some (opcode, payload)" "read_outputs (bt_outputs tx) = Some outputs"
      "bt_inputs tx \<noteq> []" "outputs \<noteq> []" "parse_operation crv opcode payload outputs None = Some (PreStx a)"
    and op: "op = \<lparr>bop_txid = bitcoin_hash_bytes (compute_txid api tx), bop_transaction_index = index,
               bop_inputs = read_inputs (bt_inputs tx), bop_outputs = outputs, bop_kind = PreStx a\<rparr>"
    using assms unfolding pre_operation_def by blast
  have "parse_operation crv opcode payload outputs (pre_stx_sender cache (read_inputs (bt_inputs tx))) = Some (PreStx a)"
    using parts(6) parse_operation_sender by blast
  with parts op show ?thesis by (simp add: classify_tx_def Let_def)
qed

lemma note_classified:
  "(case classify_tx api crv magic cache index tx of None \<Rightarrow> cache | Some op \<Rightarrow> note_pre_stx h op cache)
   = (case pre_entry api crv magic tx of None \<Rightarrow> cache | Some (txid, sender) \<Rightarrow> cache(txid \<mapsto> (sender, h)))"
proof (cases "\<exists>a op. pre_operation api crv magic index tx a op")
  case True
  then obtain a op where op: "pre_operation api crv magic index tx a op" by blast
  then have "pre_operation api crv magic 0 tx a (op\<lparr>bop_transaction_index := 0\<rparr>)" "bop_kind op = PreStx a"
    by (auto simp: pre_operation_def)
  with pre_classified [OF op] show ?thesis
    by (simp add: pre_classified pre_entry_def note_pre_stx_def)
next
  case False
  have "pre_operation api crv magic index tx a (op\<lparr>bop_transaction_index := index\<rparr>)"
    if "pre_operation api crv magic 0 tx a op" for a op
    using that by (auto simp: pre_operation_def)
  with False have "bop_kind op \<noteq> PreStx a" if "classify_tx api crv magic Map.empty 0 tx = Some op" for op a
    using classify_pre [OF that] by blast
  then have "pre_entry api crv magic tx = None"
    by (simp add: pre_entry_def split: option.split bitcoin_operation_kind.split) blast
  moreover have "note_pre_stx h op cache = cache" if "classify_tx api crv magic cache index tx = Some op" for op
    using classify_pre [OF that] False by (simp add: note_pre_stx_def split: bitcoin_operation_kind.split) blast
  ultimately show ?thesis by (simp split: option.split)
qed

fun block_pre :: "btc_api \<Rightarrow> ('pt, 'sc) curve \<Rightarrow> bytes \<Rightarrow> u64 \<Rightarrow> btc_transaction list \<Rightarrow> pre_stx_cache" where
  "block_pre api crv magic h [] = Map.empty"
| "block_pre api crv magic h (tx # txs) =
     (case pre_entry api crv magic tx of None \<Rightarrow> Map.empty | Some (txid, sender) \<Rightarrow> [txid \<mapsto> (sender, h)])
     ++ block_pre api crv magic h txs"

lemma scan_txs_cache:
  assumes "index + length txs \<le> 2 ^ 32"
  shows "fst (scan_txs api crv magic h index txs cache) = cache ++ block_pre api crv magic h txs"
    and "\<exists>ops. snd (scan_txs api crv magic h index txs cache) = Inr ops"
proof -
  have "fst (scan_txs api crv magic h index txs cache) = cache ++ block_pre api crv magic h txs
      \<and> (\<exists>ops. snd (scan_txs api crv magic h index txs cache) = Inr ops)"
    using assms
  proof (induction txs arbitrary: index cache)
    case (Cons tx txs)
    have small: "\<not> index \<ge> 2 ^ 32"
      using Cons.prems by simp
    define cache' where "cache' = (case classify_tx api crv magic cache (word_of_nat index) tx of
        None \<Rightarrow> cache | Some op \<Rightarrow> note_pre_stx h op cache)"
    have "cache' = cache ++ (case pre_entry api crv magic tx of None \<Rightarrow> Map.empty | Some (txid, sender) \<Rightarrow> [txid \<mapsto> (sender, h)])"
      unfolding cache'_def note_classified by (auto split: option.splits)
    moreover obtain ops where "scan_txs api crv magic h (Suc index) txs cache' = (cache' ++ block_pre api crv magic h txs, Inr ops)"
      using Cons.IH [of "Suc index" cache'] Cons.prems by (auto simp: prod_eq_iff)
    ultimately show ?case
      using small by (auto simp: cache'_def split: option.splits)
  qed simp
  then show "fst (scan_txs api crv magic h index txs cache) = cache ++ block_pre api crv magic h txs"
    "\<exists>ops. snd (scan_txs api crv magic h index txs cache) = Inr ops" by blast+
qed

lemma block_pre_seen: "block_pre api crv magic h txs k = Some (sender, seen) \<Longrightarrow> seen = h"
  by (induction txs) (auto simp: map_add_Some_iff split: option.splits if_splits)

text \<open>A height a remote end can be read at, and what its block adds.\<close>

definition readable :: "btc_api \<Rightarrow> remote \<Rightarrow> u64 \<Rightarrow> bool" where
  "readable api rm h \<longleftrightarrow> (\<exists>raw block. remote_raw rm h = Some raw \<and> deserialize_block api raw = Some block
     \<and> length (bk_txdata block) \<le> 2 ^ 32)"

definition pre_at :: "btc_api \<Rightarrow> ('pt, 'sc) curve \<Rightarrow> bytes \<Rightarrow> remote \<Rightarrow> u64 \<Rightarrow> pre_stx_cache" where
  "pre_at api crv magic rm h = (case remote_raw rm h of None \<Rightarrow> Map.empty
     | Some raw \<Rightarrow> (case deserialize_block api raw of None \<Rightarrow> Map.empty
        | Some block \<Rightarrow> block_pre api crv magic h (bk_txdata block)))"

text \<open>Every \<open>PreStx\<close> output below a height, the newest of a transaction winning: the cache of a reader that
  has seen the whole chain and forgotten nothing.\<close>

primrec authorised :: "btc_api \<Rightarrow> ('pt, 'sc) curve \<Rightarrow> bytes \<Rightarrow> remote \<Rightarrow> nat \<Rightarrow> pre_stx_cache" where
  "authorised api crv magic rm 0 = Map.empty"
| "authorised api crv magic rm (Suc n) = authorised api crv magic rm n ++ pre_at api crv magic rm (word_of_nat n)"

text \<open>The block at a height, read with that cache.\<close>

definition true_block ::
  "btc_api \<Rightarrow> ('pt, 'sc) curve \<Rightarrow> bytes \<Rightarrow> remote \<Rightarrow> u64 \<Rightarrow> source_error + bitcoin_block" where
  "true_block api crv magic rm h = (case remote_raw rm h of None \<Rightarrow> Inl SourceUnreachable
     | Some raw \<Rightarrow> (case snd (decode_block_with_pre_stx api crv h raw magic (authorised api crv magic rm (unat h))) of
          Inl e \<Rightarrow> Inl (SourceParse e) | Inr b \<Rightarrow> Inr b))"

lemma decode_cache:
  assumes "readable api rm h" "remote_raw rm h = Some raw"
  shows "fst (decode_block_with_pre_stx api crv h raw magic cache) = retain_window h cache ++ pre_at api crv magic rm h"
    and "\<exists>b. snd (decode_block_with_pre_stx api crv h raw magic cache) = Inr b \<and> bb_height b = h"
proof -
  obtain block where block: "deserialize_block api raw = Some block" "length (bk_txdata block) \<le> 2 ^ 32"
    using assms by (auto simp: readable_def)
  define res where "res = scan_txs api crv magic h 0 (bk_txdata block) (retain_window h cache)"
  obtain ops where "res = (retain_window h cache ++ pre_at api crv magic rm h, Inr ops)"
    using scan_txs_cache [of 0 "bk_txdata block" api crv magic h "retain_window h cache"] block assms(2)
    by (auto simp: res_def pre_at_def prod_eq_iff)
  then show "fst (decode_block_with_pre_stx api crv h raw magic cache) = retain_window h cache ++ pre_at api crv magic rm h"
    "\<exists>b. snd (decode_block_with_pre_stx api crv h raw magic cache) = Inr b \<and> bb_height b = h"
    using block(1) by (simp_all add: decode_block_with_pre_stx_def Let_def res_def [symmetric])
qed

lemma decode_retained:
  "decode_block_with_pre_stx api crv h raw magic cache = decode_block_with_pre_stx api crv h raw magic cache'"
  if "retain_window h cache = retain_window h cache'"
  using that by (simp add: decode_block_with_pre_stx_def Let_def)

section \<open>A cache that is ready for the next block\<close>

definition ready :: "btc_api \<Rightarrow> ('pt, 'sc) curve \<Rightarrow> bytes \<Rightarrow> remote \<Rightarrow> u64 \<Rightarrow> pre_stx_cache \<Rightarrow> bool" where
  "ready api crv magic rm h cache \<longleftrightarrow>
     retain_window h cache = retain_window h (authorised api crv magic rm (unat h))"

text \<open>Every entry of the cache was written by the block at the height it names, below \<open>b\<close>.\<close>

definition traceable :: "btc_api \<Rightarrow> ('pt, 'sc) curve \<Rightarrow> bytes \<Rightarrow> remote \<Rightarrow> nat \<Rightarrow> pre_stx_cache \<Rightarrow> bool" where
  "traceable api crv magic rm b cache \<longleftrightarrow>
     (\<forall>k sender seen. cache k = Some (sender, seen) \<longrightarrow> unat seen < b \<and> pre_at api crv magic rm seen k \<noteq> None)"

lemma pre_at_seen: "pre_at api crv magic rm h k = Some (sender, seen) \<Longrightarrow> seen = h"
  by (auto simp: pre_at_def block_pre_seen split: option.splits)

lemma retain_eq: "retain P m k = filter_option P (m k)"
  by (simp add: retain_def filter_option_def)

lemma filter_option_simps [simp]: "filter_option P None = None" "filter_option P (Some a) = (if P a then Some a else None)"
  by (simp_all add: filter_option_def)

lemma filter_option_eq_Some: "filter_option P x = Some a \<longleftrightarrow> x = Some a \<and> P a"
  by (cases x) auto

lemma unat_Suc_height: "unat h < 2 ^ 64 - 1 \<Longrightarrow> unat (h + 1) = Suc (unat h)" for h :: u64
  by (simp add: unat_word_ariths)

lemma ready_step:
  assumes "ready api crv magic rm h cache" and "unat h < 2 ^ 64 - 1"
  shows "ready api crv magic rm (h + 1) (retain_window h cache ++ pre_at api crv magic rm h)"
proof -
  define all where "all = authorised api crv magic rm (unat h)"
  have next_all: "authorised api crv magic rm (unat (h + 1)) = all ++ pre_at api crv magic rm h"
    using unat_Suc_height [OF assms(2)] by (simp add: all_def)
  have "retain_window (h + 1) (retain_window h m ++ p) = retain_window (h + 1) (m ++ p)" for m p
    using unat_Suc_height [OF assms(2)]
    by (auto simp: fun_eq_iff retain_window_def retain_def map_add_def pre_stx_window_blocks_def split: option.splits)
  moreover have "retain_window h cache = retain_window h all"
    using assms(1) by (simp add: ready_def all_def)
  ultimately show ?thesis
    by (metis ready_def next_all)
qed

lemma authorised_seen:
  assumes "authorised api crv magic rm n k = Some (sender, seen)" "n \<le> 2 ^ 64"
  shows "unat seen < n \<and> pre_at api crv magic rm seen k = Some (sender, seen)
    \<and> (\<forall>t. unat seen < t \<and> t < n \<longrightarrow> pre_at api crv magic rm (word_of_nat t) k = None)"
  using assms
proof (induction n)
  case (Suc n)
  have n: "unat (word_of_nat n :: u64) = n"
    using Suc.prems(2) by (simp add: unat_of_nat)
  show ?case
  proof (cases "pre_at api crv magic rm (word_of_nat n) k")
    case None
    with Suc show ?thesis by (auto simp: map_add_def less_Suc_eq)
  next
    case (Some p)
    with Suc.prems(1) have "pre_at api crv magic rm (word_of_nat n) k = Some (sender, seen)"
      by (simp add: map_add_def)
    moreover from pre_at_seen [OF this] have "seen = word_of_nat n" .
    ultimately show ?thesis by (auto simp: n)
  qed
qed simp

lemma authorised_None:
  "authorised api crv magic rm n k = None \<Longrightarrow> t < n \<Longrightarrow> pre_at api crv magic rm (word_of_nat t) k = None"
  by (induction n) (auto simp: map_add_None less_Suc_eq)

section \<open>Walking forward\<close>

definition absorb :: "btc_api \<Rightarrow> ('pt, 'sc) curve \<Rightarrow> bytes \<Rightarrow> remote \<Rightarrow> pre_stx_cache \<Rightarrow> u64 list \<Rightarrow> pre_stx_cache" where
  "absorb api crv magic rm = foldl (\<lambda>cache h. retain_window h cache ++ pre_at api crv magic rm h)"

lemma absorb_simps [simp]:
  "absorb api crv magic rm cache [] = cache"
  "absorb api crv magic rm cache (hs @ [h]) = retain_window h (absorb api crv magic rm cache hs) ++ pre_at api crv magic rm h"
  "absorb api crv magic rm cache (h # hs) = absorb api crv magic rm (retain_window h cache ++ pre_at api crv magic rm h) hs"
  by (simp_all add: absorb_def)

lemma read_forward_ok:
  assumes "\<forall>x \<in> set (hs @ [h]). readable api rm x"
  shows "\<exists>raw b. remote_raw rm h = Some raw \<and> bb_height b = h
    \<and> snd (decode_block_with_pre_stx api crv h raw magic (absorb api crv magic rm (bs_pre_stx s) hs)) = Inr b
    \<and> read_forward api crv magic rm (hs @ [h]) current s
      = (\<lparr>bs_pre_stx = absorb api crv magic rm (bs_pre_stx s) (hs @ [h]), bs_last_height = Some h, bs_last_block = Some b\<rparr>,
         Inr (Some b))"
  using assms
proof (induction hs arbitrary: current s)
  case Nil
  then obtain raw where "remote_raw rm h = Some raw" "readable api rm h"
    by (auto simp: readable_def)
  with decode_cache [of api rm h raw crv magic "bs_pre_stx s"] show ?case
    by (auto simp: prod_eq_iff split: prod.splits)
next
  case (Cons x hs)
  then obtain raw where raw: "remote_raw rm x = Some raw" "readable api rm x"
    by (auto simp: readable_def)
  with decode_cache [of api rm x raw crv magic "bs_pre_stx s"] obtain b where
    decoded: "decode_block_with_pre_stx api crv x raw magic (bs_pre_stx s) = (retain_window x (bs_pre_stx s) ++ pre_at api crv magic rm x, Inr b)"
    by (auto simp: prod_eq_iff)
  from Cons.IH [where current = "Some b" and s = "\<lparr>bs_pre_stx = retain_window x (bs_pre_stx s) ++ pre_at api crv magic rm x,
      bs_last_height = Some x, bs_last_block = Some b\<rparr>"] Cons.prems raw(1) decoded
  show ?case by simp
qed

lemma ready_absorb:
  assumes "ready api crv magic rm (word_of_nat a) cache" and "a \<le> m" "m < 2 ^ 64"
  shows "ready api crv magic rm (word_of_nat m) (absorb api crv magic rm cache (map word_of_nat [a ..< m]))"
  using assms(2,3)
proof (induction m rule: dec_induct)
  case (step m)
  have "ready api crv magic rm (word_of_nat m + 1)
      (retain_window (word_of_nat m) (absorb api crv magic rm cache (map word_of_nat [a ..< m])) ++ pre_at api crv magic rm (word_of_nat m))"
    using step by (intro ready_step) (auto simp: unat_of_nat)
  then show ?case
    using step.hyps by (simp add: add.commute)
qed (use assms(1) in simp)

text \<open>Re-reading six blocks makes any traceable cache ready.\<close>

definition wrote :: "btc_api \<Rightarrow> ('pt, 'sc) curve \<Rightarrow> bytes \<Rightarrow> remote \<Rightarrow> nat \<Rightarrow> nat \<Rightarrow> bytes \<Rightarrow> bool" where
  "wrote api crv magic rm a m k \<longleftrightarrow> (\<exists>t. a \<le> t \<and> t < m \<and> pre_at api crv magic rm (word_of_nat t) k \<noteq> None)"

lemma wrote_Suc:
  "a \<le> m \<Longrightarrow> wrote api crv magic rm a (Suc m) k \<longleftrightarrow> wrote api crv magic rm a m k \<or> pre_at api crv magic rm (word_of_nat m) k \<noteq> None"
  unfolding wrote_def less_Suc_eq by blast

lemma wrote_authorised:
  assumes "wrote api crv magic rm a m k" "m \<le> 2 ^ 64"
  shows "\<exists>sender seen. authorised api crv magic rm m k = Some (sender, seen) \<and> a \<le> unat seen"
proof -
  obtain t where t: "a \<le> t" "t < m" "pre_at api crv magic rm (word_of_nat t) k \<noteq> None"
    using assms(1) by (auto simp: wrote_def)
  have "authorised api crv magic rm m k \<noteq> None"
    using authorised_None [of api crv magic rm m k t] t(2,3) by blast
  then obtain sender seen where e: "authorised api crv magic rm m k = Some (sender, seen)"
    by (metis not_None_eq surj_pair)
  have "t \<le> unat seen"
  proof (rule ccontr)
    assume "\<not> t \<le> unat seen"
    then have "pre_at api crv magic rm (word_of_nat t) k = None"
      using authorised_seen [OF e assms(2)] t(2) by simp
    with t(3) show False by simp
  qed
  with e t(1) show ?thesis by auto
qed

lemma absorb_reread:
  assumes "a \<le> m" "m \<le> a + 6" "m < 2 ^ 64"
  shows "(wrote api crv magic rm a m k \<longrightarrow> absorb api crv magic rm cache (map word_of_nat [a ..< m]) k = authorised api crv magic rm m k)
    \<and> (\<not> wrote api crv magic rm a m k \<longrightarrow> absorb api crv magic rm cache (map word_of_nat [a ..< m]) k \<in> {None, cache k})"
  using assms
proof (induction m rule: dec_induct)
  case base
  have "\<not> wrote api crv magic rm a a k"
    unfolding wrote_def by linarith
  then show ?case by simp
next
  case (step m)
  define old where "old = absorb api crv magic rm cache (map word_of_nat [a ..< m])"
  have new: "absorb api crv magic rm cache (map word_of_nat [a ..< Suc m]) k
      = (case pre_at api crv magic rm (word_of_nat m) k of None \<Rightarrow> retain_window (word_of_nat m) old k | Some p \<Rightarrow> Some p)"
    unfolding old_def using step.hyps(1) by (simp add: map_add_def)
  have IH: "wrote api crv magic rm a m k \<Longrightarrow> old k = authorised api crv magic rm m k"
      "\<not> wrote api crv magic rm a m k \<Longrightarrow> old k \<in> {None, cache k}"
    using step unfolding old_def by simp_all
  have m: "unat (word_of_nat m :: u64) = m"
    using step.prems by (simp add: unat_of_nat)
  have retained: "retain_window (word_of_nat m) old k = authorised api crv magic rm m k" if wrote: "wrote api crv magic rm a m k"
    using wrote_authorised [OF wrote] IH(1) [OF wrote] step.prems
    by (auto simp: retain_window_def retain_def pre_stx_window_blocks_def m)
  have dropped: "retain_window (word_of_nat m) old k \<in> {None, old k}"
    by (simp add: retain_window_def retain_def split: option.split)
  show ?case
    unfolding wrote_Suc [OF step.hyps(1)] new
    using retained dropped IH(2) by (cases "pre_at api crv magic rm (word_of_nat m) k") (auto simp: map_add_def)
qed

lemma reread_ready:
  assumes "traceable api crv magic rm b cache" "b \<le> unat h"
  shows "ready api crv magic rm h (absorb api crv magic rm cache (map word_of_nat [unat h - 6 ..< unat h]))"
proof -
  define cache' where "cache' = absorb api crv magic rm cache (map word_of_nat [unat h - 6 ..< unat h])"
  have h: "unat h < 2 ^ 64"
    using unat_bound [of h] by simp
  have reread: "wrote api crv magic rm (unat h - 6) (unat h) k \<longrightarrow> cache' k = authorised api crv magic rm (unat h) k"
    "\<not> wrote api crv magic rm (unat h - 6) (unat h) k \<longrightarrow> cache' k \<in> {None, cache k}" for k
    using absorb_reread [of "unat h - 6" "unat h" api crv magic rm k cache] h unfolding cache'_def by auto
  have "retain_window h cache' k = retain_window h (authorised api crv magic rm (unat h)) k" for k
  proof (cases "wrote api crv magic rm (unat h - 6) (unat h) k")
    case True
    then show ?thesis using reread(1) by (simp add: retain_window_def retain_def)
  next
    case False
    have old: "6 < unat h - unat seen" if seen: "unat seen < unat h" "pre_at api crv magic rm seen k \<noteq> None" for seen :: u64
    proof (rule ccontr)
      assume "\<not> ?thesis"
      then have "unat h - 6 \<le> unat seen" by linarith
      with False seen show False
        unfolding wrote_def by (auto dest!: spec [of _ "unat seen"])
    qed
    have "retain_window h m k = None" if "\<forall>sender seen. m k = Some (sender, seen) \<longrightarrow> 6 < unat h - unat seen" for m
      using that by (auto simp: retain_window_def retain_def pre_stx_window_blocks_def split: option.split)
    moreover have "\<forall>sender seen. cache' k = Some (sender, seen) \<longrightarrow> 6 < unat h - unat seen"
      using reread(2) False assms old unfolding traceable_def by fastforce
    moreover have "\<forall>sender seen. authorised api crv magic rm (unat h) k = Some (sender, seen) \<longrightarrow> 6 < unat h - unat seen"
      using authorised_seen [of api crv magic rm "unat h" k] h old by fastforce
    ultimately show ?thesis by simp
  qed
  then show ?thesis
    by (auto simp: ready_def cache'_def)
qed

section \<open>A source in step with the chain\<close>

text \<open>A remote end is coherent when the hash it reports at a height is the hash of the block it serves there.\<close>

definition coherent :: "btc_api \<Rightarrow> remote \<Rightarrow> bool" where
  "coherent api rm \<longleftrightarrow> (\<forall>h raw block. remote_raw rm h = Some raw \<and> deserialize_block api raw = Some block \<longrightarrow>
     remote_hash rm h = Some (bitcoin_hash_bytes (bk_block_hash block)))"

definition synced :: "btc_api \<Rightarrow> ('pt, 'sc) curve \<Rightarrow> bytes \<Rightarrow> remote \<Rightarrow> bitcoin_source \<Rightarrow> bool" where
  "synced api crv magic rm s \<longleftrightarrow> s = source_new \<or>
     (\<exists>l block. bs_last_height s = Some l \<and> bs_last_block s = Some block \<and> bb_height block = l
        \<and> true_block api crv magic rm l = Inr block \<and> unat l < 2 ^ 64 - 1
        \<and> ready api crv magic rm (l + 1) (bs_pre_stx s) \<and> traceable api crv magic rm (Suc (unat l)) (bs_pre_stx s))"

text \<open>Two remote ends that serve the same blocks below a height.\<close>

definition same_below :: "nat \<Rightarrow> remote \<Rightarrow> remote \<Rightarrow> bool" where
  "same_below n rm rm' \<longleftrightarrow> (\<forall>t. unat t < n \<longrightarrow> remote_raw rm' t = remote_raw rm t)"

lemma pre_at_same: "same_below n rm rm' \<Longrightarrow> unat t < n \<Longrightarrow> pre_at api crv magic rm' t = pre_at api crv magic rm t"
  by (simp add: same_below_def pre_at_def)

lemma authorised_same:
  assumes "same_below n rm rm'" "m \<le> n" "m < 2 ^ 64"
  shows "authorised api crv magic rm' m = authorised api crv magic rm m"
  using assms(2,3)
proof (induction m)
  case (Suc m)
  then show ?case
    using pre_at_same [OF assms(1), of "word_of_nat m" api crv magic] by (simp add: unat_of_nat)
qed simp

lemma true_block_hash:
  assumes "true_block api crv magic rm h = Inr b" "coherent api rm"
  shows "remote_hash rm h = Some (bb_hash b)" "bb_height b = h"
proof -
  obtain raw where raw: "remote_raw rm h = Some raw"
    and "snd (decode_block_with_pre_stx api crv h raw magic (authorised api crv magic rm (unat h))) = Inr b"
    using assms(1) by (auto simp: true_block_def split: option.splits sum.splits)
  then obtain block where "deserialize_block api raw = Some block" "bb_hash b = bitcoin_hash_bytes (bk_block_hash block)" "bb_height b = h"
    by (auto simp: decode_block_with_pre_stx_def Let_def split: option.splits prod.splits sum.splits)
  with raw assms(2) show "remote_hash rm h = Some (bb_hash b)" "bb_height b = h"
    by (auto simp: coherent_def)
qed

lemma true_block_same:
  assumes "same_below n rm rm'" "unat h < n"
  shows "true_block api crv magic rm' h = true_block api crv magic rm h"
proof -
  have "remote_raw rm' h = remote_raw rm h" "authorised api crv magic rm' (unat h) = authorised api crv magic rm (unat h)"
    using assms unat_bound [of h] authorised_same [OF assms(1), of "unat h" api crv magic] by (auto simp: same_below_def)
  then show ?thesis by (simp only: true_block_def)
qed

lemma traceable_step:
  assumes "traceable api crv magic rm b cache" "unat h < b"
  shows "traceable api crv magic rm b (retain_window h cache ++ pre_at api crv magic rm h)"
  unfolding traceable_def
proof (intro allI impI)
  fix k sender seen
  assume "(retain_window h cache ++ pre_at api crv magic rm h) k = Some (sender, seen)"
  then consider "pre_at api crv magic rm h k = Some (sender, seen)" | "retain_window h cache k = Some (sender, seen)"
    by (auto simp: map_add_Some_iff)
  then show "unat seen < b \<and> pre_at api crv magic rm seen k \<noteq> None"
  proof cases
    case 1
    then show ?thesis using pre_at_seen [OF 1] assms(2) by simp
  next
    case 2
    then have "cache k = Some (sender, seen)"
      by (auto simp: retain_window_def retain_def split: option.splits if_splits)
    then show ?thesis using assms(1) by (simp add: traceable_def)
  qed
qed

lemma traceable_absorb:
  assumes "traceable api crv magic rm b cache" "\<forall>h \<in> set hs. unat h < b"
  shows "traceable api crv magic rm b (absorb api crv magic rm cache hs)"
  using assms by (induction hs rule: rev_induct) (simp_all add: traceable_step)

lemma traceable_mono: "traceable api crv magic rm b cache \<Longrightarrow> b \<le> b' \<Longrightarrow> traceable api crv magic rm b' cache"
  unfolding traceable_def by (meson order_less_le_trans)

lemma heights_between_split: "a \<le> h \<Longrightarrow> heights_between a h = map word_of_nat [unat a ..< unat h] @ [h]"
  by (simp add: heights_between_def word_le_nat_alt)

lemma read_synced:
  assumes "\<forall>t \<le> h. readable api rm t" "a \<le> h" "unat h < 2 ^ 64 - 1" "traceable api crv magic rm (Suc (unat h)) (bs_pre_stx s)"
    and "ready api crv magic rm h (absorb api crv magic rm (bs_pre_stx s) (map word_of_nat [unat a ..< unat h]))"
  shows "\<exists>s' b. read_forward api crv magic rm (heights_between a h) None s = (s', Inr (Some b))
    \<and> true_block api crv magic rm h = Inr b \<and> synced api crv magic rm s'"
proof -
  define hs :: "u64 list" where "hs = map word_of_nat [unat a ..< unat h]"
  have hs: "unat t < unat h" if "t \<in> set hs" for t
    using that unat_bound [of h] by (auto simp: hs_def unat_of_nat)
  then have "\<forall>t \<in> set (hs @ [h]). readable api rm t"
    using assms(1) by (auto simp: word_le_nat_alt dest: hs less_imp_le)
  from read_forward_ok [OF this, of crv magic s None] obtain raw b where raw: "remote_raw rm h = Some raw" "bb_height b = h"
    and b: "snd (decode_block_with_pre_stx api crv h raw magic (absorb api crv magic rm (bs_pre_stx s) hs)) = Inr b"
    and run: "read_forward api crv magic rm (hs @ [h]) None s
      = (\<lparr>bs_pre_stx = absorb api crv magic rm (bs_pre_stx s) (hs @ [h]), bs_last_height = Some h, bs_last_block = Some b\<rparr>, Inr (Some b))"
    by blast
  have "true_block api crv magic rm h = Inr b"
    using decode_retained [OF assms(5) [folded hs_def, unfolded ready_def], of api crv raw magic] b raw
    by (simp add: true_block_def)
  moreover have "ready api crv magic rm (h + 1) (absorb api crv magic rm (bs_pre_stx s) (hs @ [h]))"
    using ready_step [OF assms(5) [folded hs_def] assms(3)] by simp
  moreover have "traceable api crv magic rm (Suc (unat h)) (absorb api crv magic rm (bs_pre_stx s) (hs @ [h]))"
    using hs by (intro traceable_absorb assms(4)) (auto simp: less_Suc_eq)
  ultimately show ?thesis
    using run raw(2) assms(3) by (auto simp: heights_between_split [OF assms(2)] hs_def [symmetric] synced_def)
qed

lemma rest_rewound:
  assumes "synced api crv magic rm s" "same_below (unat x) rm rm'" "coherent api rm'"
  defines "s' \<equiv> rest_invalidate_from x s"
  shows "check_last_read rest_invalidate_from rm' s' = (s', Inr ())"
    and "traceable api crv magic rm' (unat x) (bs_pre_stx s')"
    and "(bs_last_height s' = None \<and> bs_last_block s' = None) \<or>
      (\<exists>l b. bs_last_height s' = Some l \<and> bs_last_block s' = Some b \<and> bb_height b = l \<and> l < x \<and> unat l < 2 ^ 64 - 1
        \<and> ready api crv magic rm' (l + 1) (bs_pre_stx s'))"
proof -
  have traceable: "traceable api crv magic rm' (unat x) (cache_invalidate_from x cache)"
    if "traceable api crv magic rm b cache" for b cache
    using that pre_at_same [OF assms(2), of _ api crv magic]
    by (auto simp: traceable_def cache_invalidate_from_def retain_def word_less_nat_alt split: option.splits if_splits)
  have "check_last_read rest_invalidate_from rm' s' = (s', Inr ()) \<and> traceable api crv magic rm' (unat x) (bs_pre_stx s') \<and>
    ((bs_last_height s' = None \<and> bs_last_block s' = None) \<or>
      (\<exists>l b. bs_last_height s' = Some l \<and> bs_last_block s' = Some b \<and> bb_height b = l \<and> l < x \<and> unat l < 2 ^ 64 - 1
        \<and> ready api crv magic rm' (l + 1) (bs_pre_stx s')))"
    using assms(1) unfolding synced_def
  proof (elim disjE exE conjE)
    assume "s = source_new"
    then have "s' = source_new"
      by (simp add: s'_def rest_invalidate_from_def source_new_def cache_invalidate_from_def retain_def)
    then show ?thesis
      by (simp add: source_new_def check_last_read_def traceable_def)
  next
    fix l b
    assume l: "bs_last_height s = Some l" "bs_last_block s = Some b" "bb_height b = l" "unat l < 2 ^ 64 - 1"
      and b: "true_block api crv magic rm l = Inr b" and ready: "ready api crv magic rm (l + 1) (bs_pre_stx s)"
      and t: "traceable api crv magic rm (Suc (unat l)) (bs_pre_stx s)"
    show ?thesis
    proof (cases "l < x")
      case True
      have "cache_invalidate_from x (bs_pre_stx s) = bs_pre_stx s"
        using t True by (fastforce simp: traceable_def cache_invalidate_from_def retain_def word_less_nat_alt split: option.splits)
      with True l have s': "s' = s"
        by (simp add: s'_def rest_invalidate_from_def)
      have "remote_hash rm' l = Some (bb_hash b)"
        using true_block_hash(1) [OF _ assms(3)] true_block_same [OF assms(2), of l api crv magic] b True
        by (metis word_less_nat_alt)
      moreover have "ready api crv magic rm' (l + 1) (bs_pre_stx s)"
        using ready authorised_same [OF assms(2), of "unat (l + 1)" api crv magic] unat_Suc_height [OF l(4)] True l(4)
        by (simp add: ready_def word_less_nat_alt)
      ultimately show ?thesis
        using l True traceable [OF t] \<open>cache_invalidate_from x (bs_pre_stx s) = bs_pre_stx s\<close>
        by (simp add: s' check_last_read_def)
    next
      case False
      with l traceable [OF t] show ?thesis
        by (simp add: s'_def rest_invalidate_from_def check_last_read_def)
    qed
  qed
  then show "check_last_read rest_invalidate_from rm' s' = (s', Inr ())"
    "traceable api crv magic rm' (unat x) (bs_pre_stx s')"
    "(bs_last_height s' = None \<and> bs_last_block s' = None) \<or>
      (\<exists>l b. bs_last_height s' = Some l \<and> bs_last_block s' = Some b \<and> bb_height b = l \<and> l < x \<and> unat l < 2 ^ 64 - 1
        \<and> ready api crv magic rm' (l + 1) (bs_pre_stx s'))"
    by blast+
qed

text \<open>C17: Esplora's source reads true blocks across a reorganization. A source in step with one chain, told the
  height \<open>x\<close> a reorganization starts at, then asked for a block at or above \<open>x\<close> of the chain that replaced
  it, returns the block a reader would return that had seen that whole chain and forgotten nothing; and it is in step
  with the new chain afterwards.\<close>

theorem rest_rewind_reads_true_blocks:
  assumes "synced api crv magic rm s" "same_below (unat x) rm rm'" "coherent api rm'" "x \<le> h" "unat h < 2 ^ 64 - 1"
    and "\<forall>t \<le> h. readable api rm' t"
  shows "\<exists>s'. rest_block_at api crv magic rm' h (rest_invalidate_from x s) = (s', true_block api crv magic rm' h)
    \<and> synced api crv magic rm' s'"
proof -
  define r where "r = rest_invalidate_from x s"
  note rewound = rest_rewound [OF assms(1-3), folded r_def]
  define a where "a = first_height (bs_last_height r) h"
  have start: "ready api crv magic rm' h (absorb api crv magic rm' (bs_pre_stx r) (map word_of_nat [unat a ..< unat h])) \<and> a \<le> h
    \<and> filter_option (\<lambda>b. bb_height b = h) (bs_last_block r) = None
    \<and> \<not> (case bs_last_height r of None \<Rightarrow> False | Some l \<Rightarrow> h < l)"
    using rewound(3)
  proof (elim disjE exE conjE)
    assume none: "bs_last_height r = None" "bs_last_block r = None"
    then have a: "unat a = unat h - 6"
      using unat_bound [of h] by (simp add: a_def first_height_def pre_stx_window_blocks_def unat_of_nat)
    moreover have "ready api crv magic rm' h (absorb api crv magic rm' (bs_pre_stx r) (map word_of_nat [unat h - 6 ..< unat h]))"
      using reread_ready [OF rewound(2)] assms(4) by (simp add: word_le_nat_alt)
    ultimately show ?thesis
      using none by (simp add: word_le_nat_alt)
  next
    fix l b
    assume l: "bs_last_height r = Some l" "bs_last_block r = Some b" "bb_height b = l" "l < x" "unat l < 2 ^ 64 - 1"
      and ready: "ready api crv magic rm' (l + 1) (bs_pre_stx r)"
    have lt: "l < h"
      using l(4) assms(4) by (rule less_le_trans)
    then have a: "a = l + 1" "unat a = Suc (unat l)"
      using l(1) unat_Suc_height [OF l(5)] by (simp_all add: a_def first_height_def)
    moreover have "ready api crv magic rm' h (absorb api crv magic rm' (bs_pre_stx r) (map word_of_nat [unat a ..< unat h]))"
      using ready_absorb [of api crv magic rm' "unat a" "bs_pre_stx r" "unat h"] ready a lt unat_bound [of h]
      by (simp add: word_less_nat_alt)
    ultimately show ?thesis
      using l(1-3) lt by (auto simp: word_le_nat_alt word_less_nat_alt)
  qed
  have "traceable api crv magic rm' (Suc (unat h)) (bs_pre_stx r)"
    using rewound(2) by (rule traceable_mono) (use assms(4) in \<open>simp add: word_le_nat_alt\<close>)
  then obtain s' b where "read_forward api crv magic rm' (heights_between a h) None r = (s', Inr (Some b))"
      "true_block api crv magic rm' h = Inr b" "synced api crv magic rm' s'"
    using read_synced [OF assms(6) _ assms(5), of a crv magic r] start by blast
  then show ?thesis
    using start rewound(1)
    by (simp add: rest_block_at_def source_block_at_def r_def [symmetric] a_def [symmetric])
qed

section \<open>A reorganization two blocks deep\<close>

text \<open>A small Bitcoin crate and two chains. Block 1 holds a \<open>PreStx\<close>. On the first chain nothing follows. On the
  second, block 7 holds the transfer that spends it, six blocks later and so still authorised.\<close>

definition demo_script :: bytes where
  "demo_script = [0x76, 0xa9, 0x14] @ replicate 20 5 @ [0x88, 0xac]"

definition demo_pre :: btc_transaction where
  "demo_pre = \<lparr>bt_version = 2, bt_lock_time = 0, bt_inputs = [\<lparr>ti_previous_txid = [], ti_previous_vout = 0\<rparr>],
     bt_outputs = [\<lparr>to_value = 0, to_script = [0x6a, 9, 9, 0x70]\<rparr>, \<lparr>to_value = 1, to_script = demo_script\<rparr>]\<rparr>"

definition demo_transfer :: btc_transaction where
  "demo_transfer = \<lparr>bt_version = 2, bt_lock_time = 0, bt_inputs = [\<lparr>ti_previous_txid = [0x6a, 9, 9, 0x70], ti_previous_vout = 1\<rparr>],
     bt_outputs = [\<lparr>to_value = 0, to_script = [0x6a, 9, 9, 0x24] @ replicate 16 0\<rparr>, \<lparr>to_value = 1, to_script = demo_script\<rparr>]\<rparr>"

definition demo_api :: btc_api where
  "demo_api = \<lparr>
     instructions_minimal = (\<lambda>script. case script of [] \<Rightarrow> [] | op # p \<Rightarrow> [Some (OpCode op), Some (PushBytes p)]),
     new_op_return = (\<lambda>p. 0x6a # p),
     compute_txid = (\<lambda>tx. to_script (hd (bt_outputs tx))),
     deserialize_block = (\<lambda>raw. Some \<lparr>bk_block_hash = raw, bk_time = 0,
       bk_txdata = (if raw = [1] then [demo_pre] else if raw = [2] then [demo_transfer] else [])\<rparr>)\<rparr>"

definition demo_remote :: "(u64 \<Rightarrow> bytes) \<Rightarrow> remote" where
  "demo_remote f = \<lparr>remote_hash = (\<lambda>h. Some (rev (f h))), remote_raw = (\<lambda>h. Some (f h))\<rparr>"

definition first_chain :: remote where
  "first_chain = demo_remote (\<lambda>h. if h = 1 then [1] else [0])"

definition second_chain :: remote where
  "second_chain = demo_remote (\<lambda>h. if h = 1 then [1] else if h = 7 then [2] else if h < 7 then [0] else [3])"

abbreviation operations_read :: "source_error + bitcoin_block \<Rightarrow> nat" where
  "operations_read r \<equiv> (case r of Inl _ \<Rightarrow> 0 | Inr b \<Rightarrow> length (bb_operations b))"

definition demo_key :: bytes where
  "demo_key = [0x70, 9, 9, 0x6a]"

definition demo_sender :: stacks_address where
  "demo_sender = \<lparr>sa_version = 26, sa_hash160 = replicate 20 5\<rparr>"

lemma demo_script_read: "from_script_pubkey demo_script False = Inr (PoxStandard demo_sender (Some AhmP2pkh))"
  by (simp add: demo_script_def demo_sender_def from_script_pubkey_def standard_pox_def stacks_address_new_def)

lemma demo_pre_entry: "pre_entry demo_api byte_curve [9, 9] demo_pre = Some (demo_key, demo_sender)"
  by (simp add: pre_entry_def classify_tx_def demo_pre_def demo_api_def get_at_def protocol_payload_def read_outputs_def
      demo_script_read read_inputs_def parse_operation_def as_stacks_address_def bitcoin_hash_bytes_def demo_key_def)

lemma demo_transfer_entry: "pre_entry demo_api byte_curve [9, 9] demo_transfer = None"
  by (simp add: pre_entry_def classify_tx_def demo_transfer_def demo_api_def get_at_def protocol_payload_def read_outputs_def
      demo_script_read read_inputs_def pre_stx_sender_def parse_operation_def)

lemma demo_pre_at:
  "pre_at demo_api byte_curve [9, 9] first_chain h = (if h = 1 then [demo_key \<mapsto> (demo_sender, h)] else Map.empty)"
  "pre_at demo_api byte_curve [9, 9] second_chain h = (if h = 1 then [demo_key \<mapsto> (demo_sender, h)] else Map.empty)"
  by (simp_all add: pre_at_def first_chain_def second_chain_def demo_remote_def demo_api_def
      demo_pre_entry [unfolded demo_api_def] demo_transfer_entry [unfolded demo_api_def])

lemma demo_authorised: "authorised demo_api byte_curve [9, 9] second_chain 7 = [demo_key \<mapsto> (demo_sender, 1)]"
proof -
  have "(7 :: nat) = Suc (Suc (Suc (Suc (Suc (Suc (Suc 0))))))" by simp
  then show ?thesis
    by (simp only: authorised.simps demo_pre_at) (simp add: map_add_def fun_eq_iff)
qed

lemma demo_raw: "remote_raw second_chain 7 = Some [2]"
  by (simp add: second_chain_def demo_remote_def)

lemma demo_readable: "readable demo_api first_chain h" "readable demo_api second_chain h"
  by (simp_all add: readable_def demo_api_def first_chain_def second_chain_def demo_remote_def)

lemma demo_transfer_decoded:
  "operations_read (case snd (decode_block_with_pre_stx demo_api byte_curve h [2] [9, 9] cache) of Inl e \<Rightarrow> Inl (SourceParse e) | Inr b \<Rightarrow> Inr b)
   = (if retain_window h cache demo_key = None then 0 else 1)"
  by (cases "retain_window h cache demo_key")
     (simp_all add: decode_block_with_pre_stx_def classify_tx_def demo_transfer_def demo_api_def get_at_def protocol_payload_def
       read_outputs_def demo_script_read read_inputs_def pre_stx_sender_def parse_operation_def bitcoin_hash_bytes_def
       demo_key_def parse_transfer_stx_def get_range_def as_stacks_address_def note_pre_stx_def Let_def)

lemma retain_window_empty [simp]: "retain_window h Map.empty = Map.empty"
  by (simp add: retain_window_def retain_def fun_eq_iff)

text \<open>Reading the second chain's block 7 after the blocks \<open>hs\<close>.\<close>

lemma demo_read_seven:
  "\<exists>s' b. read_forward demo_api byte_curve [9, 9] second_chain (hs @ [7]) None s = (s', Inr (Some b))
     \<and> length (bb_operations b)
       = (if retain_window 7 (absorb demo_api byte_curve [9, 9] second_chain (bs_pre_stx s) hs) demo_key = None then 0 else 1)"
proof -
  obtain raw b s' where "remote_raw second_chain 7 = Some raw"
      "snd (decode_block_with_pre_stx demo_api byte_curve 7 raw [9, 9] (absorb demo_api byte_curve [9, 9] second_chain (bs_pre_stx s) hs)) = Inr b"
      "read_forward demo_api byte_curve [9, 9] second_chain (hs @ [7]) None s = (s', Inr (Some b))"
    using read_forward_ok [of hs 7 demo_api second_chain byte_curve "[9, 9]" s None] demo_readable(2) by blast
  moreover have "raw = [2]"
    using calculation(1) by (simp add: second_chain_def demo_remote_def)
  ultimately show ?thesis
    using demo_transfer_decoded [of 7 "absorb demo_api byte_curve [9, 9] second_chain (bs_pre_stx s) hs"] by simp
qed

lemma source_block_at_read:
  assumes "bs_last_block s = None" "\<forall>l. bs_last_height s = Some l \<longrightarrow> l \<le> h"
    and "read_forward api crv magic rm (heights_between (first_height (bs_last_height s) h) h) None s = (s', Inr (Some b))"
  shows "source_block_at invalidate api crv magic rm h s = (s', Inr b)"
proof -
  have "\<not> (case bs_last_height s of None \<Rightarrow> False | Some l \<Rightarrow> h < l)"
    using assms(2) by (auto split: option.split)
  with assms(1,3) show ?thesis
    by (simp add: source_block_at_def check_last_read_def)
qed

lemma demo_first_read:
  "\<exists>b. read_forward demo_api byte_curve [9, 9] first_chain (heights_between 2 8) None source_new
     = (\<lparr>bs_pre_stx = Map.empty, bs_last_height = Some 8, bs_last_block = Some b\<rparr>, Inr (Some b)) \<and> bb_height b = 8"
proof -
  have "heights_between 2 8 = [2, 3, 4, 5, 6, 7] @ [8]"
    by (simp add: heights_between_def)
  then show ?thesis
    using read_forward_ok [of "[2, 3, 4, 5, 6, 7]" 8 demo_api first_chain byte_curve "[9, 9]" source_new None] demo_readable(1)
    by (auto simp: absorb_def demo_pre_at source_new_def)
qed

lemma demo_heights:
  "first_height None 8 = (2 :: u64)" "first_height None 7 = (1 :: u64)" "first_height (Some 6) 7 = (7 :: u64)"
  "heights_between 7 7 = [] @ [7 :: u64]" "heights_between 1 7 = [1, 2, 3, 4, 5, 6] @ [7 :: u64]"
proof -
  have "[Suc 0 ..< 8] = [1, 2, 3, 4, 5, 6, 7]"
    by (simp add: upt_conv_Cons)
  then show "first_height None 8 = (2 :: u64)" "first_height None 7 = (1 :: u64)" "first_height (Some 6) 7 = (7 :: u64)"
    "heights_between 7 7 = [] @ [7 :: u64]" "heights_between 1 7 = [1, 2, 3, 4, 5, 6] @ [7 :: u64]"
    by (simp_all add: first_height_def pre_stx_window_blocks_def heights_between_def)
qed

lemma demo_at_eight:
  "\<exists>b. bb_height b = 8 \<and> fst (source_block_at invalidate demo_api byte_curve [9, 9] first_chain 8 source_new)
     = \<lparr>bs_pre_stx = Map.empty, bs_last_height = Some 8, bs_last_block = Some b\<rparr>"
proof -
  define after where "after = (\<lambda>b. \<lparr>bs_pre_stx = Map.empty, bs_last_height = Some (8 :: u64), bs_last_block = Some b\<rparr>)"
  from demo_first_read obtain b where b: "bb_height b = 8"
    "read_forward demo_api byte_curve [9, 9] first_chain (heights_between 2 8) None source_new = (after b, Inr (Some b))"
    unfolding after_def by (elim exE conjE)
  have none: "bs_last_block source_new = None" "bs_last_height source_new = None"
    by (simp_all add: source_new_def)
  then have "source_block_at invalidate demo_api byte_curve [9, 9] first_chain 8 source_new = (after b, Inr b)"
    using b(2) by (intro source_block_at_read) (simp_all only: demo_heights(1) option.distinct simp_thms)
  with b(1) show ?thesis by (auto simp: after_def)
qed

lemma demo_forgotten: "cache_invalidate_from 7 Map.empty = Map.empty"
  by (simp add: cache_invalidate_from_def retain_def fun_eq_iff)

lemma demo_true: "operations_read (true_block demo_api byte_curve [9, 9] second_chain 7) = 1"
proof -
  have "retain_window 7 (authorised demo_api byte_curve [9, 9] second_chain 7) demo_key \<noteq> None"
    by (simp add: demo_authorised retain_window_def retain_def pre_stx_window_blocks_def)
  then show ?thesis
    using demo_transfer_decoded [of 7 "authorised demo_api byte_curve [9, 9] second_chain 7"]
    by (simp add: true_block_def demo_raw)
qed

lemma demo_rpc:
  "operations_read (snd (rpc_block_at demo_api byte_curve [9, 9] second_chain 7
     (rpc_invalidate_from 7 (fst (rpc_block_at demo_api byte_curve [9, 9] first_chain 8 source_new))))) = 0"
proof -
  define s where "s = \<lparr>bs_pre_stx = Map.empty, bs_last_height = Some (6 :: u64), bs_last_block = None\<rparr>"
  have s: "bs_last_block s = None" "bs_last_height s = Some 6" "bs_pre_stx s = Map.empty"
    by (simp_all add: s_def)
  obtain s' c where c: "read_forward demo_api byte_curve [9, 9] second_chain ([] @ [7]) None s = (s', Inr (Some c))" "bb_operations c = []"
    using demo_read_seven [of "[]" s] s(3) by auto
  have "source_block_at rpc_invalidate_from demo_api byte_curve [9, 9] second_chain 7 s = (s', Inr c)"
    using c(1) s by (intro source_block_at_read) (simp_all only: demo_heights, simp)
  moreover obtain b where "bb_height b = 8" "fst (source_block_at rpc_invalidate_from demo_api byte_curve [9, 9] first_chain 8 source_new)
      = \<lparr>bs_pre_stx = Map.empty, bs_last_height = Some 8, bs_last_block = Some b\<rparr>"
    using demo_at_eight by blast
  moreover from this have "rpc_invalidate_from 7 (fst (rpc_block_at demo_api byte_curve [9, 9] first_chain 8 source_new)) = s"
    by (simp add: rpc_block_at_def rpc_invalidate_from_def demo_forgotten s_def)
  ultimately show ?thesis
    using c(2) by (simp add: rpc_block_at_def)
qed

lemma demo_rest:
  "operations_read (snd (rest_block_at demo_api byte_curve [9, 9] second_chain 7
     (rest_invalidate_from 7 (fst (rest_block_at demo_api byte_curve [9, 9] first_chain 8 source_new))))) = 1"
proof -
  have s: "bs_last_block source_new = None" "bs_last_height source_new = None" "bs_pre_stx source_new = Map.empty"
    by (simp_all add: source_new_def)
  have "retain_window 7 (absorb demo_api byte_curve [9, 9] second_chain Map.empty [1, 2, 3, 4, 5, 6]) demo_key \<noteq> None"
    by (simp add: demo_pre_at retain_window_def retain_def pre_stx_window_blocks_def)
  then obtain s' c where c: "read_forward demo_api byte_curve [9, 9] second_chain ([1, 2, 3, 4, 5, 6] @ [7]) None source_new = (s', Inr (Some c))"
      "length (bb_operations c) = 1"
    using demo_read_seven [of "[1, 2, 3, 4, 5, 6]" source_new] s(3) by metis
  have "source_block_at rest_invalidate_from demo_api byte_curve [9, 9] second_chain 7 source_new = (s', Inr c)"
    using c(1) s by (intro source_block_at_read) (simp_all only: demo_heights, simp)
  moreover obtain b where "bb_height b = 8" "fst (source_block_at rest_invalidate_from demo_api byte_curve [9, 9] first_chain 8 source_new)
      = \<lparr>bs_pre_stx = Map.empty, bs_last_height = Some 8, bs_last_block = Some b\<rparr>"
    using demo_at_eight by blast
  moreover from this have "rest_invalidate_from 7 (fst (rest_block_at demo_api byte_curve [9, 9] first_chain 8 source_new)) = source_new"
    by (simp add: rest_block_at_def rest_invalidate_from_def demo_forgotten source_new_def)
  ultimately show ?thesis
    using c(2) by (simp add: rest_block_at_def)
qed


theorem rest_rewind_reads_true_blocks_witness:
  "\<exists>s'. rest_block_at demo_api byte_curve [9, 9] second_chain 7 (rest_invalidate_from 7 source_new)
     = (s', true_block demo_api byte_curve [9, 9] second_chain 7) \<and> synced demo_api byte_curve [9, 9] second_chain s'"
proof -
  have "synced demo_api byte_curve [9, 9] first_chain source_new"
    by (simp add: synced_def)
  moreover have "same_below (unat (7 :: u64)) first_chain second_chain"
    by (simp add: same_below_def first_chain_def second_chain_def demo_remote_def word_less_nat_alt)
  moreover have "coherent demo_api second_chain" "\<forall>t \<le> 7. readable demo_api second_chain t"
    by (simp_all add: coherent_def readable_def demo_api_def second_chain_def demo_remote_def bitcoin_hash_bytes_def)
  ultimately show ?thesis
    by (intro rest_rewind_reads_true_blocks [where rm = first_chain]) simp_all
qed

end
