(* ===== verification/Commitment_Path.thy ===== *)
theory Commitment_Path
  imports Bitcoin_Source Sortition_Schedule
begin

text \<open>
  The path of a commitment through the components: the transaction a miner builds (\<open>nano-bitcoin\<close>), the
  operation the same crate reads out of a Bitcoin block, and the candidate \<open>nano-sortition\<close> makes of it.
\<close>

lemma read_waterfall_outputs:
  assumes "from_script_pubkey (script_pubkey recipient) False = Inr p"
    and "\<forall>address change_amount. change = Some (address, change_amount) \<longrightarrow> pox_ok net address"
  shows "\<exists>rest. read_outputs ([\<lparr>to_value = 0, to_script = s\<rparr>, \<lparr>to_value = amount, to_script = script_pubkey recipient\<rparr>]
      @ (case change of None \<Rightarrow> [] | Some (address, change_amount) \<Rightarrow> [\<lparr>to_value = change_amount, to_script = script_pubkey address\<rparr>]))
    = Some (\<lparr>bo_amount_sats = amount, bo_recipient = p\<rparr> # rest)"
proof (cases change)
  case None
  then show ?thesis using assms(1) by (simp add: read_outputs_def)
next
  case (Some c)
  obtain address change_amount where c: "c = (address, change_amount)" by (cases c)
  then obtain q where "from_script_pubkey (script_pubkey address) False = Inr q"
    using from_script_pubkey_any_network [of net address] assms(2) Some by blast
  then show ?thesis using assms(1) Some c by (simp add: read_outputs_def)
qed

text \<open>The operation a built commitment is read as.\<close>

lemma built_commitment_classified:
  assumes "op_return_law api" "length magic = 2" "inputs \<noteq> []"
    and "length (lbc_block_header_hash c) = 32" "length (lbc_new_seed c) = 32"
    and "pox_ok net recipient" "\<forall>address change_amount. change = Some (address, change_amount) \<longrightarrow> pox_ok net address"
    and "build_leader_commitment_transaction api magic c inputs recipient amount change = Inr tx"
  shows "\<exists>op first rest. classify_tx api crv magic cache index tx = Some op \<and> bop_inputs op = read_inputs inputs
    \<and> bop_outputs op = first # rest \<and> bo_amount_sats first = amount \<and> script_pubkey (bo_recipient first) = script_pubkey recipient
    \<and> 0 < amount \<and> bop_kind op = LeaderBlockCommit (lbc_block_header_hash c) (lbc_new_seed c)
        (lbc_parent_block_height c) (lbc_parent_transaction_index c) (lbc_key_block_height c)
        (lbc_key_transaction_index c) (lbc_memo c) (lbc_parent_modulus c)"
proof -
  obtain payload where enc: "lbc_encode c = Inr payload" and pos: "amount \<noteq> 0"
    and tx: "bt_inputs tx = inputs" "bt_outputs tx = [\<lparr>to_value = 0, to_script = new_op_return api (magic @ [0x5b] @ payload)\<rparr>,
        \<lparr>to_value = amount, to_script = script_pubkey recipient\<rparr>]
      @ (case change of None \<Rightarrow> [] | Some (address, change_amount) \<Rightarrow> [\<lparr>to_value = change_amount, to_script = script_pubkey address\<rparr>])"
    using assms(8)
    by (auto simp: build_leader_commitment_transaction_def push_bytes_buf_def split: if_splits sum.splits)
  obtain p where p: "from_script_pubkey (script_pubkey recipient) False = Inr p" "script_pubkey p = script_pubkey recipient"
    using from_script_pubkey_any_network [OF assms(6)] by blast
  obtain rest where outs: "read_outputs (bt_outputs tx) = Some (\<lparr>bo_amount_sats = amount, bo_recipient = p\<rparr> # rest)"
    using read_waterfall_outputs [OF p(1) assms(7)] unfolding tx(2) by blast
  have "protocol_payload api (new_op_return api (magic @ [0x5b] @ payload)) magic = Some (0x5b, payload)"
    using protocol_payload_written [OF assms(1,2)] parse_encoded_commitment(2) [OF enc assms(4,5)] by simp
  moreover have "get_at 0 (bt_outputs tx) = Some \<lparr>to_value = 0, to_script = new_op_return api (magic @ [0x5b] @ payload)\<rparr>"
    by (simp add: tx(2) get_at_def)
  moreover have "0 < amount"
    using pos by (simp add: word_neq_0_conv)
  ultimately show ?thesis
    using assms(3) tx(1) outs p(2) parse_encoded_commitment(1) [OF enc assms(4,5)]
    by (auto simp: classify_tx_def parse_operation_def Let_def)
qed

text \<open>What a commitment must say to be counted at a Bitcoin height: it aims at that height, builds on a block below
  it, and names a leader key registered below it.\<close>

definition aimed_at :: "u64 \<Rightarrow> leader_block_commitment \<Rightarrow> bool" where
  "aimed_at h c \<longleftrightarrow> commitment_is_on_time (lbc_parent_modulus c) h
     \<and> (lbc_parent_block_height c \<noteq> 0 \<or> lbc_parent_transaction_index c = 0) \<and> ucast (lbc_parent_block_height c) < h
     \<and> lbc_key_block_height c \<noteq> 0 \<and> ucast (lbc_key_block_height c) < h"

lemma window_entries_kept:
  assumes "op \<in> set ops" and "bop_kind op = LeaderBlockCommit hash seed parent parent_index key key_index memo modulus"
    and "commitment_is_admissible (bb_height block) op payouts" "commitment_is_on_time modulus (bb_height block)"
  shows "\<exists>m \<in> set (fst (window_entries block payouts keys ops)). mc_txid m = bop_txid op \<and> mc_vrf_seed m = seed
    \<and> mc_committed_block_hash m = hash
    \<and> mc_burn_sats m = sum_list (map bo_amount_sats (take (outputs_at payouts (bb_height block)) (bop_outputs op)))"
  using assms(1)
proof (induction ops)
  case (Cons x ops)
  show ?case
  proof (cases "x = op")
    case True
    then show ?thesis
      using assms(2-4) by (simp add: commitment_is_on_time_def Let_def split: prod.splits)
  next
    case False
    then obtain m where m: "m \<in> set (fst (window_entries block payouts keys ops))" "mc_txid m = bop_txid op \<and> mc_vrf_seed m = seed
        \<and> mc_committed_block_hash m = hash
        \<and> mc_burn_sats m = sum_list (map bo_amount_sats (take (outputs_at payouts (bb_height block)) (bop_outputs op)))"
      using Cons by auto
    have "set (fst (window_entries block payouts keys ops)) \<subseteq> set (fst (window_entries block payouts keys (x # ops)))"
      by (auto simp: Let_def split: prod.splits bitcoin_operation_kind.splits)
    with m show ?thesis by blast
  qed
qed simp

lemma cw_commitments_eq:
  "cw_commitments (commitment_window_block block payouts keys) = fst (window_entries block payouts keys (bb_operations block))"
  by (simp add: commitment_window_block_def split: prod.split)

section \<open>The path as specified\<close>

text \<open>C16: a commitment the miner builds for the waterfall is counted. When the transaction is built, funded by at least
  one input and aimed at the height of the Bitcoin block it lands in, the block reader makes a commitment operation of
  it; that operation is among the accepted ones the consensus hash covers, and it becomes a candidate of the sortition
  with the block hash and the seed committed to and with exactly the amount paid as its burn.\<close>

theorem built_commitment_is_counted:
  assumes "op_return_law api" "length magic = 2" "inputs \<noteq> []"
    and "length (lbc_block_header_hash c) = 32" "length (lbc_new_seed c) = 32"
    and "pox_ok net recipient" "\<forall>address change_amount. change = Some (address, change_amount) \<longrightarrow> pox_ok net address"
    and "build_leader_commitment_transaction api magic c inputs recipient amount change = Inr tx"
    and "aimed_at h c" "ps_is_waterfall_at payouts h" "ps_waterfall_recipient payouts = Some recipient"
  shows "\<exists>op. classify_tx api crv magic cache index tx = Some op \<and>
    (\<forall>block. bb_height block = h \<and> op \<in> set (bb_operations block) \<longrightarrow>
       bop_txid op \<in> set (accepted_operation_txids block payouts) \<and>
       (\<exists>m \<in> set (cw_commitments (commitment_window_block block payouts keys)). mc_txid m = bop_txid op
          \<and> mc_burn_sats m = amount \<and> mc_vrf_seed m = lbc_new_seed c \<and> mc_committed_block_hash m = lbc_block_header_hash c))"
proof -
  obtain op first rest where op: "classify_tx api crv magic cache index tx = Some op" "bop_inputs op = read_inputs inputs"
      "bop_outputs op = first # rest" "bo_amount_sats first = amount" "script_pubkey (bo_recipient first) = script_pubkey recipient" "0 < amount"
    and kind: "bop_kind op = LeaderBlockCommit (lbc_block_header_hash c) (lbc_new_seed c)
        (lbc_parent_block_height c) (lbc_parent_transaction_index c) (lbc_key_block_height c)
        (lbc_key_transaction_index c) (lbc_memo c) (lbc_parent_modulus c)"
    using built_commitment_classified [OF assms(1-8)] by blast
  have "accepts_commitment_outputs payouts h (bop_outputs op)"
    using op(3-6) assms(10,11) by (simp add: accepts_commitment_outputs_def ps_is_waterfall_at_def get_at_def)
  then have ok: "commitment_is_admissible h op payouts" "commitment_is_on_time (lbc_parent_modulus c) h"
    using assms(3,9) by (simp_all add: commitment_is_admissible_def kind aimed_at_def op(2) read_inputs_def)
  have burn: "sum_list (map bo_amount_sats (take (outputs_at payouts h) (bop_outputs op))) = amount"
    using assms(10) by (simp add: outputs_at_def ps_is_waterfall_at_def op(3,4))
  show ?thesis
  proof (intro exI conjI allI impI)
    show "classify_tx api crv magic cache index tx = Some op" by (fact op(1))
    fix block :: bitcoin_block
    assume block: "bb_height block = h \<and> op \<in> set (bb_operations block)"
    then show "bop_txid op \<in> set (accepted_operation_txids block payouts)"
      using ok by (auto simp: accepted_operation_txids_def kind intro!: image_eqI [of _ _ op])
    show "\<exists>m \<in> set (cw_commitments (commitment_window_block block payouts keys)). mc_txid m = bop_txid op
        \<and> mc_burn_sats m = amount \<and> mc_vrf_seed m = lbc_new_seed c \<and> mc_committed_block_hash m = lbc_block_header_hash c"
      using window_entries_kept [of op "bb_operations block", OF _ kind, of block payouts keys] block ok burn
      unfolding cw_commitments_eq by auto
  qed
qed

definition demo_commitment :: leader_block_commitment where
  "demo_commitment = \<lparr>lbc_block_header_hash = replicate 32 4, lbc_new_seed = replicate 32 6, lbc_parent_block_height = 19,
     lbc_parent_transaction_index = 1, lbc_key_block_height = 12, lbc_key_transaction_index = 0, lbc_memo = 0, lbc_parent_modulus = 1\<rparr>"

definition demo_recipient :: pox_address where
  "demo_recipient = PoxAddr32 True Pox32P2tr (replicate 32 8)"

definition demo_payouts :: payout_schedule where
  "demo_payouts = \<lparr>ps_cycles = \<lparr>rc_first_bitcoin_height = 10, rc_reward_cycle_length = 5, rc_first_waterfall_height = Some 20\<rparr>,
     ps_prepare_phase_length = 1, ps_waterfall_recipient = Some demo_recipient, ps_epoch_four_activation = None\<rparr>"

theorem built_commitment_is_counted_witness:
  "\<exists>tx op. build_leader_commitment_transaction demo_api [9, 9] demo_commitment [\<lparr>ti_previous_txid = [], ti_previous_vout = 2\<rparr>]
       demo_recipient 5000 None = Inr tx \<and> classify_tx demo_api byte_curve [9, 9] Map.empty 0 tx = Some op
   \<and> (\<exists>m \<in> set (cw_commitments (commitment_window_block \<lparr>bb_height = 22, bb_hash = [], bb_timestamp = 0, bb_operations = [op]\<rparr>
         demo_payouts lk_new)). mc_burn_sats m = 5000 \<and> mc_vrf_seed m = replicate 32 6)"
proof -
  have law: "op_return_law demo_api"
    by (simp add: op_return_law_def demo_api_def)
  obtain tx where tx: "build_leader_commitment_transaction demo_api [9, 9] demo_commitment
      [\<lparr>ti_previous_txid = [], ti_previous_vout = 2\<rparr>] demo_recipient 5000 None = Inr tx"
    by (simp add: build_leader_commitment_transaction_def demo_commitment_def lbc_encode_def push_bytes_buf_def)
  have "pox_ok True demo_recipient" "aimed_at 22 demo_commitment" "ps_is_waterfall_at demo_payouts 22"
      "ps_waterfall_recipient demo_payouts = Some demo_recipient"
    by (simp_all add: pox_ok_def demo_recipient_def aimed_at_def demo_commitment_def commitment_is_on_time_def
        commitment_miss_distance_def burn_block_mined_at_modulus_def ps_is_waterfall_at_def demo_payouts_def rc_is_waterfall_at_def)
  from built_commitment_is_counted [OF law _ _ _ _ this(1) _ tx this(2-4), of byte_curve Map.empty 0 lk_new]
  obtain op where op: "classify_tx demo_api byte_curve [9, 9] Map.empty 0 tx = Some op"
    and counted: "\<forall>block. bb_height block = 22 \<and> op \<in> set (bb_operations block) \<longrightarrow>
      bop_txid op \<in> set (accepted_operation_txids block demo_payouts) \<and>
       (\<exists>m \<in> set (cw_commitments (commitment_window_block block demo_payouts lk_new)). mc_txid m = bop_txid op
          \<and> mc_burn_sats m = 5000 \<and> mc_vrf_seed m = lbc_new_seed demo_commitment
          \<and> mc_committed_block_hash m = lbc_block_header_hash demo_commitment)"
    by (auto simp: demo_commitment_def)
  have "lbc_new_seed demo_commitment = replicate 32 6"
    by (simp add: demo_commitment_def)
  with tx op counted [THEN spec, of "\<lparr>bb_height = 22, bb_hash = [], bb_timestamp = 0, bb_operations = [op]\<rparr>"] show ?thesis
    by auto
qed

end
