(* ===== verification/Spec2Isabelle.thy ===== *)
theory Spec2Isabelle
  imports Apportionment Marf_Forest Sortition_Engine Commitment_Path
begin

text \<open>
  A verification library for nano-stacks, a small node for the Stacks blockchain (\<open>src/crates\<close>).

  \<^bold>\<open>The program.\<close> A block arrives as bytes and is decoded and validated (\<open>nano-codec\<close>, \<open>nano-chainstate\<close>); the
  transactions in it are decoded, hashed and their signatures verified (\<open>nano-codec\<close>, \<open>nano-crypto\<close>); the block is
  accepted when signers of seven tenths of the stacked weight have signed it (\<open>nano-chainstate\<close>); it is then executed
  over the state of its parent, and its state is sealed in a Merkle radix forest (\<open>nano-marf\<close>) whose root the block's
  header names. Who may build blocks is decided on Bitcoin: miners commit to blocks in Bitcoin transactions
  (\<open>nano-bitcoin\<close>), and every Bitcoin block holds a sortition that elects one of them by what they spent
  (\<open>nano-sortition\<close>).

  \<^bold>\<open>The theories and the code they model.\<close>
  \<^item> \<open>Prelude\<close>: results as sums (\<open>bind_e\<close>, \<open>map_e\<close>, \<open>fold_e\<close>, Rust's \<open>?\<close>), checked arithmetic on words, byte strings,
    readers over a byte position (\<open>bind_r\<close>, \<open>times_r\<close>, \<open>take_r\<close>) and the locales of the codecs: \<open>wire_codec\<close> (a reader
    that inverts a writer on the values it can write) and \<open>slice_reader\<close>.
  \<^item> \<open>Primitives\<close> (\<open>nano-primitives\<close>): networks, the hash of trie data, bit vectors and their wire form.
  \<^item> \<open>Address\<close> (\<open>nano-address\<close>): Stacks addresses, the addresses of proof of transfer and their output scripts.
  \<^item> \<open>Wire\<close>, \<open>Clarity_Value\<close>, \<open>Auth\<close>, \<open>Post_Condition\<close>, \<open>Payload\<close>, \<open>Transaction\<close>, \<open>Merkle\<close>, \<open>Auth_Verify\<close>
    (\<open>nano-codec/src/lib.rs\<close>): the reader and the writer, the scanner of Clarity values, spending conditions,
    post-conditions, payloads, transactions, the Merkle tree of transaction ids, signature hashes and verification.
  \<^item> \<open>Crypto\<close> (\<open>nano-crypto\<close>): keys, recoverable signatures and the verifiable random function.
  \<^item> \<open>Nakamoto\<close>, \<open>Signer_Set\<close>, \<open>Apportionment\<close> (\<open>nano-chainstate/src/nakamoto.rs\<close>): headers and blocks, their validation
    and linkage, signer weights, thresholds, the verification and ordering of signatures, and the division of reward
    slots. \<open>Sorted_Map\<close> is the ordered map they use, with its interface as the locale \<open>ordered_map\<close>.
  \<^item> \<open>Marf_Node\<close>, \<open>Marf_Trie\<close>, \<open>Versioned_Marf\<close> (\<open>nano-marf/src/lib.rs\<close>, \<open>storage.rs\<close>): trie nodes, their hash preimages and
    records; the two tables of the database with each SQL statement as the function it denotes, lookup, insertion,
    hashing and persisting; the MARF with its sealed states and the one being written. \<open>Marf_Seal\<close>, \<open>Marf_Rows\<close>,
    \<open>Marf_Invariant\<close>, \<open>Marf_Ops\<close> and \<open>Marf_Forest\<close> hold the proofs: the first two that persisting stores what was in
    memory, the next the invariant of the tables, the last the specification as a forest of maps and its refinement.
  \<^item> \<open>Bitcoin_Ops\<close>, \<open>Bitcoin_Source\<close> (\<open>nano-bitcoin/src/lib.rs\<close>): the payloads and transactions a miner builds, the
    parser of every operation, the decoder of a Bitcoin block with its cache of \<open>PreStx\<close> outputs, and the two sources
    that read blocks forward and rewind on a reorganization. What the remote end answers is the argument \<open>remote\<close>.
  \<^item> \<open>Sortition_Schedule\<close>, \<open>Distribution\<close>, \<open>Snapshot_Chain\<close>, \<open>Sortition_Engine\<close> (\<open>nano-sortition\<close>): reward cycles, payout
    schedules, leader keys and the admission of commitments; the weighing of commitments over a window, the ranges, the
    null miner of \<open>carryover.rs\<close> and the choice of the winner; the chain of snapshots with its bounded window; and the
    engine that joins them. \<open>Commitment_Path\<close> composes \<open>nano-bitcoin\<close> and \<open>nano-sortition\<close>.

  State is passed explicitly, errors are values of sum types with the source's error constructors, and unsigned
  integers are words of their width wherever the source adds or compares them. A panic of the source is an error value.

  \<^bold>\<open>What is proved.\<close> For the codecs: decoding accepts exactly the encodings of well-formed values, and what is accepted
  is re-encoded to the same bytes (with the exceptions the theorems name). For signatures: verification accepts exactly
  the authorizations whose recovered keys hash to the signer, signing makes them, and hashes bind what they cover unless
  the hash function collides. For signer sets: verification accepts exactly signatures of distinct signers in order with
  the threshold weight, two accepted blocks share signers of two fifths of the weight, and reward slots are apportioned
  by largest remainders. For the MARF: every operation on every reachable state does what it does on a forest of maps,
  sealed states do not change, sealing returns the root that was announced, the ancestor walk finds the ancestor, and
  blocks can always be written until 32-bit numbers run out. For the Bitcoin side: a commitment a miner builds is decoded
  and counted with what it spent; after a rewind the REST source reads exactly the blocks a source without the
  reorganization reads, and the RPC source does not. For sortitions: the sampled point elects a miner when it lies in
  the miner's part of the line, which is proportional to the burn that counts; the winner is a commitment of the very
  block; the bounded snapshot chain answers as the whole history would; a retracted branch leaves no trace; and the
  engine keeps its invariant through every operation, refused ones included.

  \<^bold>\<open>Parameters.\<close> Hash functions, elliptic-curve operations and text encodings of other packages are arguments of the
  definitions; where a theorem needs a property of them it is a hypothesis (digests have 32 bytes, recovery inverts
  signing, no collision among the given preimages), and a witness instantiates it.

  \<^bold>\<open>Loops and bounds.\<close> Loops are structural recursion or functions with a termination proof. The walk of
  \<open>block_at_height\<close> follows stored rows and is a partial function whose termination is a theorem. Readers bound every
  position by the greatest \<open>usize\<close>. The walk that forgets old snapshots ends because each step removes one.

  \<^bold>\<open>Not modelled.\<close> Caches of the trie storage (copies of rows that are never rewritten), failures of the database itself
  and staged imports; HTTP and RPC with their limits, and the taproot scripts of \<open>nano-bitcoin/src/sbtc.rs\<close>; the processes, sockets and files around the components (\<open>nano-node\<close>, \<open>nano-follower\<close>, \<open>nano-rpc\<close>,
  \<open>nano-tui\<close>); the virtual machine, which is a WebAssembly engine outside the repository; test and conformance crates.
  The manifest lists every component with its status.
\<close>

end
